(* ===== verification/Prelude.thy ===== *)
theory Prelude
  imports Main "HOL-Library.Word"
begin

text \<open>
  The shared base of the development: the machine integer types, the faults a C++ step can
  run into and the sequencing of steps that may fault, slot pointers, and the generic lemmas
  on lists and words that the component theories share.

  A step of the program has the type \<open>fault + 'a\<close>: \<open>Inr\<close> is the value (and the new state) of
  a step that is defined by the language, \<open>Inl\<close> says why the step has no defined result. The
  asserts of the code are compiled in unless \<open>NDEBUG\<close> is set; the flag \<open>dbg\<close>, the first
  argument of every operation with an assert, says which of the two builds is meant.
\<close>

section \<open>Machine integers and pointers\<close>

type_synonym u8 = "8 word"
type_synonym u32 = "32 word"
type_synonym u64 = "64 word"

text \<open>A pointer into the slot array of the order pool; \<open>None\<close> is the null pointer.\<close>

type_synonym ptr = "nat option"

section \<open>Faults\<close>

datatype fault =
    AssertFailed string  \<comment> \<open>a failed assert, in a build without \<open>NDEBUG\<close>\<close>
  | NullDeref            \<comment> \<open>a read or write through the null pointer\<close>
  | OutOfBounds          \<comment> \<open>an access outside an array or a vector\<close>
  | OutOfFuel            \<comment> \<open>a loop that has not ended within the fuel of the model\<close>

text \<open>Rewrite rules that run a sequence of steps, and rules that move facts across heap writes.\<close>

named_theorems step_simps
named_theorems frame

definition bindR :: "fault + 'a \<Rightarrow> ('a \<Rightarrow> fault + 'b) \<Rightarrow> fault + 'b" where
  "bindR m f = (case m of Inl e \<Rightarrow> Inl e | Inr x \<Rightarrow> f x)"

lemma bindR_Inl [simp, step_simps]: "bindR (Inl e) f = Inl e"
  by (simp add: bindR_def)

lemma bindR_Inr [simp, step_simps]: "bindR (Inr x) f = f x"
  by (simp add: bindR_def)

lemma bindR_eq_Inr: "bindR m f = Inr y \<longleftrightarrow> (\<exists>x. m = Inr x \<and> f x = Inr y)"
  by (cases m) auto

lemma bindR_assoc: "bindR (bindR m f) g = bindR m (\<lambda>x. bindR (f x) g)"
  by (cases m) auto

text \<open>\<open>assert(c)\<close>: checked only when the asserts are compiled in.\<close>

definition assertR :: "bool \<Rightarrow> string \<Rightarrow> bool \<Rightarrow> fault + unit" where
  "assertR dbg msg c = (if dbg \<and> \<not> c then Inl (AssertFailed msg) else Inr ())"

lemma assertR_ok [simp, step_simps]: "c \<Longrightarrow> assertR dbg msg c = Inr ()"
  by (simp add: assertR_def)

lemma assertR_release [simp, step_simps]: "assertR False msg c = Inr ()"
  by (simp add: assertR_def)

lemma assertR_fails [step_simps]: "\<not> c \<Longrightarrow> assertR True msg c = Inl (AssertFailed msg)"
  by (simp add: assertR_def)

lemma assertR_eq_Inr: "assertR dbg msg c = Inr x \<longleftrightarrow> (dbg \<longrightarrow> c)"
  by (simp add: assertR_def)

text \<open>\<open>*p\<close>: the slot a pointer names.\<close>

definition deref :: "ptr \<Rightarrow> fault + nat" where
  "deref p = (case p of None \<Rightarrow> Inl NullDeref | Some i \<Rightarrow> Inr i)"

lemma deref_simps [simp, step_simps]: "deref None = Inl NullDeref" "deref (Some i) = Inr i"
  by (simp_all add: deref_def)

text \<open>Reading and writing element \<open>i\<close> of an array or a vector.\<close>

definition rd :: "'a list \<Rightarrow> nat \<Rightarrow> fault + 'a" where
  "rd xs i = (if i < length xs then Inr (xs ! i) else Inl OutOfBounds)"

definition wr :: "'a list \<Rightarrow> nat \<Rightarrow> ('a \<Rightarrow> 'a) \<Rightarrow> fault + 'a list" where
  "wr xs i f = (if i < length xs then Inr (xs[i := f (xs ! i)]) else Inl OutOfBounds)"

lemma rd_ok [simp, step_simps]: "i < length xs \<Longrightarrow> rd xs i = Inr (xs ! i)"
  by (simp add: rd_def)

lemma wr_ok [simp, step_simps]: "i < length xs \<Longrightarrow> wr xs i f = Inr (xs[i := f (xs ! i)])"
  by (simp add: wr_def)

lemma wr_eq_Inr: "wr xs i f = Inr ys \<longleftrightarrow> i < length xs \<and> ys = xs[i := f (xs ! i)]"
  by (auto simp: wr_def)

section \<open>Vectors\<close>

text \<open>\<open>std::vector::insert\<close> and \<open>erase\<close> at a position.\<close>

definition vec_insert :: "'a list \<Rightarrow> nat \<Rightarrow> 'a \<Rightarrow> 'a list" where
  "vec_insert xs i x = take i xs @ x # drop i xs"

definition vec_erase :: "'a list \<Rightarrow> nat \<Rightarrow> 'a list" where
  "vec_erase xs i = take i xs @ drop (Suc i) xs"

lemma length_vec_insert [simp]: "i \<le> length xs \<Longrightarrow> length (vec_insert xs i x) = Suc (length xs)"
  by (simp add: vec_insert_def)

lemma nth_vec_insert [simp]: "i \<le> length xs \<Longrightarrow> vec_insert xs i x ! i = x"
  by (simp add: vec_insert_def nth_append)

lemma vec_insert_split: "vec_insert (xs @ ys) (length xs) x = xs @ x # ys"
  by (simp add: vec_insert_def)

lemma vec_erase_split: "vec_erase (xs @ x # ys) (length xs) = xs @ ys"
  by (simp add: vec_erase_def)

text \<open>
  \<open>std::lower_bound\<close>: the standard's binary search for the first element that does not
  satisfy the comparison, over the positions \<open>[first, first + len)\<close>.
\<close>

function lower_bound_from :: "('a \<Rightarrow> bool) \<Rightarrow> 'a list \<Rightarrow> nat \<Rightarrow> nat \<Rightarrow> nat" where
  "lower_bound_from cmp xs first len =
     (if 0 < len
      then let half = len div 2; middle = first + half
           in if cmp (xs ! middle)
              then lower_bound_from cmp xs (Suc middle) (len - half - 1)
              else lower_bound_from cmp xs first half
      else first)"
  by pat_completeness auto
termination
  by (relation "measure (\<lambda>(cmp, xs, first, len). len)") auto

declare lower_bound_from.simps [simp del]

definition lower_bound :: "('a \<Rightarrow> bool) \<Rightarrow> 'a list \<Rightarrow> nat" where
  "lower_bound cmp xs = lower_bound_from cmp xs 0 (length xs)"

lemma lower_bound_from_le: "lower_bound_from cmp xs first len \<le> first + len"
proof (induction cmp xs first len rule: lower_bound_from.induct)
  case (1 cmp xs first len)
  then show ?case
    by (subst lower_bound_from.simps) (fastforce simp: Let_def intro: order_trans)
qed

lemma lower_bound_le: "lower_bound cmp xs \<le> length xs"
  using lower_bound_from_le [of cmp xs 0 "length xs"] by (simp add: lower_bound_def)

text \<open>On a range that the comparison partitions, the search finds the partition point.\<close>

lemma lower_bound_from_partition:
  assumes "\<And>i. i < k \<Longrightarrow> cmp (xs ! i)" and "\<And>i. k \<le> i \<Longrightarrow> i < length xs \<Longrightarrow> \<not> cmp (xs ! i)"
    and "first \<le> k" and "k \<le> first + len" and "first + len \<le> length xs"
  shows "lower_bound_from cmp xs first len = k"
  using assms
proof (induction cmp xs first len rule: lower_bound_from.induct)
  case (1 cmp xs first len)
  let ?half = "len div 2"
  show ?case
  proof (cases "0 < len")
    case False
    with "1.prems" show ?thesis by (simp add: lower_bound_from.simps [of cmp xs first 0])
  next
    case True
    then have half: "first + ?half < first + len" by simp
    show ?thesis
    proof (cases "cmp (xs ! (first + ?half))")
      case True
      then have "Suc (first + ?half) \<le> k" using "1.prems"(2) [of "first + ?half"] "1.prems"(5) half
        by (meson dual_order.strict_trans1 not_less_eq_eq)
      then have "lower_bound_from cmp xs (Suc (first + ?half)) (len - ?half - 1) = k"
        using "1.IH"(1) [OF \<open>0 < len\<close> refl refl True] "1.prems" half by auto
      with True \<open>0 < len\<close> show ?thesis by (simp add: lower_bound_from.simps [of cmp xs first len] Let_def)
    next
      case False
      then have "k \<le> first + ?half" using "1.prems"(1) by (meson not_le_imp_less)
      then have "lower_bound_from cmp xs first ?half = k"
        using "1.IH"(2) [OF \<open>0 < len\<close> refl refl False] "1.prems" half by auto
      with False \<open>0 < len\<close> show ?thesis by (simp add: lower_bound_from.simps [of cmp xs first len] Let_def)
    qed
  qed
qed

lemma lower_bound_partition:
  assumes "\<And>x. x \<in> set xs \<Longrightarrow> cmp x" and "\<And>y. y \<in> set ys \<Longrightarrow> \<not> cmp y"
  shows "lower_bound cmp (xs @ ys) = length xs"
  unfolding lower_bound_def
  by (rule lower_bound_from_partition) (auto simp: nth_append assms)

section \<open>Lists\<close>

lemma list_all2_nthI:
  "length xs = length ys \<Longrightarrow> (\<And>i. i < length xs \<Longrightarrow> P (xs ! i) (ys ! i)) \<Longrightarrow> list_all2 P xs ys"
  by (simp add: list_all2_conv_all_nth)

lemma take_Suc_last: "0 < n \<Longrightarrow> n \<le> length xs \<Longrightarrow> take n xs = take (n - 1) xs @ [xs ! (n - 1)]"
  by (cases n) (simp_all add: take_Suc_conv_app_nth)

lemma distinct_concat_append:
  "distinct (concat (xss @ [xs])) \<longleftrightarrow>
     distinct (concat xss) \<and> distinct xs \<and> set (concat xss) \<inter> set xs = {}"
  by auto

lemma distinct_concat_rev [simp]: "distinct (concat (rev xss)) \<longleftrightarrow> distinct (concat xss)"
  by (induction xss) auto

lemma filter_not_in: "k \<notin> f ` set xs \<Longrightarrow> filter (\<lambda>x. f x \<noteq> k) xs = xs"
  by (induction xs) auto

section \<open>Words\<close>

lemma unat_pred: "x \<noteq> 0 \<Longrightarrow> unat (x - 1 :: 'a::len word) = unat x - 1"
  by (metis unat_minus_one)

lemma unat_succ_le: "unat (x :: 'a::len word) < n \<Longrightarrow> n < 2 ^ LENGTH('a) \<Longrightarrow> unat (x + 1) = Suc (unat x)"
  by (simp add: unat_word_ariths)

lemma unat_Suc_word: "(x :: 'a::len word) + 1 \<noteq> 0 \<Longrightarrow> unat (x + 1) = Suc (unat x)"
  using unatSuc [of x] by (simp add: add.commute)

lemma unat_diff_min [simp]:
  fixes a b :: "'a::len word"
  shows "unat (a - min a b) = unat a - unat (min a b)"
  by (simp add: unat_sub)

text \<open>A sum of 32-bit words wraps around as one.\<close>

lemma unat_sum_list:
  fixes f :: "'a \<Rightarrow> u32"
  shows "unat (sum_list (map f xs)) = sum_list (map (\<lambda>x. unat (f x)) xs) mod 2 ^ 32"
  by (induction xs) (simp_all add: unat_word_ariths mod_add_right_eq)

end
