(* ===== verification/CoreTypes.thy ===== *)
theory CoreTypes
  imports Prelude
begin

text \<open>
  The data of the matching core (\<open>include/types.h\<close>, \<open>include/order.h\<close> and the struct of
  \<open>include/price_level.h\<close>). Fields carry the struct's initials as a prefix, since two structs
  of the code share field names. Pointers are slots of the order pool.
\<close>

datatype Side = Buy | Sell

record Trade =
  t_buyOrderId :: u64
  t_sellOrderId :: u64
  t_price :: u32
  t_quantity :: u32

record Order =
  o_orderId :: u64
  o_price :: u32
  o_quantity :: u32
  o_sequence :: u64
  o_participantId :: u64
  o_side :: Side
  o_next :: ptr
  o_prev :: ptr

text \<open>The value a fresh element of \<open>std::make_unique<Order[]>\<close> has: every member zero.\<close>

definition order_zero :: Order where
  "order_zero = \<lparr>o_orderId = 0, o_price = 0, o_quantity = 0, o_sequence = 0,
     o_participantId = 0, o_side = Buy, o_next = None, o_prev = None\<rparr>"

text \<open>\<open>Order::init\<close>: every field but the links.\<close>

definition Order_init :: "Order \<Rightarrow> u64 \<Rightarrow> u32 \<Rightarrow> u32 \<Rightarrow> u64 \<Rightarrow> Side \<Rightarrow> u64 \<Rightarrow> Order" where
  "Order_init this i p qty seq s partiId =
     this\<lparr>o_orderId := i, o_price := p, o_quantity := qty, o_sequence := seq,
          o_side := s, o_participantId := partiId\<rparr>"

record PriceLevel =
  pl_price :: u32
  pl_totalQuantity :: u32
  pl_head :: ptr
  pl_tail :: ptr

text \<open>\<open>PriceLevel(price)\<close>: aggregate initialisation zeroes the members that are not given.\<close>

definition PriceLevel_new :: "u32 \<Rightarrow> PriceLevel" where
  "PriceLevel_new p = \<lparr>pl_price = p, pl_totalQuantity = 0, pl_head = None, pl_tail = None\<rparr>"

section \<open>Payloads\<close>

text \<open>
  What an order says apart from its place in memory: the order with its links cleared. The
  abstract book is made of payloads.
\<close>

definition payload :: "Order \<Rightarrow> Order" where
  "payload x = x\<lparr>o_next := None, o_prev := None\<rparr>"

lemma payload_fields [simp]:
  "o_orderId (payload x) = o_orderId x" "o_price (payload x) = o_price x"
  "o_quantity (payload x) = o_quantity x" "o_sequence (payload x) = o_sequence x"
  "o_participantId (payload x) = o_participantId x" "o_side (payload x) = o_side x"
  by (simp_all add: payload_def)

lemma payload_links [simp]:
  "payload (x\<lparr>o_next := n\<rparr>) = payload x" "payload (x\<lparr>o_prev := p\<rparr>) = payload x"
  by (simp_all add: payload_def)

lemma payload_quantity: "payload (x\<lparr>o_quantity := q\<rparr>) = (payload x)\<lparr>o_quantity := q\<rparr>"
  by (simp add: payload_def)

lemma payload_eqD:
  assumes "payload x = payload y"
  shows "o_orderId x = o_orderId y" "o_price x = o_price y" "o_quantity x = o_quantity y"
    "o_sequence x = o_sequence y" "o_participantId x = o_participantId y" "o_side x = o_side y"
  using arg_cong [OF assms, of o_orderId] arg_cong [OF assms, of o_price]
    arg_cong [OF assms, of o_quantity] arg_cong [OF assms, of o_sequence]
    arg_cong [OF assms, of o_participantId] arg_cong [OF assms, of o_side]
  by simp_all

end
