(* ===== verification/SlotLists.thy ===== *)
theory SlotLists
  imports CoreTypes
begin

text \<open>
  Linked lists of orders inside the slot array: the singly linked chain of the free list and the
  doubly linked segment of a price level, as predicates that relate a pointer structure to the
  HOL list of its slots. The frame lemmas say that a write to a slot outside a list leaves it
  alone; the splitting lemma opens a segment at any position.
\<close>

section \<open>Singly linked chains\<close>

fun sll :: "Order list \<Rightarrow> ptr \<Rightarrow> nat list \<Rightarrow> bool" where
  "sll h p [] = (p = None)"
| "sll h p (x # xs) = (p = Some x \<and> x < length h \<and> sll h (o_next (h ! x)) xs)"

text \<open>The slots met by following \<open>next\<close> from a pointer, at most \<open>n\<close> of them.\<close>

fun chain :: "Order list \<Rightarrow> nat \<Rightarrow> ptr \<Rightarrow> nat list" where
  "chain h 0 p = []"
| "chain h (Suc n) None = []"
| "chain h (Suc n) (Some i) = (if i < length h then i # chain h n (o_next (h ! i)) else [])"

lemma sll_None [simp]: "sll h None xs \<longleftrightarrow> xs = []"
  by (cases xs) auto

lemma sll_Some: "sll h (Some i) xs \<longleftrightarrow> (\<exists>ys. xs = i # ys \<and> i < length h \<and> sll h (o_next (h ! i)) ys)"
  by (cases xs) auto

lemma sll_bound: "sll h p xs \<Longrightarrow> i \<in> set xs \<Longrightarrow> i < length h"
  by (induction xs arbitrary: p) auto

lemma sll_cong:
  assumes "\<And>i. i \<in> set xs \<Longrightarrow> o_next (h' ! i) = o_next (h ! i)" and "length h' = length h"
  shows "sll h' p xs = sll h p xs"
  using assms(1) by (induction xs arbitrary: p) (auto simp: assms(2))

lemma in_set_ne: "i \<notin> set xs \<Longrightarrow> j \<in> set xs \<Longrightarrow> i \<noteq> j"
  by auto

lemma sll_frame [simp, frame]: "i \<notin> set xs \<Longrightarrow> sll (h[i := v]) p xs = sll h p xs"
  by (rule sll_cong) (auto simp: nth_list_update_neq dest: in_set_ne)

lemma chain_sll: "sll h p xs \<Longrightarrow> length xs \<le> n \<Longrightarrow> chain h n p = xs"
proof (induction xs arbitrary: p n)
  case Nil
  then show ?case by (cases n) auto
next
  case (Cons x xs)
  then show ?case by (cases n) auto
qed

lemma distinct_bounded_length:
  assumes "distinct xs" and "\<And>i. i \<in> set xs \<Longrightarrow> i < n"
  shows "length xs \<le> n"
proof -
  have "card (set xs) \<le> card {..<n}"
    using assms(2) by (intro card_mono) auto
  with distinct_card [OF assms(1)] show ?thesis by simp
qed

lemma chain_sll_distinct:
  assumes "sll h p xs" and "distinct xs"
  shows "chain h (length h) p = xs"
  using assms by (intro chain_sll distinct_bounded_length) (auto dest: sll_bound)

section \<open>Doubly linked segments\<close>

text \<open>
  \<open>dll h p a xs l n\<close>: the slots \<open>xs\<close> in this order, entered through the pointer \<open>a\<close>, the first
  one's \<open>prev\<close> being \<open>p\<close>; the last one's \<open>next\<close> is \<open>n\<close>, and \<open>l\<close> points to it.
\<close>

fun dll :: "Order list \<Rightarrow> ptr \<Rightarrow> ptr \<Rightarrow> nat list \<Rightarrow> ptr \<Rightarrow> ptr \<Rightarrow> bool" where
  "dll h p a [] l n = (a = n \<and> l = p)"
| "dll h p a (x # xs) l n =
     (a = Some x \<and> x < length h \<and> o_prev (h ! x) = p \<and> dll h (Some x) (o_next (h ! x)) xs l n)"

lemma dll_bound: "dll h p a xs l n \<Longrightarrow> i \<in> set xs \<Longrightarrow> i < length h"
  by (induction xs arbitrary: p a) auto

lemma dll_append:
  "dll h p a (xs @ ys) l n \<longleftrightarrow> (\<exists>m k. dll h p a xs m k \<and> dll h m k ys l n)"
  by (induction xs arbitrary: p a) auto

lemma dll_snoc:
  "dll h p a (xs @ [x]) l n \<longleftrightarrow>
     dll h p a xs (o_prev (h ! x)) (Some x) \<and> x < length h \<and> o_next (h ! x) = n \<and> l = Some x"
  by (auto simp: dll_append)

lemma dll_last: "dll h p a xs l n \<Longrightarrow> xs \<noteq> [] \<Longrightarrow> l = Some (last xs)"
  by (cases xs rule: rev_cases) (auto simp: dll_append)

lemma dll_head: "dll h p a xs l n \<Longrightarrow> xs \<noteq> [] \<Longrightarrow> a = Some (hd xs)"
  by (cases xs) auto

lemma dll_cong:
  assumes "\<And>i. i \<in> set xs \<Longrightarrow> o_next (h' ! i) = o_next (h ! i) \<and> o_prev (h' ! i) = o_prev (h ! i)"
    and "length h' = length h"
  shows "dll h' p a xs l n = dll h p a xs l n"
  using assms(1) by (induction xs arbitrary: p a) (auto simp: assms(2))

lemma dll_frame [simp, frame]: "i \<notin> set xs \<Longrightarrow> dll (h[i := v]) p a xs l n = dll h p a xs l n"
  by (rule dll_cong) (auto simp: nth_list_update_neq dest: in_set_ne)

lemma dll_sll: "dll h p a xs l None \<Longrightarrow> sll h a xs"
  by (induction xs arbitrary: p a) auto

text \<open>Redirecting the last \<open>next\<close> and the first \<open>prev\<close> of a segment.\<close>

lemma dll_set_next:
  "dll h p a (xs @ [x]) l n \<Longrightarrow> x \<notin> set xs \<Longrightarrow>
     dll (h[x := (h ! x)\<lparr>o_next := m\<rparr>]) p a (xs @ [x]) l m"
  by (auto simp: dll_append)

lemma dll_set_prev:
  "dll h p a (x # xs) l n \<Longrightarrow> x \<notin> set xs \<Longrightarrow>
     dll (h[x := (h ! x)\<lparr>o_prev := q\<rparr>]) q a (x # xs) l n"
  by auto

lemma chain_dll:
  assumes "dll h p a xs l None" and "distinct xs"
  shows "chain h (length h) a = xs"
  by (rule chain_sll_distinct [OF dll_sll [OF assms(1)] assms(2)])

end
