(* ===== verification/OrderPool.thy ===== *)
theory OrderPool
  imports SlotLists
begin

text \<open>
  The fixed-size pool of orders (\<open>include/order_pool.h\<close>, \<open>src/order_pool.cpp\<close>). A slot is the
  index of an element of \<open>orders_\<close>, so the pointer differences of the code are the indices
  themselves. \<open>size_t\<close> is 64 bits wide.
\<close>

section \<open>State and operations\<close>

record OrderPool =
  op_capacity :: u64
  op_orders :: "Order list"
  op_freeList :: ptr
  op_freeCount :: u64
  op_isAllocated :: "u8 list"

text \<open>The constructor's loop \<open>for (i = 0; i < bound; ++i) orders_[i].next = &orders_[i + 1]\<close>.\<close>

function link_from :: "nat \<Rightarrow> nat \<Rightarrow> Order list \<Rightarrow> fault + Order list" where
  "link_from bound i os =
     (if i < bound
      then bindR (wr os i (\<lambda>x. x\<lparr>o_next := Some (Suc i)\<rparr>)) (\<lambda>os'. link_from bound (Suc i) os')
      else Inr os)"
  by pat_completeness auto
termination
  by (relation "measure (\<lambda>(bound, i, os). bound - i)") auto

declare link_from.simps [simp del]

text \<open>
  The bound \<open>capacity_ - 1\<close> is computed in \<open>size_t\<close>: for capacity 0 it is \<open>2 ^ 64 - 1\<close>, and the
  first write is already outside the array.
\<close>

definition OrderPool_new :: "u64 \<Rightarrow> fault + OrderPool" where
  "OrderPool_new capacity =
     (let os = replicate (unat capacity) order_zero in
      bindR (link_from (unat (capacity - 1)) 0 os) (\<lambda>os.
      bindR (wr os (unat (capacity - 1)) (\<lambda>x. x\<lparr>o_next := None\<rparr>)) (\<lambda>os.
      Inr \<lparr>op_capacity = capacity, op_orders = os, op_freeList = Some 0,
           op_freeCount = capacity, op_isAllocated = replicate (unat capacity) 0\<rparr>)))"

definition allocate :: "bool \<Rightarrow> OrderPool \<Rightarrow> fault + nat \<times> OrderPool" where
  "allocate dbg p =
     bindR (assertR dbg ''freeList_ != nullptr'' (op_freeList p \<noteq> None)) (\<lambda>_.
     bindR (assertR dbg ''freeCount_ > 0'' (0 < op_freeCount p)) (\<lambda>_.
     bindR (deref (op_freeList p)) (\<lambda>idx.
     bindR (rd (op_orders p) idx) (\<lambda>x.
     bindR (wr (op_orders p) idx (\<lambda>x. x\<lparr>o_next := None, o_prev := None\<rparr>)) (\<lambda>os.
     bindR (assertR dbg ''idx < capacity_'' (idx < unat (op_capacity p))) (\<lambda>_.
     bindR (wr (op_isAllocated p) idx (\<lambda>_. 1)) (\<lambda>flags.
     Inr (idx, p\<lparr>op_freeList := o_next x, op_freeCount := op_freeCount p - 1,
                 op_orders := os, op_isAllocated := flags\<rparr>))))))))"

definition deallocate :: "bool \<Rightarrow> ptr \<Rightarrow> OrderPool \<Rightarrow> fault + OrderPool" where
  "deallocate dbg q p =
     bindR (assertR dbg ''order != nullptr'' (q \<noteq> None)) (\<lambda>_.
     bindR (assertR dbg ''freeCount_ < capacity_'' (op_freeCount p < op_capacity p)) (\<lambda>_.
     bindR (deref q) (\<lambda>idx.
     bindR (assertR dbg ''idx < capacity_'' (idx < unat (op_capacity p))) (\<lambda>_.
     bindR (rd (op_isAllocated p) idx) (\<lambda>flag.
     bindR (assertR dbg ''isAllocated_[idx] == 1'' (flag = 1)) (\<lambda>_.
     bindR (wr (op_isAllocated p) idx (\<lambda>_. 0)) (\<lambda>flags.
     bindR (wr (op_orders p) idx (\<lambda>x. x\<lparr>o_next := op_freeList p\<rparr>)) (\<lambda>os.
     Inr (p\<lparr>op_isAllocated := flags, op_orders := os, op_freeList := q,
            op_freeCount := op_freeCount p + 1\<rparr>)))))))))"

definition pool_capacity :: "OrderPool \<Rightarrow> u64" where
  "pool_capacity p = op_capacity p"

definition pool_freeCount :: "OrderPool \<Rightarrow> u64" where
  "pool_freeCount p = op_freeCount p"

section \<open>The invariant\<close>

text \<open>
  \<open>fr\<close> lists the free slots from the head of the free list. A slot is flagged as allocated
  exactly when it is not in \<open>fr\<close>.
\<close>

definition pool_rep :: "OrderPool \<Rightarrow> nat list \<Rightarrow> bool" where
  "pool_rep p fr \<longleftrightarrow>
     length (op_orders p) = unat (op_capacity p) \<and>
     length (op_isAllocated p) = unat (op_capacity p) \<and>
     sll (op_orders p) (op_freeList p) fr \<and> distinct fr \<and>
     unat (op_freeCount p) = length fr \<and>
     (\<forall>i < length (op_orders p). op_isAllocated p ! i = (if i \<in> set fr then 0 else 1))"

definition free_slots :: "OrderPool \<Rightarrow> nat list" where
  "free_slots p = chain (op_orders p) (length (op_orders p)) (op_freeList p)"

definition pool_inv :: "OrderPool \<Rightarrow> bool" where
  "pool_inv p \<longleftrightarrow> pool_rep p (free_slots p)"

definition pool_slots :: "OrderPool \<Rightarrow> nat set" where
  "pool_slots p = {..<length (op_orders p)}"

lemma pool_rep_free_slots: "pool_rep p fr \<Longrightarrow> free_slots p = fr"
  unfolding free_slots_def by (rule chain_sll_distinct) (simp_all add: pool_rep_def)

lemma pool_rep_inv: "pool_rep p fr \<Longrightarrow> pool_inv p"
  by (simp add: pool_inv_def pool_rep_free_slots)

lemma pool_rep_bound: "pool_rep p fr \<Longrightarrow> i \<in> set fr \<Longrightarrow> i < length (op_orders p)"
  by (auto simp: pool_rep_def dest: sll_bound)

lemma pool_rep_distinct: "pool_rep p fr \<Longrightarrow> distinct fr"
  by (simp add: pool_rep_def)

text \<open>Writes to slots that are not free keep the pool's representation.\<close>

lemma pool_rep_write:
  assumes "pool_rep p fr" and "length os = length (op_orders p)"
    and "\<And>i. i \<in> set fr \<Longrightarrow> o_next (os ! i) = o_next (op_orders p ! i)"
  shows "pool_rep (p\<lparr>op_orders := os\<rparr>) fr"
  using assms sll_cong [of fr os "op_orders p" "op_freeList p"]
  by (auto simp: pool_rep_def)

section \<open>What the operations do\<close>

lemma link_from_run:
  assumes "bound < length os" and "i \<le> bound"
  shows "link_from bound i os =
    Inr (map (\<lambda>j. if i \<le> j \<and> j < bound then (os ! j)\<lparr>o_next := Some (Suc j)\<rparr> else os ! j) [0..<length os])"
  using assms
proof (induction bound i os rule: link_from.induct)
  case (1 bound i os)
  show ?case
  proof (cases "i < bound")
    case False
    with "1.prems" have "i = bound" by simp
    then have "map (\<lambda>j. if i \<le> j \<and> j < bound then (os ! j)\<lparr>o_next := Some (Suc j)\<rparr> else os ! j) [0..<length os] = os"
      by (intro nth_equalityI) auto
    with False show ?thesis by (simp add: link_from.simps [of bound i os])
  next
    case True
    let ?os = "os[i := (os ! i)\<lparr>o_next := Some (Suc i)\<rparr>]"
    have w: "wr os i (\<lambda>x. x\<lparr>o_next := Some (Suc i)\<rparr>) = Inr ?os"
      using True "1.prems" by simp
    have "link_from bound i os = link_from bound (Suc i) ?os"
      using True w by (simp add: link_from.simps [of bound i os])
    also have "\<dots> = Inr (map (\<lambda>j. if Suc i \<le> j \<and> j < bound then (?os ! j)\<lparr>o_next := Some (Suc j)\<rparr> else ?os ! j)
        [0..<length ?os])"
      using "1.IH" [OF True] True "1.prems" by simp
    also have "\<dots> = Inr (map (\<lambda>j. if i \<le> j \<and> j < bound then (os ! j)\<lparr>o_next := Some (Suc j)\<rparr> else os ! j)
        [0..<length os])"
      using True "1.prems" by (auto simp: nth_list_update)
    finally show ?thesis .
  qed
qed

lemma sll_upt:
  assumes "\<And>j. i \<le> j \<Longrightarrow> j < n \<Longrightarrow> o_next (h ! j) = (if Suc j = n then None else Some (Suc j))"
    and "i < n" and "n \<le> length h"
  shows "sll h (Some i) [i..<n]"
  using assms
proof (induction "n - i" arbitrary: i)
  case 0
  then show ?case by simp
next
  case (Suc k)
  show ?case
  proof (cases "Suc i = n")
    case True
    with Suc.prems show ?thesis by (auto simp: upt_rec [of i])
  next
    case False
    with Suc.prems have "sll h (Some (Suc i)) [Suc i..<n]"
      by (intro Suc.hyps(1)) (use Suc.hyps(2) in auto)
    with False Suc.prems show ?thesis by (simp add: upt_rec [of i])
  qed
qed

lemma OrderPool_new_ok:
  assumes "capacity \<noteq> 0"
  obtains p where "OrderPool_new capacity = Inr p" and "pool_rep p [0..<unat capacity]"
    and "op_capacity p = capacity" and "length (op_orders p) = unat capacity"
proof -
  let ?n = "unat capacity"
  let ?os = "replicate ?n order_zero"
  let ?f = "\<lambda>j. if j < ?n - 1 then (?os ! j)\<lparr>o_next := Some (Suc j)\<rparr> else ?os ! j"
  let ?os1 = "map ?f [0..<?n]"
  let ?os2 = "?os1[?n - 1 := (?os1 ! (?n - 1))\<lparr>o_next := None\<rparr>]"
  let ?p = "\<lparr>op_capacity = capacity, op_orders = ?os2, op_freeList = Some 0,
    op_freeCount = capacity, op_isAllocated = replicate ?n 0\<rparr>"
  have n: "0 < ?n" using assms by (simp add: unat_gt_0)
  have pred: "unat (capacity - 1) = ?n - 1" using assms by (rule unat_pred)
  have link: "link_from (?n - Suc 0) 0 ?os = Inr ?os1"
    using n link_from_run [of "?n - 1" ?os 0] by simp
  have run: "OrderPool_new capacity = Inr ?p"
    using n by (simp add: OrderPool_new_def pred link)
  have "sll ?os2 (Some 0) [0..<?n]"
    using n by (intro sll_upt) (auto simp: nth_list_update order_zero_def)
  then have "pool_rep ?p [0..<?n]"
    by (simp add: pool_rep_def)
  with run show thesis by (rule that) simp_all
qed

lemma OrderPool_new_zero: "OrderPool_new 0 = Inl OutOfBounds"
  by (simp add: OrderPool_new_def link_from.simps [of _ 0] wr_def)

text \<open>The pool after slot \<open>i\<close>, the head of the free list, is taken; and after slot \<open>i\<close> is given back.\<close>

definition pool_taken :: "OrderPool \<Rightarrow> nat \<Rightarrow> OrderPool" where
  "pool_taken p i = p\<lparr>op_freeList := o_next (op_orders p ! i), op_freeCount := op_freeCount p - 1,
     op_orders := (op_orders p)[i := payload (op_orders p ! i)],
     op_isAllocated := (op_isAllocated p)[i := 1]\<rparr>"

definition pool_given :: "OrderPool \<Rightarrow> nat \<Rightarrow> OrderPool" where
  "pool_given p i = p\<lparr>op_isAllocated := (op_isAllocated p)[i := 0],
     op_orders := (op_orders p)[i := (op_orders p ! i)\<lparr>o_next := op_freeList p\<rparr>],
     op_freeList := Some i, op_freeCount := op_freeCount p + 1\<rparr>"

lemma pool_taken_fields [simp]:
  "op_orders (pool_taken p i) = (op_orders p)[i := payload (op_orders p ! i)]"
  "op_capacity (pool_taken p i) = op_capacity p"
  by (simp_all add: pool_taken_def)

lemma pool_given_fields [simp]:
  "op_orders (pool_given p i) = (op_orders p)[i := (op_orders p ! i)\<lparr>o_next := op_freeList p\<rparr>]"
  "op_capacity (pool_given p i) = op_capacity p"
  by (simp_all add: pool_given_def)

lemma allocate_run:
  assumes "pool_rep p (i # fr)"
  shows "allocate dbg p = Inr (i, pool_taken p i)"
proof -
  from assms have i: "i < length (op_orders p)" "op_freeList p = Some i"
    and len: "length (op_orders p) = unat (op_capacity p)" "length (op_isAllocated p) = unat (op_capacity p)"
    and cnt: "unat (op_freeCount p) = Suc (length fr)"
    by (auto simp: pool_rep_def)
  from cnt have "0 < op_freeCount p" by (auto simp: word_gt_0)
  with i len show ?thesis
    by (simp add: allocate_def payload_def pool_taken_def)
qed

lemma allocate_rep:
  assumes "pool_rep p (i # fr)"
  shows "pool_rep (pool_taken p i) fr"
proof -
  from assms have cnt: "unat (op_freeCount p) = Suc (length fr)" by (simp add: pool_rep_def)
  then have "op_freeCount p \<noteq> 0" by auto
  from unat_pred [OF this] assms cnt show ?thesis
    by (auto simp: pool_rep_def pool_taken_def nth_list_update)
qed

lemma allocate_exhausted:
  assumes "pool_rep p []"
  shows "allocate True p = Inl (AssertFailed ''freeList_ != nullptr'')"
    and "allocate False p = Inl NullDeref"
  using assms by (simp_all add: pool_rep_def allocate_def step_simps)

lemma deallocate_facts:
  assumes "pool_rep p fr" and "i < length (op_orders p)" and "i \<notin> set fr"
  shows "op_freeCount p < op_capacity p" and "unat (op_freeCount p + 1) = Suc (length fr)"
proof -
  have "distinct (i # fr)" and "\<And>j. j \<in> set (i # fr) \<Longrightarrow> j < length (op_orders p)"
    using assms by (auto simp: pool_rep_def dest: sll_bound)
  then have less: "length fr < unat (op_capacity p)"
    using distinct_bounded_length [of "i # fr" "length (op_orders p)"] assms(1)
    by (auto simp: pool_rep_def)
  with assms(1) show "op_freeCount p < op_capacity p"
    by (simp add: word_less_nat_alt pool_rep_def)
  have cnt: "unat (op_freeCount p) = length fr" using assms(1) by (simp add: pool_rep_def)
  have "unat (op_capacity p) < 2 ^ 64" using unsigned_less [of "op_capacity p"] by simp
  with less have "unat (op_freeCount p) + 1 < 2 ^ 64" by (simp add: cnt)
  then show "unat (op_freeCount p + 1) = Suc (length fr)"
    by (simp add: cnt unat_word_ariths)
qed

lemma deallocate_run:
  assumes "pool_rep p fr" and "i < length (op_orders p)" and "i \<notin> set fr"
  shows "deallocate dbg (Some i) p = Inr (pool_given p i)"
  using assms deallocate_facts(1) [OF assms]
  by (simp add: deallocate_def pool_rep_def pool_given_def)

lemma deallocate_rep:
  assumes "pool_rep p fr" and "i < length (op_orders p)" and "i \<notin> set fr"
  shows "pool_rep (pool_given p i) (i # fr)"
  using assms deallocate_facts(2) [OF assms]
  by (auto simp: pool_rep_def pool_given_def nth_list_update)

lemma deallocate_twice:
  assumes "pool_rep p fr" and "i \<in> set fr" and "length fr < length (op_orders p)"
  shows "deallocate True (Some i) p = Inl (AssertFailed ''isAllocated_[idx] == 1'')"
proof -
  from assms have i: "i < length (op_orders p)" by (simp add: pool_rep_bound)
  with assms have "op_isAllocated p ! i = 0" "op_freeCount p < op_capacity p"
    by (auto simp: pool_rep_def word_less_nat_alt)
  with i assms show ?thesis
    by (simp add: deallocate_def pool_rep_def assertR_fails)
qed

end
