(* ===== verification/PriceLevels.thy ===== *)
theory PriceLevels
  imports SlotLists
begin

text \<open>
  The FIFO queue of one price (\<open>include/price_level.h\<close>, \<open>src/price_level.cpp\<close>): an intrusive
  doubly linked list through the orders of the pool. Every operation takes the slot array and
  returns it updated, since the links live in the orders.
\<close>

section \<open>Operations\<close>

definition isEmpty :: "PriceLevel \<Rightarrow> bool" where
  "isEmpty pl \<longleftrightarrow> pl_head pl = None"

definition front :: "PriceLevel \<Rightarrow> ptr" where
  "front pl = pl_head pl"

definition addToTail :: "Order list \<Rightarrow> PriceLevel \<Rightarrow> nat \<Rightarrow> fault + Order list \<times> PriceLevel" where
  "addToTail h pl i =
     bindR (wr h i (\<lambda>x. x\<lparr>o_next := None\<rparr>)) (\<lambda>h.
     bindR (wr h i (\<lambda>x. x\<lparr>o_prev := pl_tail pl\<rparr>)) (\<lambda>h.
     bindR (if isEmpty pl then Inr (h, pl\<lparr>pl_head := Some i, pl_tail := Some i\<rparr>)
            else bindR (deref (pl_tail pl)) (\<lambda>t.
                 bindR (wr h t (\<lambda>x. x\<lparr>o_next := Some i\<rparr>)) (\<lambda>h.
                 Inr (h, pl\<lparr>pl_tail := Some i\<rparr>)))) (\<lambda>(h, pl).
     bindR (rd h i) (\<lambda>x.
     Inr (h, pl\<lparr>pl_totalQuantity := pl_totalQuantity pl + o_quantity x\<rparr>)))))"

definition remove :: "Order list \<Rightarrow> PriceLevel \<Rightarrow> nat \<Rightarrow> fault + Order list \<times> PriceLevel" where
  "remove h pl i =
     bindR (rd h i) (\<lambda>x.
     bindR (case o_prev x of
              Some p \<Rightarrow> bindR (wr h p (\<lambda>y. y\<lparr>o_next := o_next x\<rparr>)) (\<lambda>h. Inr (h, pl))
            | None \<Rightarrow> Inr (h, pl\<lparr>pl_head := o_next x\<rparr>)) (\<lambda>(h, pl).
     bindR (rd h i) (\<lambda>x.
     bindR (case o_next x of
              Some n \<Rightarrow> bindR (wr h n (\<lambda>y. y\<lparr>o_prev := o_prev x\<rparr>)) (\<lambda>h. Inr (h, pl))
            | None \<Rightarrow> Inr (h, pl\<lparr>pl_tail := o_prev x\<rparr>)) (\<lambda>(h, pl).
     bindR (rd h i) (\<lambda>x.
     bindR (wr h i (\<lambda>x. x\<lparr>o_next := None\<rparr>)) (\<lambda>h.
     bindR (wr h i (\<lambda>x. x\<lparr>o_prev := None\<rparr>)) (\<lambda>h.
     Inr (h, pl\<lparr>pl_totalQuantity := pl_totalQuantity pl - o_quantity x\<rparr>))))))))"

section \<open>Representation\<close>

text \<open>
  \<open>xs\<close> are the slots of the level from head to tail. The links of the level say so, and the
  cached total is the sum of the quantities, in 32-bit arithmetic as the code computes it.
\<close>

definition level_links :: "Order list \<Rightarrow> PriceLevel \<Rightarrow> nat list \<Rightarrow> bool" where
  "level_links h pl xs \<longleftrightarrow> distinct xs \<and> dll h None (pl_head pl) xs (pl_tail pl) None"

definition level_total :: "Order list \<Rightarrow> PriceLevel \<Rightarrow> nat list \<Rightarrow> bool" where
  "level_total h pl xs \<longleftrightarrow> pl_totalQuantity pl = sum_list (map (\<lambda>i. o_quantity (h ! i)) xs)"

definition level_slots :: "Order list \<Rightarrow> PriceLevel \<Rightarrow> nat list" where
  "level_slots h pl = chain h (length h) (pl_head pl)"

text \<open>Two slot arrays that agree on what the orders say, and that agree entirely outside \<open>A\<close>.\<close>

definition same_payloads :: "Order list \<Rightarrow> Order list \<Rightarrow> bool" where
  "same_payloads h' h \<longleftrightarrow> length h' = length h \<and> (\<forall>j < length h. payload (h' ! j) = payload (h ! j))"

definition same_outside :: "nat set \<Rightarrow> Order list \<Rightarrow> Order list \<Rightarrow> bool" where
  "same_outside A h' h \<longleftrightarrow> length h' = length h \<and> (\<forall>j. j \<notin> A \<longrightarrow> h' ! j = h ! j)"

lemma same_outsideD: "same_outside A h' h \<Longrightarrow> j \<notin> A \<Longrightarrow> h' ! j = h ! j"
  by (simp add: same_outside_def)

lemma same_outside_mono: "same_outside A h' h \<Longrightarrow> A \<subseteq> B \<Longrightarrow> same_outside B h' h"
  by (auto simp: same_outside_def)

lemma same_payloadsD: "same_payloads h' h \<Longrightarrow> j < length h \<Longrightarrow> payload (h' ! j) = payload (h ! j)"
  by (simp add: same_payloads_def)

lemma dll_outside:
  "same_outside A h' h \<Longrightarrow> A \<inter> set xs = {} \<Longrightarrow> dll h' p a xs l n = dll h p a xs l n"
  by (rule dll_cong) (auto simp: same_outside_def disjoint_iff)

lemma level_links_outside:
  "same_outside A h' h \<Longrightarrow> A \<inter> set xs = {} \<Longrightarrow> level_links h' pl xs = level_links h pl xs"
  by (simp add: level_links_def dll_outside)

lemma level_links_slots: "level_links h pl xs \<Longrightarrow> level_slots h pl = xs"
  unfolding level_slots_def level_links_def by (blast intro: chain_dll)

lemma level_links_bound: "level_links h pl xs \<Longrightarrow> i \<in> set xs \<Longrightarrow> i < length h"
  by (auto simp: level_links_def dest: dll_bound)

lemma level_links_head:
  "level_links h pl xs \<Longrightarrow> pl_head pl = (case xs of [] \<Rightarrow> None | i # _ \<Rightarrow> Some i)"
  by (cases xs) (auto simp: level_links_def)

lemma isEmpty_links: "level_links h pl xs \<Longrightarrow> isEmpty pl \<longleftrightarrow> xs = []"
  by (auto simp: isEmpty_def level_links_head split: list.splits)

lemma level_links_cong:
  assumes "\<And>i. i \<in> set xs \<Longrightarrow> h' ! i = h ! i" and "length h' = length h"
  shows "level_links h' pl xs = level_links h pl xs"
  using dll_cong [of xs h' h None "pl_head pl" "pl_tail pl" None] assms
  by (simp add: level_links_def)

lemma level_total_cong:
  "(\<And>i. i \<in> set xs \<Longrightarrow> o_quantity (h' ! i) = o_quantity (h ! i)) \<Longrightarrow>
     level_total h' pl xs = level_total h pl xs"
  by (simp add: level_total_def cong: map_cong)

lemma level_total_outside:
  "same_outside A h' h \<Longrightarrow> A \<inter> set xs = {} \<Longrightarrow> level_total h' pl xs = level_total h pl xs"
  by (rule level_total_cong) (auto simp: same_outside_def disjoint_iff)

section \<open>What the operations do\<close>

text \<open>Adding at the tail: the queue grows by one at its end, and nothing else changes.\<close>

lemma addToTail_run:
  assumes links: "level_links h pl xs" and i: "i < length h" "i \<notin> set xs"
  obtains h' pl' where "addToTail h pl i = Inr (h', pl')" and "level_links h' pl' (xs @ [i])"
    and "same_payloads h' h" and "same_outside (insert i (set xs)) h' h"
    and "pl_price pl' = pl_price pl"
    and "pl_totalQuantity pl' = pl_totalQuantity pl + o_quantity (h ! i)"
proof (cases xs rule: rev_cases)
  case Nil
  with links have e: "pl_head pl = None" "pl_tail pl = None" by (auto simp: level_links_def)
  let ?h = "h[i := (h ! i)\<lparr>o_next := None, o_prev := None\<rparr>]"
  let ?pl = "pl\<lparr>pl_head := Some i, pl_tail := Some i,
    pl_totalQuantity := pl_totalQuantity pl + o_quantity (h ! i)\<rparr>"
  show thesis
  proof (rule that)
    show "addToTail h pl i = Inr (?h, ?pl)"
      using i e by (simp add: addToTail_def isEmpty_def)
    show "level_links ?h ?pl (xs @ [i])"
      using i Nil by (simp add: level_links_def)
  qed (use i in \<open>auto simp: same_payloads_def same_outside_def nth_list_update payload_def\<close>)
next
  case (snoc ys t)
  with links have d: "distinct (ys @ [t])" "dll h None (pl_head pl) (ys @ [t]) (pl_tail pl) None"
    by (auto simp: level_links_def)
  then have t: "pl_tail pl = Some t" "t < length h" "t \<noteq> i" "isEmpty pl \<longleftrightarrow> False"
    using i snoc isEmpty_links [OF links] by (auto simp: dll_append)
  let ?h1 = "h[i := (h ! i)\<lparr>o_next := None, o_prev := Some t\<rparr>]"
  let ?h = "?h1[t := (?h1 ! t)\<lparr>o_next := Some i\<rparr>]"
  let ?pl = "pl\<lparr>pl_tail := Some i, pl_totalQuantity := pl_totalQuantity pl + o_quantity (h ! i)\<rparr>"
  have "dll ?h1 None (pl_head pl) (ys @ [t]) (pl_tail pl) None"
    using d i snoc by simp
  then have "dll ?h None (pl_head pl) (ys @ [t]) (pl_tail pl) (Some i)"
    using d by (intro dll_set_next) auto
  then have "dll ?h None (pl_head pl) ((ys @ [t]) @ [i]) (Some i) None"
    unfolding dll_snoc using i t by (simp add: nth_list_update)
  show thesis
  proof (rule that)
    show "addToTail h pl i = Inr (?h, ?pl)"
      using i t by (simp add: addToTail_def nth_list_update)
    show "level_links ?h ?pl (xs @ [i])"
      using \<open>dll ?h None _ ((ys @ [t]) @ [i]) _ _\<close> d i snoc by (simp add: level_links_def)
    show "same_payloads ?h h"
      using i t by (auto simp: same_payloads_def nth_list_update payload_def)
    show "same_outside (insert i (set xs)) ?h h"
      using i t snoc by (auto simp: same_outside_def nth_list_update)
  qed simp_all
qed

text \<open>
  Taking an order out, wherever it stands: first the neighbour on the left (or the head) is
  redirected, then the neighbour on the right (or the tail).
\<close>

lemma unlink_left:
  assumes "dll h None (pl_head pl) (xs @ i # ys) (pl_tail pl) None" and "distinct (xs @ i # ys)"
  obtains h' pl' where "(case o_prev (h ! i) of
        Some p \<Rightarrow> bindR (wr h p (\<lambda>y. y\<lparr>o_next := o_next (h ! i)\<rparr>)) (\<lambda>h. Inr (h, pl))
      | None \<Rightarrow> Inr (h, pl\<lparr>pl_head := o_next (h ! i)\<rparr>)) = Inr (h', pl')"
    and "dll h' None (pl_head pl') xs (o_prev (h ! i)) (o_next (h ! i))"
    and "dll h' (Some i) (o_next (h ! i)) ys (pl_tail pl') None"
    and "same_payloads h' h" "same_outside (set xs) h' h"
    and "pl_price pl' = pl_price pl" "pl_totalQuantity pl' = pl_totalQuantity pl"
proof (cases xs rule: rev_cases)
  case Nil
  with assms show thesis
    by (intro that [of h "pl\<lparr>pl_head := o_next (h ! i)\<rparr>"]) (auto simp: same_payloads_def same_outside_def)
next
  case (snoc zs p)
  let ?h = "h[p := (h ! p)\<lparr>o_next := o_next (h ! i)\<rparr>]"
  from assms snoc have left: "dll h None (pl_head pl) (zs @ [p]) (o_prev (h ! i)) (Some i)"
    and right: "dll h (Some i) (o_next (h ! i)) ys (pl_tail pl) None"
    and p: "o_prev (h ! i) = Some p" "p < length h" "p \<notin> set ys" "p \<notin> set zs"
    by (auto simp: dll_append)
  show thesis
  proof (rule that [of ?h pl])
    show "dll ?h None (pl_head pl) xs (o_prev (h ! i)) (o_next (h ! i))"
      unfolding snoc using left p(4) by (rule dll_set_next)
  qed (use right p snoc in \<open>auto simp: same_payloads_def same_outside_def nth_list_update\<close>)
qed

lemma unlink_right:
  assumes "dll h (Some i) n ys (pl_tail pl) None" and "distinct ys"
  obtains h' pl' where "(case n of
        Some k \<Rightarrow> bindR (wr h k (\<lambda>y. y\<lparr>o_prev := q\<rparr>)) (\<lambda>h. Inr (h, pl))
      | None \<Rightarrow> Inr (h, pl\<lparr>pl_tail := q\<rparr>)) = Inr (h', pl')"
    and "dll h' q n ys (pl_tail pl') None"
    and "same_payloads h' h" "same_outside (set ys) h' h"
    and "pl_price pl' = pl_price pl" "pl_totalQuantity pl' = pl_totalQuantity pl" "pl_head pl' = pl_head pl"
proof (cases ys)
  case Nil
  with assms show thesis
    by (intro that [of h "pl\<lparr>pl_tail := q\<rparr>"]) (auto simp: same_payloads_def same_outside_def)
next
  case (Cons k zs)
  let ?h = "h[k := (h ! k)\<lparr>o_prev := q\<rparr>]"
  from assms Cons have k: "n = Some k" "k < length h" "k \<notin> set zs" by auto
  show thesis
  proof (rule that [of ?h pl])
    show "dll ?h q n ys (pl_tail pl) None"
      using assms k unfolding Cons by (intro dll_set_prev) auto
  qed (use k Cons in \<open>auto simp: same_payloads_def same_outside_def nth_list_update\<close>)
qed

lemma same_payloads_trans: "same_payloads h2 h1 \<Longrightarrow> same_payloads h1 h0 \<Longrightarrow> same_payloads h2 h0"
  by (simp add: same_payloads_def)

lemma same_outside_trans:
  "same_outside B h2 h1 \<Longrightarrow> same_outside A h1 h0 \<Longrightarrow> A \<subseteq> C \<Longrightarrow> B \<subseteq> C \<Longrightarrow> same_outside C h2 h0"
  unfolding same_outside_def by (metis subsetD)

lemma remove_run:
  assumes links: "level_links h pl (xs @ i # ys)"
  obtains h' pl' where "remove h pl i = Inr (h', pl')" and "level_links h' pl' (xs @ ys)"
    and "same_payloads h' h" and "same_outside (set (xs @ i # ys)) h' h"
    and "h' ! i = payload (h ! i)" and "pl_price pl' = pl_price pl"
    and "pl_totalQuantity pl' = pl_totalQuantity pl - o_quantity (h ! i)"
proof -
  have d: "distinct (xs @ i # ys)" and seg: "dll h None (pl_head pl) (xs @ i # ys) (pl_tail pl) None"
    using links by (auto simp: level_links_def)
  then have i: "i < length h" by (auto dest: dll_bound)
  obtain h1 pl1 where 1: "(case o_prev (h ! i) of
        Some p \<Rightarrow> bindR (wr h p (\<lambda>y. y\<lparr>o_next := o_next (h ! i)\<rparr>)) (\<lambda>h. Inr (h, pl))
      | None \<Rightarrow> Inr (h, pl\<lparr>pl_head := o_next (h ! i)\<rparr>)) = Inr (h1, pl1)"
    and left: "dll h1 None (pl_head pl1) xs (o_prev (h ! i)) (o_next (h ! i))"
    and right: "dll h1 (Some i) (o_next (h ! i)) ys (pl_tail pl1) None"
    and s1: "same_payloads h1 h" "same_outside (set xs) h1 h"
    and p1: "pl_price pl1 = pl_price pl" "pl_totalQuantity pl1 = pl_totalQuantity pl"
    using unlink_left [OF seg d] by blast
  have i1: "h1 ! i = h ! i" "i < length h1"
    using s1 d i by (auto simp: same_outside_def)
  obtain h2 pl2 where 2: "(case o_next (h ! i) of
        Some n \<Rightarrow> bindR (wr h1 n (\<lambda>y. y\<lparr>o_prev := o_prev (h ! i)\<rparr>)) (\<lambda>h. Inr (h, pl1))
      | None \<Rightarrow> Inr (h1, pl1\<lparr>pl_tail := o_prev (h ! i)\<rparr>)) = Inr (h2, pl2)"
    and right2: "dll h2 (o_prev (h ! i)) (o_next (h ! i)) ys (pl_tail pl2) None"
    and s2: "same_payloads h2 h1" "same_outside (set ys) h2 h1"
    and p2: "pl_price pl2 = pl_price pl1" "pl_totalQuantity pl2 = pl_totalQuantity pl1"
      "pl_head pl2 = pl_head pl1"
    using unlink_right [OF right, of "o_prev (h ! i)"] d by auto
  have i2: "h2 ! i = h ! i" "i < length h2"
    using s2 i1 d by (auto simp: same_outside_def)
  have left2: "dll h2 None (pl_head pl2) xs (o_prev (h ! i)) (o_next (h ! i))"
    using left p2 dll_outside [OF s2(2), of xs] d by (auto simp: Int_commute)
  let ?h = "h2[i := payload (h ! i)]"
  let ?pl = "pl2\<lparr>pl_totalQuantity := pl_totalQuantity pl - o_quantity (h ! i)\<rparr>"
  show thesis
  proof (rule that [of ?h ?pl])
    show "remove h pl i = Inr (?h, ?pl)"
      using i i1 i2 p1 p2 by (simp add: remove_def 1 2 payload_def)
    have "dll h2 None (pl_head pl2) (xs @ ys) (pl_tail pl2) None"
      unfolding dll_append using left2 right2 by blast
    then show "level_links ?h ?pl (xs @ ys)"
      using d by (simp add: level_links_def)
    show "same_payloads ?h h"
      using same_payloads_trans [OF s2(1) s1(1)] i
      by (auto simp: same_payloads_def nth_list_update payload_def)
    show "same_outside (set (xs @ i # ys)) ?h h"
      using same_outside_trans [OF s2(2) s1(2), of "set (xs @ i # ys)"]
      by (auto simp: same_outside_def nth_list_update)
  qed (use i2 p1 p2 in simp_all)
qed

lemma remove_total:
  assumes "level_total h pl (xs @ i # ys)" and "same_payloads h' h"
    and "\<And>j. j \<in> set (xs @ ys) \<Longrightarrow> j < length h"
    and "pl_totalQuantity pl' = pl_totalQuantity pl - o_quantity (h ! i)"
  shows "level_total h' pl' (xs @ ys)"
proof -
  have "o_quantity (h' ! j) = o_quantity (h ! j)" if "j \<in> set (xs @ ys)" for j
    using assms(2,3) that by (auto simp: same_payloads_def dest: payload_eqD(3))
  then have eq: "map (\<lambda>i. o_quantity (h' ! i)) (xs @ ys) = map (\<lambda>i. o_quantity (h ! i)) (xs @ ys)"
    by (intro map_cong) auto
  show ?thesis unfolding level_total_def eq using assms by (simp add: level_total_def)
qed

lemma addToTail_total:
  assumes "level_total h pl xs" and "same_payloads h' h" and "i < length h"
    and "\<And>j. j \<in> set xs \<Longrightarrow> j < length h"
    and "pl_totalQuantity pl' = pl_totalQuantity pl + o_quantity (h ! i)"
  shows "level_total h' pl' (xs @ [i])"
proof -
  have "o_quantity (h' ! j) = o_quantity (h ! j)" if "j \<in> set (xs @ [i])" for j
    using assms(2,3,4) that by (auto simp: same_payloads_def dest: payload_eqD(3))
  then have eq: "map (\<lambda>i. o_quantity (h' ! i)) (xs @ [i]) = map (\<lambda>i. o_quantity (h ! i)) (xs @ [i])"
    by (intro map_cong) auto
  show ?thesis unfolding level_total_def eq using assms by (simp add: level_total_def)
qed

end
