(* ===== verification/UnorderedMap.thy ===== *)
theory UnorderedMap
  imports Prelude "HOL-Library.AList"
begin

text \<open>
  \<open>std::unordered_map\<close> as the code uses it. A map is the list of its entries; the list's order
  stands for the iteration order, which the standard leaves open, so no property may rest on it.
  The locale \<open>hash_map\<close> states the laws the components rely on; the association lists
  interpret it.
\<close>

type_synonym ('k, 'v) umap = "('k \<times> 'v) list"

definition um_find :: "('k, 'v) umap \<Rightarrow> 'k \<Rightarrow> 'v option" where
  "um_find m k = map_of m k"

text \<open>\<open>try_emplace\<close> and \<open>emplace\<close> leave an existing entry alone; \<open>m[k] = v\<close> overwrites it.\<close>

definition um_emplace :: "('k, 'v) umap \<Rightarrow> 'k \<Rightarrow> 'v \<Rightarrow> ('k, 'v) umap" where
  "um_emplace m k v = (if map_of m k = None then m @ [(k, v)] else m)"

definition um_assign :: "('k, 'v) umap \<Rightarrow> 'k \<Rightarrow> 'v \<Rightarrow> ('k, 'v) umap" where
  "um_assign m k v = AList.update k v m"

definition um_erase :: "('k, 'v) umap \<Rightarrow> 'k \<Rightarrow> ('k, 'v) umap" where
  "um_erase m k = AList.delete k m"

definition um_size :: "('k, 'v) umap \<Rightarrow> nat" where
  "um_size m = length m"

definition um_keys :: "('k, 'v) umap \<Rightarrow> 'k list" where
  "um_keys m = map fst m"

definition um_ok :: "('k, 'v) umap \<Rightarrow> bool" where
  "um_ok m \<longleftrightarrow> distinct (map fst m)"

section \<open>The interface\<close>

locale hash_map =
  fixes find :: "'m \<Rightarrow> 'k \<Rightarrow> 'v option"
    and emplace :: "'m \<Rightarrow> 'k \<Rightarrow> 'v \<Rightarrow> 'm"
    and assign :: "'m \<Rightarrow> 'k \<Rightarrow> 'v \<Rightarrow> 'm"
    and erase :: "'m \<Rightarrow> 'k \<Rightarrow> 'm"
    and keys :: "'m \<Rightarrow> 'k list"
    and size :: "'m \<Rightarrow> nat"
    and ok :: "'m \<Rightarrow> bool"
  assumes find_emplace: "ok m \<Longrightarrow>
      find (emplace m k v) = (if find m k = None then (find m)(k := Some v) else find m)"
    and find_assign: "ok m \<Longrightarrow> find (assign m k v) = (find m)(k := Some v)"
    and find_erase: "ok m \<Longrightarrow> find (erase m k) = (find m)(k := None)"
    and ok_emplace: "ok m \<Longrightarrow> ok (emplace m k v)"
    and ok_assign: "ok m \<Longrightarrow> ok (assign m k v)"
    and ok_erase: "ok m \<Longrightarrow> ok (erase m k)"
    and keys_find: "ok m \<Longrightarrow> set (keys m) = {k. find m k \<noteq> None}"
    and keys_distinct: "ok m \<Longrightarrow> distinct (keys m)"
    and size_keys: "ok m \<Longrightarrow> size m = length (keys m)"
begin

lemma ok_erase_all: "ok m \<Longrightarrow> ok (foldl erase m ks)"
  by (induction ks arbitrary: m) (auto simp: ok_erase)

lemma find_erase_all: "ok m \<Longrightarrow> find (foldl erase m ks) k = (if k \<in> set ks then None else find m k)"
  by (induction ks arbitrary: m) (auto simp: ok_erase find_erase)

lemma size_card: "ok m \<Longrightarrow> size m = card {k. find m k \<noteq> None}"
  by (metis distinct_card keys_distinct keys_find size_keys)

lemma finite_keys: "ok m \<Longrightarrow> finite {k. find m k \<noteq> None}"
  by (metis keys_find List.finite_set)

lemma size_assign:
  assumes "ok m"
  shows "size (assign m k v) = (if find m k = None then Suc (size m) else size m)"
proof -
  have "{j. find (assign m k v) j \<noteq> None} = insert k {j. find m j \<noteq> None}"
    using assms by (auto simp: find_assign)
  with assms finite_keys [OF assms] show ?thesis
    by (auto simp: size_card ok_assign insert_absorb)
qed

lemma size_erase:
  assumes "ok m"
  shows "size (erase m k) = (if find m k = None then size m else size m - 1)"
proof -
  have "{j. find (erase m k) j \<noteq> None} = {j. find m j \<noteq> None} - {k}"
    using assms by (auto simp: find_erase)
  with assms finite_keys [OF assms] show ?thesis
    by (auto simp: size_card ok_erase card_Diff_singleton_if)
qed

end

interpretation um: hash_map um_find um_emplace um_assign um_erase um_keys um_size um_ok
proof
  fix m :: "('a, 'b) umap" and k v
  assume ok: "um_ok m"
  show "um_find (um_emplace m k v) = (if um_find m k = None then (um_find m)(k := Some v) else um_find m)"
    by (auto simp: um_find_def um_emplace_def map_add_def fun_eq_iff split: option.splits)
  show "um_find (um_assign m k v) = (um_find m)(k := Some v)"
    by (simp add: um_find_def um_assign_def update_conv' fun_eq_iff)
  show "um_find (um_erase m k) = (um_find m)(k := None)"
    by (simp add: um_find_def um_erase_def delete_conv' fun_eq_iff)
  show "um_ok (um_emplace m k v)"
    using ok by (auto simp: um_ok_def um_emplace_def map_of_eq_None_iff)
  show "um_ok (um_assign m k v)"
    using ok by (simp add: um_ok_def um_assign_def distinct_update)
  show "um_ok (um_erase m k)"
    using ok by (simp add: um_ok_def um_erase_def distinct_delete)
  show "set (um_keys m) = {k. um_find m k \<noteq> None}"
    by (auto simp: um_keys_def um_find_def map_of_eq_None_iff)
  show "distinct (um_keys m)"
    using ok by (simp add: um_ok_def um_keys_def)
  show "um_size m = length (um_keys m)"
    by (simp add: um_size_def um_keys_def)
qed

lemma um_ok_Nil [simp]: "um_ok []"
  by (simp add: um_ok_def)

lemma um_find_Nil [simp]: "um_find [] k = None"
  by (simp add: um_find_def)

lemma um_find_Cons [simp]: "um_find ((k', v) # m) k = (if k = k' then Some v else um_find m k)"
  by (auto simp: um_find_def)

lemmas um_simps = um.find_emplace um.find_assign um.find_erase um.ok_emplace um.ok_assign um.ok_erase

lemma um_entry: "um_ok m \<Longrightarrow> (k, v) \<in> set m \<longleftrightarrow> um_find m k = Some v"
  by (simp add: um_ok_def um_find_def map_of_eq_Some_iff)

end
