(* ===== verification/OrderBook.thy ===== *)
theory OrderBook
  imports OrderPool PriceLevels UnorderedMap
begin

text \<open>
  The matching core (\<open>include/order_book.h\<close>). The template parameter \<open>TradeCallback\<close> is a
  function \<open>onTrade\<close> on a state of its own, of any type \<open>'c\<close>, which the operations thread
  through; a callback does not reach into the book. \<open>bids_\<close> is kept ascending and \<open>asks_\<close>
  descending, so the best level of either side is the last element of its vector.
\<close>

section \<open>State\<close>

definition kDefaultMaxPriceLevels :: nat where
  "kDefaultMaxPriceLevels = 4096"

record OrderBook =
  ob_pool :: OrderPool
  ob_bids :: "PriceLevel list"
  ob_asks :: "PriceLevel list"
  ob_orderIndex :: "(u64, nat) umap"
  ob_sequence :: u64

text \<open>The slots of the book's pool: the memory the orders and their links live in.\<close>

abbreviation heap :: "OrderBook \<Rightarrow> Order list" where
  "heap b \<equiv> op_orders (ob_pool b)"

abbreviation set_heap :: "Order list \<Rightarrow> OrderBook \<Rightarrow> OrderBook" where
  "set_heap h b \<equiv> b\<lparr>ob_pool := (ob_pool b)\<lparr>op_orders := h\<rparr>\<rparr>"

lemma ob_self [simp]: "b\<lparr>ob_pool := ob_pool b\<rparr> = b" "b\<lparr>ob_orderIndex := ob_orderIndex b\<rparr> = b"
  "b\<lparr>ob_pool := ob_pool b, ob_orderIndex := ob_orderIndex b\<rparr> = b"
  by (cases b; simp)+

text \<open>
  The constructor. The reservations only fix the capacity of the vectors, which the asserts of
  \<open>findOrCreateBidLevel\<close> and \<open>findOrCreateAskLevel\<close> read. The standard promises a capacity of at least
  \<open>4096\<close> after \<open>reserve\<close>; the model takes it to be \<open>4096\<close>, as libstdc++ and libc++ have it for a
  vector that was empty. It stays so while the asserts hold, since no insertion then reallocates.
\<close>

definition OrderBook_new :: "u64 \<Rightarrow> fault + OrderBook" where
  "OrderBook_new capacity =
     bindR (OrderPool_new capacity) (\<lambda>p.
     Inr \<lparr>ob_pool = p, ob_bids = [], ob_asks = [], ob_orderIndex = [], ob_sequence = 0\<rparr>)"

definition bestBid :: "OrderBook \<Rightarrow> PriceLevel option" where
  "bestBid b = (if ob_bids b = [] then None else Some (last (ob_bids b)))"

definition bestAsk :: "OrderBook \<Rightarrow> PriceLevel option" where
  "bestAsk b = (if ob_asks b = [] then None else Some (last (ob_asks b)))"

section \<open>Price level lookup\<close>

definition findBidLevel :: "OrderBook \<Rightarrow> u32 \<Rightarrow> nat" where
  "findBidLevel b p = lower_bound (\<lambda>pl. pl_price pl < p) (ob_bids b)"

definition findAskLevel :: "OrderBook \<Rightarrow> u32 \<Rightarrow> nat" where
  "findAskLevel b p = lower_bound (\<lambda>pl. pl_price pl > p) (ob_asks b)"

text \<open>The position of the level with this price, which is inserted when there is none.\<close>

definition findOrCreateBidLevel :: "bool \<Rightarrow> OrderBook \<Rightarrow> u32 \<Rightarrow> fault + nat \<times> OrderBook" where
  "findOrCreateBidLevel dbg b p =
     (let it = findBidLevel b p in
      if it \<noteq> length (ob_bids b) \<and> pl_price (ob_bids b ! it) = p then Inr (it, b)
      else bindR (assertR dbg ''bids_.size() < bids_.capacity()''
                   (length (ob_bids b) < kDefaultMaxPriceLevels)) (\<lambda>_.
           Inr (it, b\<lparr>ob_bids := vec_insert (ob_bids b) it (PriceLevel_new p)\<rparr>)))"

definition findOrCreateAskLevel :: "bool \<Rightarrow> OrderBook \<Rightarrow> u32 \<Rightarrow> fault + nat \<times> OrderBook" where
  "findOrCreateAskLevel dbg b p =
     (let it = findAskLevel b p in
      if it \<noteq> length (ob_asks b) \<and> pl_price (ob_asks b ! it) = p then Inr (it, b)
      else bindR (assertR dbg ''asks_.size() < asks_.capacity()''
                   (length (ob_asks b) < kDefaultMaxPriceLevels)) (\<lambda>_.
           Inr (it, b\<lparr>ob_asks := vec_insert (ob_asks b) it (PriceLevel_new p)\<rparr>)))"

section \<open>Matching\<close>

text \<open>
  The three statements both matching loops run when the resting order at the front of a level
  is used up: \<open>pl->remove(resting); orderIndex_.erase(resting->orderId);
  pool_.deallocate(resting)\<close>. The level is returned beside the book, for its vector to hold.
\<close>

definition retire :: "bool \<Rightarrow> OrderBook \<Rightarrow> PriceLevel \<Rightarrow> nat \<Rightarrow> fault + PriceLevel \<times> OrderBook" where
  "retire dbg b pl resting =
     bindR (remove (heap b) pl resting) (\<lambda>(h, pl).
     bindR (rd h resting) (\<lambda>res.
     bindR (deallocate dbg (Some resting) ((ob_pool b)\<lparr>op_orders := h\<rparr>)) (\<lambda>p.
     Inr (pl, b\<lparr>ob_pool := p, ob_orderIndex := um_erase (ob_orderIndex b) (o_orderId res)\<rparr>))))"

text \<open>
  The loops of \<open>matchBuy\<close> and \<open>matchSell\<close>. The pointer \<open>pl\<close> of the code is
  \<open>levels + numLevels - 1\<close> throughout: both are set up so and decremented together. A run out of
  fuel is a fault; the callers give one more unit than there are slots in the pool.
\<close>

fun matchBuy_loop :: "bool \<Rightarrow> (Trade \<Rightarrow> 'c \<Rightarrow> 'c) \<Rightarrow> nat \<Rightarrow> u32 \<Rightarrow> nat \<Rightarrow> nat \<Rightarrow> OrderBook \<Rightarrow> 'c \<Rightarrow>
    fault + nat \<times> OrderBook \<times> 'c" where
  "matchBuy_loop dbg onTrade 0 incomingPrice incoming numLevels b c = Inl OutOfFuel"
| "matchBuy_loop dbg onTrade (Suc fuel) incomingPrice incoming numLevels b c =
     bindR (rd (heap b) incoming) (\<lambda>inc.
     if \<not> (0 < o_quantity inc \<and> 0 < numLevels) then Inr (numLevels, b, c)
     else bindR (rd (ob_asks b) (numLevels - 1)) (\<lambda>pl.
     if incomingPrice < pl_price pl then Inr (numLevels, b, c)
     else bindR (deref (pl_head pl)) (\<lambda>resting.
     bindR (rd (heap b) resting) (\<lambda>res.
     if o_participantId res = o_participantId inc
     then bindR (wr (heap b) incoming (\<lambda>x. x\<lparr>o_quantity := 0\<rparr>)) (\<lambda>h.
          Inr (numLevels, set_heap h b, c))
     else let fillQty = min (o_quantity inc) (o_quantity res) in
     bindR (wr (heap b) incoming (\<lambda>x. x\<lparr>o_quantity := o_quantity x - fillQty\<rparr>)) (\<lambda>h.
     bindR (wr h resting (\<lambda>x. x\<lparr>o_quantity := o_quantity x - fillQty\<rparr>)) (\<lambda>h.
     let pl = pl\<lparr>pl_totalQuantity := pl_totalQuantity pl - fillQty\<rparr>;
         c = onTrade \<lparr>t_buyOrderId = o_orderId inc, t_sellOrderId = o_orderId res,
                      t_price = pl_price pl, t_quantity = fillQty\<rparr> c
     in bindR (rd h resting) (\<lambda>res.
     bindR (if o_quantity res = 0 then retire dbg (set_heap h b) pl resting
            else Inr (pl, set_heap h b)) (\<lambda>(pl, b).
     bindR (wr (ob_asks b) (numLevels - 1) (\<lambda>_. pl)) (\<lambda>asks.
     matchBuy_loop dbg onTrade fuel incomingPrice incoming
       (if pl_head pl = None then numLevels - 1 else numLevels) (b\<lparr>ob_asks := asks\<rparr>) c)))))))))"

fun matchSell_loop :: "bool \<Rightarrow> (Trade \<Rightarrow> 'c \<Rightarrow> 'c) \<Rightarrow> nat \<Rightarrow> u32 \<Rightarrow> nat \<Rightarrow> nat \<Rightarrow> OrderBook \<Rightarrow> 'c \<Rightarrow>
    fault + nat \<times> OrderBook \<times> 'c" where
  "matchSell_loop dbg onTrade 0 incomingPrice incoming numLevels b c = Inl OutOfFuel"
| "matchSell_loop dbg onTrade (Suc fuel) incomingPrice incoming numLevels b c =
     bindR (rd (heap b) incoming) (\<lambda>inc.
     if \<not> (0 < o_quantity inc \<and> 0 < numLevels) then Inr (numLevels, b, c)
     else bindR (rd (ob_bids b) (numLevels - 1)) (\<lambda>pl.
     if incomingPrice > pl_price pl then Inr (numLevels, b, c)
     else bindR (deref (pl_head pl)) (\<lambda>resting.
     bindR (rd (heap b) resting) (\<lambda>res.
     if o_participantId res = o_participantId inc
     then bindR (wr (heap b) incoming (\<lambda>x. x\<lparr>o_quantity := 0\<rparr>)) (\<lambda>h.
          Inr (numLevels, set_heap h b, c))
     else let fillQty = min (o_quantity inc) (o_quantity res) in
     bindR (wr (heap b) incoming (\<lambda>x. x\<lparr>o_quantity := o_quantity x - fillQty\<rparr>)) (\<lambda>h.
     bindR (wr h resting (\<lambda>x. x\<lparr>o_quantity := o_quantity x - fillQty\<rparr>)) (\<lambda>h.
     let pl = pl\<lparr>pl_totalQuantity := pl_totalQuantity pl - fillQty\<rparr>;
         c = onTrade \<lparr>t_buyOrderId = o_orderId res, t_sellOrderId = o_orderId inc,
                      t_price = pl_price pl, t_quantity = fillQty\<rparr> c
     in bindR (rd h resting) (\<lambda>res.
     bindR (if o_quantity res = 0 then retire dbg (set_heap h b) pl resting
            else Inr (pl, set_heap h b)) (\<lambda>(pl, b).
     bindR (wr (ob_bids b) (numLevels - 1) (\<lambda>_. pl)) (\<lambda>bids.
     matchSell_loop dbg onTrade fuel incomingPrice incoming
       (if pl_head pl = None then numLevels - 1 else numLevels) (b\<lparr>ob_bids := bids\<rparr>) c)))))))))"

text \<open>\<open>asks_.resize(numLevels)\<close> only ever shrinks the vector.\<close>

definition matchBuy :: "bool \<Rightarrow> (Trade \<Rightarrow> 'c \<Rightarrow> 'c) \<Rightarrow> nat \<Rightarrow> OrderBook \<Rightarrow> 'c \<Rightarrow> fault + OrderBook \<times> 'c" where
  "matchBuy dbg onTrade incoming b c =
     (if ob_asks b = [] then Inr (b, c)
      else bindR (rd (heap b) incoming) (\<lambda>inc.
           bindR (matchBuy_loop dbg onTrade (Suc (length (heap b))) (o_price inc) incoming
                    (length (ob_asks b)) b c) (\<lambda>(numLevels, b, c).
           Inr (b\<lparr>ob_asks := take numLevels (ob_asks b)\<rparr>, c))))"

definition matchSell :: "bool \<Rightarrow> (Trade \<Rightarrow> 'c \<Rightarrow> 'c) \<Rightarrow> nat \<Rightarrow> OrderBook \<Rightarrow> 'c \<Rightarrow> fault + OrderBook \<times> 'c" where
  "matchSell dbg onTrade incoming b c =
     (if ob_bids b = [] then Inr (b, c)
      else bindR (rd (heap b) incoming) (\<lambda>inc.
           bindR (matchSell_loop dbg onTrade (Suc (length (heap b))) (o_price inc) incoming
                    (length (ob_bids b)) b c) (\<lambda>(numLevels, b, c).
           Inr (b\<lparr>ob_bids := take numLevels (ob_bids b)\<rparr>, c))))"

section \<open>The public operations\<close>

text \<open>The remainder of an incoming order comes to rest at the tail of its level.\<close>

definition rest_order :: "bool \<Rightarrow> Side \<Rightarrow> u32 \<Rightarrow> u64 \<Rightarrow> nat \<Rightarrow> OrderBook \<Rightarrow> fault + OrderBook" where
  "rest_order dbg side p i order b =
     bindR (case side of
         Buy \<Rightarrow> bindR (findOrCreateBidLevel dbg b p) (\<lambda>(it, b).
                bindR (rd (ob_bids b) it) (\<lambda>pl.
                bindR (addToTail (heap b) pl order) (\<lambda>(h, pl).
                Inr (set_heap h (b\<lparr>ob_bids := (ob_bids b)[it := pl]\<rparr>)))))
       | Sell \<Rightarrow> bindR (findOrCreateAskLevel dbg b p) (\<lambda>(it, b).
                 bindR (rd (ob_asks b) it) (\<lambda>pl.
                 bindR (addToTail (heap b) pl order) (\<lambda>(h, pl).
                 Inr (set_heap h (b\<lparr>ob_asks := (ob_asks b)[it := pl]\<rparr>)))))) (\<lambda>b.
     Inr (b\<lparr>ob_orderIndex := um_emplace (ob_orderIndex b) i order\<rparr>))"

definition addLimitOrder :: "bool \<Rightarrow> (Trade \<Rightarrow> 'c \<Rightarrow> 'c) \<Rightarrow> Side \<Rightarrow> u32 \<Rightarrow> u32 \<Rightarrow> u64 \<Rightarrow> u64 \<Rightarrow>
    OrderBook \<Rightarrow> 'c \<Rightarrow> fault + OrderBook \<times> 'c" where
  "addLimitOrder dbg onTrade side price quantity i participantId b c =
     bindR (allocate dbg (ob_pool b)) (\<lambda>(order, p).
     bindR (wr (op_orders p) order
              (\<lambda>x. Order_init x i price quantity (ob_sequence b) side participantId)) (\<lambda>h.
     let b = b\<lparr>ob_pool := p\<lparr>op_orders := h\<rparr>, ob_sequence := ob_sequence b + 1\<rparr> in
     bindR (case side of
         Buy \<Rightarrow> (case bestAsk b of
             None \<Rightarrow> Inr (b, c)
           | Some pl \<Rightarrow> if price \<ge> pl_price pl then matchBuy dbg onTrade order b c else Inr (b, c))
       | Sell \<Rightarrow> (case bestBid b of
             None \<Rightarrow> Inr (b, c)
           | Some pl \<Rightarrow> if price \<le> pl_price pl then matchSell dbg onTrade order b c else Inr (b, c)))
       (\<lambda>(b, c).
     bindR (rd (heap b) order) (\<lambda>x.
     if 0 < o_quantity x
     then bindR (rest_order dbg side price i order b) (\<lambda>b. Inr (b, c))
     else bindR (deallocate dbg (Some order) (ob_pool b)) (\<lambda>p. Inr (b\<lparr>ob_pool := p\<rparr>, c))))))"

text \<open>\<open>levels.erase(levelIt)\<close> after the order has left its level, if that was the last one.\<close>

definition unlink_level :: "OrderBook \<Rightarrow> PriceLevel list \<Rightarrow> nat \<Rightarrow> nat \<Rightarrow>
    fault + Order list \<times> PriceLevel list" where
  "unlink_level b levels it order =
     bindR (rd levels it) (\<lambda>pl.
     bindR (remove (heap b) pl order) (\<lambda>(h, pl).
     Inr (h, if isEmpty pl then vec_erase levels it else levels[it := pl])))"

definition cancelOrder :: "bool \<Rightarrow> u64 \<Rightarrow> OrderBook \<Rightarrow> fault + OrderBook" where
  "cancelOrder dbg orderId b =
     (case um_find (ob_orderIndex b) orderId of
        None \<Rightarrow> Inr b
      | Some order \<Rightarrow>
          bindR (rd (heap b) order) (\<lambda>x.
          bindR (assertR dbg ''o && o->quantity > 0'' (0 < o_quantity x)) (\<lambda>_.
          let levels = (if o_side x = Buy then ob_bids b else ob_asks b);
              it = (if o_side x = Buy then findBidLevel b (o_price x) else findAskLevel b (o_price x))
          in bindR (assertR dbg ''Order in index but price level missing''
                     (it \<noteq> length levels \<and> pl_price (levels ! it) = o_price x)) (\<lambda>_.
          bindR (unlink_level b levels it order) (\<lambda>(h, levels).
          let b = (if o_side x = Buy then b\<lparr>ob_bids := levels\<rparr> else b\<lparr>ob_asks := levels\<rparr>) in
          bindR (deallocate dbg (Some order) ((ob_pool b)\<lparr>op_orders := h\<rparr>)) (\<lambda>p.
          Inr (b\<lparr>ob_pool := p, ob_orderIndex := um_erase (ob_orderIndex b) orderId\<rparr>)))))))"

end
