(* ===== verification/BookSpec.thy ===== *)
theory BookSpec
  imports CoreTypes
begin

text \<open>
  What the order book promises, with no memory in it: each side is the list of its resting orders
  in priority order, best price first and oldest first within a price. Orders are payloads (their
  links are null). The refinement of \<open>include/order_book.h\<close> to this specification is in
  the theory BookRefine.
\<close>

section \<open>The abstract book\<close>

record SpecBook =
  sb_bids :: "Order list"
  sb_asks :: "Order list"
  sb_sequence :: u64

text \<open>
  An incoming order of participant \<open>pid\<close> for \<open>q\<close> meets the resting orders in priority order. It
  stops where the price lies beyond its limit, loses its remainder where it meets an order of its
  own participant, and otherwise takes what it can of the order in front.
\<close>

fun spec_match :: "(u32 \<Rightarrow> bool) \<Rightarrow> u64 \<Rightarrow> u32 \<Rightarrow> Order list \<Rightarrow> (Order \<times> u32) list \<times> u32 \<times> Order list" where
  "spec_match beyond pid q [] = ([], q, [])"
| "spec_match beyond pid q (r # rs) =
     (if q = 0 \<or> beyond (o_price r) then ([], q, r # rs)
      else if o_participantId r = pid then ([], 0, r # rs)
      else let f = min q (o_quantity r) in
           if o_quantity r = f
           then (case spec_match beyond pid (q - f) rs of (fs, q', rs') \<Rightarrow> ((r, f) # fs, q', rs'))
           else ([(r, f)], 0, r\<lparr>o_quantity := o_quantity r - f\<rparr> # rs))"

text \<open>A new order goes behind every order that its price does not beat.\<close>

definition spec_insert :: "(u32 \<Rightarrow> u32 \<Rightarrow> bool) \<Rightarrow> Order \<Rightarrow> Order list \<Rightarrow> Order list" where
  "spec_insert worse x xs =
     takeWhile (\<lambda>y. \<not> worse (o_price y) (o_price x)) xs @ x #
     dropWhile (\<lambda>y. \<not> worse (o_price y) (o_price x)) xs"

definition new_order :: "Side \<Rightarrow> u32 \<Rightarrow> u32 \<Rightarrow> u64 \<Rightarrow> u64 \<Rightarrow> u64 \<Rightarrow> Order" where
  "new_order side price q i pid seq =
     \<lparr>o_orderId = i, o_price = price, o_quantity = q, o_sequence = seq,
      o_participantId = pid, o_side = side, o_next = None, o_prev = None\<rparr>"

definition buy_trade :: "u64 \<Rightarrow> u64 \<Rightarrow> u32 \<Rightarrow> u32 \<Rightarrow> Trade" where
  "buy_trade incoming resting price q =
     \<lparr>t_buyOrderId = incoming, t_sellOrderId = resting, t_price = price, t_quantity = q\<rparr>"

definition sell_trade :: "u64 \<Rightarrow> u64 \<Rightarrow> u32 \<Rightarrow> u32 \<Rightarrow> Trade" where
  "sell_trade incoming resting price q =
     \<lparr>t_buyOrderId = resting, t_sellOrderId = incoming, t_price = price, t_quantity = q\<rparr>"

definition fill_trades :: "(u64 \<Rightarrow> u64 \<Rightarrow> u32 \<Rightarrow> u32 \<Rightarrow> Trade) \<Rightarrow> u64 \<Rightarrow> (Order \<times> u32) list \<Rightarrow> Trade list" where
  "fill_trades trade i fs = map (\<lambda>(r, f). trade i (o_orderId r) (o_price r) f) fs"

definition spec_add :: "Side \<Rightarrow> u32 \<Rightarrow> u32 \<Rightarrow> u64 \<Rightarrow> u64 \<Rightarrow> SpecBook \<Rightarrow> Trade list \<times> SpecBook" where
  "spec_add side price q i pid sb =
     (case side of
        Buy \<Rightarrow> (case spec_match (\<lambda>p. price < p) pid q (sb_asks sb) of (fs, q', rs) \<Rightarrow>
          (fill_trades buy_trade i fs,
           sb\<lparr>sb_asks := rs, sb_sequence := sb_sequence sb + 1,
              sb_bids := (if 0 < q'
                then spec_insert (<) (new_order Buy price q' i pid (sb_sequence sb)) (sb_bids sb)
                else sb_bids sb)\<rparr>))
      | Sell \<Rightarrow> (case spec_match (\<lambda>p. p < price) pid q (sb_bids sb) of (fs, q', rs) \<Rightarrow>
          (fill_trades sell_trade i fs,
           sb\<lparr>sb_bids := rs, sb_sequence := sb_sequence sb + 1,
              sb_asks := (if 0 < q'
                then spec_insert (>) (new_order Sell price q' i pid (sb_sequence sb)) (sb_asks sb)
                else sb_asks sb)\<rparr>)))"

definition spec_cancel :: "u64 \<Rightarrow> SpecBook \<Rightarrow> SpecBook" where
  "spec_cancel i sb = sb\<lparr>sb_bids := filter (\<lambda>x. o_orderId x \<noteq> i) (sb_bids sb),
                          sb_asks := filter (\<lambda>x. o_orderId x \<noteq> i) (sb_asks sb)\<rparr>"

definition spec_orders :: "SpecBook \<Rightarrow> Order list" where
  "spec_orders sb = sb_bids sb @ sb_asks sb"

section \<open>Well-formed books\<close>

definition sorted_side :: "(u32 \<Rightarrow> u32 \<Rightarrow> bool) \<Rightarrow> Order list \<Rightarrow> bool" where
  "sorted_side worse xs \<longleftrightarrow> sorted_wrt (\<lambda>x y. \<not> worse (o_price x) (o_price y)) xs"

definition uncrossed :: "SpecBook \<Rightarrow> bool" where
  "uncrossed sb \<longleftrightarrow> (\<forall>x \<in> set (sb_bids sb). \<forall>y \<in> set (sb_asks sb). o_price x < o_price y)"

section \<open>Facts about matching\<close>

lemma spec_match_zero [simp]: "spec_match beyond pid 0 rs = ([], 0, rs)"
  by (cases rs) auto

lemma spec_match_take_part:
  "0 < q \<Longrightarrow> \<not> beyond (o_price r) \<Longrightarrow> o_participantId r \<noteq> pid \<Longrightarrow> q < o_quantity r \<Longrightarrow>
     spec_match beyond pid q (r # rs) = ([(r, q)], 0, r\<lparr>o_quantity := o_quantity r - q\<rparr> # rs)"
  by (auto simp: Let_def min_def word_gt_0)

lemma spec_match_take_all:
  "0 < q \<Longrightarrow> \<not> beyond (o_price r) \<Longrightarrow> o_participantId r \<noteq> pid \<Longrightarrow> o_quantity r \<le> q \<Longrightarrow>
     spec_match beyond pid q (r # rs) =
       (case spec_match beyond pid (q - o_quantity r) rs of
          (fs, q', rs') \<Rightarrow> ((r, o_quantity r) # fs, q', rs'))"
  by (simp add: Let_def min_absorb2 word_gt_0)

text \<open>The five ways a call of \<open>spec_match\<close> can end, as an induction rule.\<close>

lemma spec_match_induct [consumes 1, case_names Nil Stop Self Full Part]:
  assumes "spec_match beyond pid q rs = (fs, q', rs')"
    and Nil: "\<And>q. P q [] [] q []"
    and Stop: "\<And>q r rs. q = 0 \<or> beyond (o_price r) \<Longrightarrow> P q (r # rs) [] q (r # rs)"
    and Self: "\<And>q r rs. 0 < q \<Longrightarrow> \<not> beyond (o_price r) \<Longrightarrow> o_participantId r = pid \<Longrightarrow>
        P q (r # rs) [] 0 (r # rs)"
    and Full: "\<And>q r rs fs q' rs'. 0 < q \<Longrightarrow> \<not> beyond (o_price r) \<Longrightarrow> o_participantId r \<noteq> pid \<Longrightarrow>
        o_quantity r \<le> q \<Longrightarrow> spec_match beyond pid (q - o_quantity r) rs = (fs, q', rs') \<Longrightarrow>
        P (q - o_quantity r) rs fs q' rs' \<Longrightarrow> P q (r # rs) ((r, o_quantity r) # fs) q' rs'"
    and Part: "\<And>q r rs. 0 < q \<Longrightarrow> \<not> beyond (o_price r) \<Longrightarrow> o_participantId r \<noteq> pid \<Longrightarrow>
        q < o_quantity r \<Longrightarrow>
        P q (r # rs) [(r, q)] 0 (r\<lparr>o_quantity := o_quantity r - q\<rparr> # rs)"
  shows "P q rs fs q' rs'"
  using assms(1)
proof (induction rs arbitrary: q fs q' rs')
  case Nil
  then show ?case using assms(2) by simp
next
  case (Cons r rs)
  consider "q = 0 \<or> beyond (o_price r)"
    | "0 < q" "\<not> beyond (o_price r)" "o_participantId r = pid"
    | "0 < q" "\<not> beyond (o_price r)" "o_participantId r \<noteq> pid" "o_quantity r \<le> q"
    | "0 < q" "\<not> beyond (o_price r)" "o_participantId r \<noteq> pid" "q < o_quantity r"
    using word_gt_0 [of q] not_less [of q "o_quantity r"] by blast
  then show ?case
  proof cases
    case 1
    with Cons.prems Stop show ?thesis by auto
  next
    case 2
    with Cons.prems Self [of q r rs] show ?thesis by (simp add: word_gt_0)
  next
    case 3
    then obtain fs1 where "spec_match beyond pid (q - o_quantity r) rs = (fs1, q', rs')"
      and "fs = (r, o_quantity r) # fs1"
      using Cons.prems by (auto simp: Let_def word_gt_0 min_absorb2 split: prod.splits)
    with 3 Cons.IH Full show ?thesis by blast
  next
    case 4
    then have "min q (o_quantity r) = q" "o_quantity r \<noteq> q" by auto
    with 4 Cons.prems Part [of q r rs] show ?thesis by (simp add: Let_def word_gt_0)
  qed
qed

lemma spec_match_subset:
  "spec_match beyond pid q rs = (fs, q', rs') \<Longrightarrow>
     o_orderId ` set rs' \<subseteq> o_orderId ` set rs \<and> o_price ` set rs' \<subseteq> o_price ` set rs"
  by (induction rule: spec_match_induct) auto

text \<open>The fills run along the priority list from its front, and each is within the limit.\<close>

lemma spec_match_prefix:
  "spec_match beyond pid q rs = (fs, q', rs') \<Longrightarrow> map fst fs = take (length fs) rs"
  by (induction rule: spec_match_induct) auto

lemma spec_match_fill:
  "spec_match beyond pid q rs = (fs, q', rs') \<Longrightarrow> (r, f) \<in> set fs \<Longrightarrow>
     r \<in> set rs \<and> \<not> beyond (o_price r) \<and> o_participantId r \<noteq> pid \<and> f \<le> o_quantity r"
  by (induction rule: spec_match_induct) auto

text \<open>All fills but the last use up the order they meet.\<close>

lemma spec_match_full:
  "spec_match beyond pid q rs = (fs, q', rs') \<Longrightarrow> (r, f) \<in> set (butlast fs) \<Longrightarrow> f = o_quantity r"
  by (induction rule: spec_match_induct) (auto split: if_splits)

text \<open>Quantities, as natural numbers: nothing is created and only a self match loses any.\<close>

definition filled :: "(Order \<times> u32) list \<Rightarrow> nat" where
  "filled fs = sum_list (map (\<lambda>(r, f). unat f) fs)"

definition volume :: "Order list \<Rightarrow> nat" where
  "volume xs = sum_list (map (\<lambda>x. unat (o_quantity x)) xs)"

lemma filled_simps [simp]: "filled [] = 0" "filled ((r, f) # fs) = unat f + filled fs"
  by (simp_all add: filled_def)

lemma volume_simps [simp]: "volume [] = 0" "volume (x # xs) = unat (o_quantity x) + volume xs"
  "volume (xs @ ys) = volume xs + volume ys"
  by (simp_all add: volume_def)

lemma spec_match_volume:
  "spec_match beyond pid q rs = (fs, q', rs') \<Longrightarrow> volume rs = filled fs + volume rs'"
  by (induction rule: spec_match_induct) (auto simp: unat_sub less_imp_le word_less_nat_alt)

lemma spec_match_quantity_le:
  "spec_match beyond pid q rs = (fs, q', rs') \<Longrightarrow> filled fs + unat q' \<le> unat q"
  by (induction rule: spec_match_induct) (auto simp: unat_sub word_le_nat_alt)

lemma spec_match_quantity:
  "spec_match beyond pid q rs = (fs, q', rs') \<Longrightarrow>
     (\<And>r. r \<in> set rs \<Longrightarrow> \<not> beyond (o_price r) \<Longrightarrow> o_participantId r \<noteq> pid) \<Longrightarrow>
     filled fs + unat q' = unat q"
  by (induction rule: spec_match_induct) (auto simp: unat_sub word_le_nat_alt)

text \<open>A remainder is left only where every order left is beyond the limit.\<close>

lemma spec_match_rest:
  "spec_match beyond pid q rs = (fs, q', rs') \<Longrightarrow> 0 < q' \<Longrightarrow>
     sorted_wrt (\<lambda>x y. beyond (o_price x) \<longrightarrow> beyond (o_price y)) rs \<Longrightarrow> r \<in> set rs' \<Longrightarrow>
     beyond (o_price r)"
  by (induction rule: spec_match_induct) auto

end
