(* ===== verification/BookRep.thy ===== *)
theory BookRep
  imports OrderBook BookSpec
begin

text \<open>
  How the memory of an order book represents an abstract book: a level and its slots, a side and
  the slots of its levels, and the order index. The lemmas say how writes to the slot array and
  updates of the index move these facts along.
\<close>

section \<open>Levels\<close>

definition level_rep :: "Order list \<Rightarrow> Side \<Rightarrow> PriceLevel \<Rightarrow> nat list \<Rightarrow> bool" where
  "level_rep h s pl xs \<longleftrightarrow> xs \<noteq> [] \<and> level_links h pl xs \<and> level_total h pl xs \<and>
     (\<forall>i \<in> set xs. o_price (h ! i) = pl_price pl \<and> o_side (h ! i) = s \<and> 0 < o_quantity (h ! i))"

definition levels_rep :: "Order list \<Rightarrow> Side \<Rightarrow> PriceLevel list \<Rightarrow> nat list list \<Rightarrow> bool" where
  "levels_rep h s ls xss \<longleftrightarrow> list_all2 (level_rep h s) ls xss"

text \<open>The orders of a side in priority order: the best level is the last of the vector.\<close>

definition abs_slots :: "Order list \<Rightarrow> nat list list \<Rightarrow> Order list" where
  "abs_slots h xss = map (\<lambda>i. payload (h ! i)) (concat (rev xss))"

lemma level_rep_bound: "level_rep h s pl xs \<Longrightarrow> i \<in> set xs \<Longrightarrow> i < length h"
  by (auto simp: level_rep_def intro: level_links_bound)

lemma level_rep_outside:
  assumes "same_outside A h' h" and "A \<inter> set xs = {}"
  shows "level_rep h' s pl xs = level_rep h s pl xs"
proof -
  have "\<And>i. i \<in> set xs \<Longrightarrow> h' ! i = h ! i"
    using assms by (auto simp: same_outside_def)
  then show ?thesis
    using level_links_outside [OF assms] level_total_outside [OF assms] by (simp add: level_rep_def)
qed

lemma levels_rep_outside:
  assumes "same_outside A h' h" and "A \<inter> set (concat xss) = {}" and "levels_rep h s ls xss"
  shows "levels_rep h' s ls xss"
  using assms(3) unfolding levels_rep_def
proof (rule list.rel_mono_strong)
  fix pl xs
  assume "xs \<in> set xss" and "level_rep h s pl xs"
  then show "level_rep h' s pl xs"
    using assms(1,2) level_rep_outside [of A h' h xs s pl] by auto
qed

lemma levels_rep_bound: "levels_rep h s ls xss \<Longrightarrow> i \<in> set (concat xss) \<Longrightarrow> i < length h"
  unfolding levels_rep_def list_all2_conv_all_nth
  by (fastforce simp: in_set_conv_nth intro: level_rep_bound)

lemma levels_rep_snoc [simp]:
  "levels_rep h s (ls @ [pl]) (xss @ [xs]) \<longleftrightarrow> levels_rep h s ls xss \<and> level_rep h s pl xs"
  unfolding levels_rep_def by (subst list_all2_rev [symmetric]) auto

lemma levels_rep_append:
  "length ls = length xss \<Longrightarrow>
     levels_rep h s (ls @ ls') (xss @ xss') \<longleftrightarrow> levels_rep h s ls xss \<and> levels_rep h s ls' xss'"
  by (simp add: levels_rep_def list_all2_append)

lemma levels_rep_Cons [simp]:
  "levels_rep h s (pl # ls) (xs # xss) \<longleftrightarrow> level_rep h s pl xs \<and> levels_rep h s ls xss"
  by (simp add: levels_rep_def)

lemma levels_rep_Nil [simp]: "levels_rep h s [] xss \<longleftrightarrow> xss = []" "levels_rep h s ls [] \<longleftrightarrow> ls = []"
  by (auto simp: levels_rep_def)

lemma levels_rep_length: "levels_rep h s ls xss \<Longrightarrow> length ls = length xss"
  by (auto simp: levels_rep_def dest: list_all2_lengthD)

lemma levels_rep_take_last:
  assumes "levels_rep h s (take n ls) xss" and "0 < n" and "n \<le> length ls"
  obtains yss xs where "xss = yss @ [xs]" and "levels_rep h s (take (n - 1) ls) yss"
    and "level_rep h s (ls ! (n - 1)) xs"
proof (cases xss rule: rev_cases)
  case Nil
  with assms show thesis by simp
next
  case (snoc yss xs)
  with assms that show thesis by (simp add: take_Suc_last [OF assms(2,3)])
qed

lemma abs_slots_snoc [simp]:
  "abs_slots h (xss @ [xs]) = map (\<lambda>i. payload (h ! i)) xs @ abs_slots h xss"
  by (simp add: abs_slots_def)

lemma abs_slots_Nil [simp]: "abs_slots h [] = []"
  by (simp add: abs_slots_def)

lemma abs_slots_append: "abs_slots h (xss @ yss) = abs_slots h yss @ abs_slots h xss"
  by (simp add: abs_slots_def)

lemma abs_slots_cong:
  "(\<And>i. i \<in> set (concat xss) \<Longrightarrow> payload (h' ! i) = payload (h ! i)) \<Longrightarrow> abs_slots h' xss = abs_slots h xss"
  by (auto simp: abs_slots_def)

lemma abs_slots_outside:
  "same_outside A h' h \<Longrightarrow> A \<inter> set (concat xss) = {} \<Longrightarrow> abs_slots h' xss = abs_slots h xss"
  unfolding same_outside_def by (rule abs_slots_cong) (metis disjoint_iff)

text \<open>Writing a quantity leaves every other field of every order alone.\<close>

definition set_qty :: "Order list \<Rightarrow> nat \<Rightarrow> u32 \<Rightarrow> Order list" where
  "set_qty h i q = h[i := (h ! i)\<lparr>o_quantity := q\<rparr>]"

lemma set_qty_length [simp]: "length (set_qty h i q) = length h"
  by (simp add: set_qty_def)

lemma set_qty_nth: "set_qty h i q ! j = (if i = j \<and> i < length h then (h ! i)\<lparr>o_quantity := q\<rparr> else h ! j)"
  by (cases "i < length h") (auto simp: set_qty_def nth_list_update list_update_beyond)

lemma set_qty_fields [simp]:
  "o_orderId (set_qty h i q ! j) = o_orderId (h ! j)" "o_price (set_qty h i q ! j) = o_price (h ! j)"
  "o_sequence (set_qty h i q ! j) = o_sequence (h ! j)" "o_side (set_qty h i q ! j) = o_side (h ! j)"
  "o_participantId (set_qty h i q ! j) = o_participantId (h ! j)"
  "o_next (set_qty h i q ! j) = o_next (h ! j)" "o_prev (set_qty h i q ! j) = o_prev (h ! j)"
  by (simp_all add: set_qty_nth)

lemma set_qty_outside [simp]: "i \<in> A \<Longrightarrow> same_outside A (set_qty h i q) h"
  by (auto simp: same_outside_def set_qty_nth)

lemma dll_set_qty [simp]: "dll (set_qty h i q) p a xs l n = dll h p a xs l n"
  by (rule dll_cong) simp_all

lemma wr_set_qty [simp]: "i < length h \<Longrightarrow> wr h i (\<lambda>x. x\<lparr>o_quantity := g x\<rparr>) = Inr (set_qty h i (g (h ! i)))"
  by (simp add: set_qty_def)

lemma pool_rep_set_qty:
  "pool_rep p fr \<Longrightarrow> pool_rep (p\<lparr>op_orders := set_qty (op_orders p) i q\<rparr>) fr"
  by (rule pool_rep_write) simp_all

lemma pool_rep_outside:
  assumes "pool_rep p fr" and "same_outside A h (op_orders p)" and "A \<inter> set fr = {}"
  shows "pool_rep (p\<lparr>op_orders := h\<rparr>) fr"
  using assms by (intro pool_rep_write) (auto simp: same_outside_def disjoint_iff)

text \<open>The filling of the front order by \<open>f\<close> when something of it is left.\<close>

lemma level_rep_part:
  assumes "level_rep h s pl (r # ys)" and "f < o_quantity (h ! r)"
  shows "level_rep (set_qty h r (o_quantity (h ! r) - f)) s
    (pl\<lparr>pl_totalQuantity := pl_totalQuantity pl - f\<rparr>) (r # ys)" (is "level_rep ?h s ?pl _")
proof -
  have r: "r < length h" "r \<notin> set ys" "level_links h pl (r # ys)"
    using assms(1) by (auto simp: level_rep_def level_links_def)
  have "level_links ?h ?pl (r # ys)"
    using r by (simp add: level_links_def)
  moreover have "map (\<lambda>i. o_quantity (?h ! i)) ys = map (\<lambda>i. o_quantity (h ! i)) ys"
    using r by (auto simp: set_qty_nth)
  then have "level_total ?h ?pl (r # ys)"
    using assms(1) r by (simp add: level_rep_def level_total_def set_qty_nth algebra_simps del: map_eq_conv)
  moreover have "0 < o_quantity (h ! r) - f"
    using assms(2) by (simp add: word_gt_0)
  ultimately show ?thesis
    using assms(1) r unfolding level_rep_def by (auto simp: set_qty_nth)
qed

section \<open>The order index\<close>

text \<open>The index maps the ids of the resting orders, the slots \<open>R\<close>, to their slots, and nothing else.\<close>

definition index_rep :: "(u64, nat) umap \<Rightarrow> Order list \<Rightarrow> nat list \<Rightarrow> bool" where
  "index_rep idx h R \<longleftrightarrow> um_ok idx \<and>
     (\<forall>(k, i) \<in> set idx. i \<in> set R \<and> o_orderId (h ! i) = k) \<and>
     (\<forall>i \<in> set R. um_find idx (o_orderId (h ! i)) = Some i)"

lemma index_rep_iff:
  "index_rep idx h R \<longleftrightarrow>
     um_ok idx \<and> (\<forall>k i. um_find idx k = Some i \<longleftrightarrow> i \<in> set R \<and> o_orderId (h ! i) = k)"
proof (cases "um_ok idx")
  case ok: True
  show ?thesis
  proof
    assume rep: "index_rep idx h R"
    have "i \<in> set R \<and> o_orderId (h ! i) = k" if "um_find idx k = Some i" for k i
      using rep that um_entry [OF ok, of k i] by (auto simp: index_rep_def)
    moreover have "um_find idx (o_orderId (h ! i)) = Some i" if "i \<in> set R" for i
      using rep that by (simp add: index_rep_def)
    ultimately show "um_ok idx \<and> (\<forall>k i. um_find idx k = Some i \<longleftrightarrow> i \<in> set R \<and> o_orderId (h ! i) = k)"
      using ok by blast
  next
    assume "um_ok idx \<and> (\<forall>k i. um_find idx k = Some i \<longleftrightarrow> i \<in> set R \<and> o_orderId (h ! i) = k)"
    then show "index_rep idx h R"
      using um_entry [OF ok] by (auto simp: index_rep_def)
  qed
qed (simp add: index_rep_def)

lemma index_rep_find:
  "index_rep idx h R \<Longrightarrow> um_find idx k = Some i \<longleftrightarrow> i \<in> set R \<and> o_orderId (h ! i) = k"
  by (simp add: index_rep_iff)

lemma index_rep_none:
  "index_rep idx h R \<Longrightarrow> um_find idx k = None \<longleftrightarrow> (\<forall>i \<in> set R. o_orderId (h ! i) \<noteq> k)"
  using index_rep_find [of idx h R k] by (cases "um_find idx k") auto

lemma abs_slots_ids: "o_orderId ` set (abs_slots h xss) = (\<lambda>i. o_orderId (h ! i)) ` set (concat xss)"
  by (simp only: abs_slots_def set_map image_image payload_fields set_concat set_rev)

lemma index_rep_fresh:
  "index_rep idx h (concat xss @ concat yss) \<Longrightarrow> um_find idx k = None \<longleftrightarrow>
     k \<notin> o_orderId ` set (abs_slots h xss) \<and> k \<notin> o_orderId ` set (abs_slots h yss)"
  unfolding abs_slots_ids by (auto simp: index_rep_none)

lemma index_rep_inj: "index_rep idx h R \<Longrightarrow> inj_on (\<lambda>i. o_orderId (h ! i)) (set R)"
  unfolding index_rep_def inj_on_def by (metis option.inject)

lemma index_rep_cong:
  assumes "index_rep idx h R" and "set R' = set R"
    and "\<And>i. i \<in> set R \<Longrightarrow> o_orderId (h' ! i) = o_orderId (h ! i)"
  shows "index_rep idx h' R'"
  using assms unfolding index_rep_iff by metis

lemma index_rep_erase:
  assumes "index_rep idx h R" and "r \<in> set R" and "set R' = set R - {r}"
    and "\<And>i. i \<in> set R \<Longrightarrow> o_orderId (h' ! i) = o_orderId (h ! i)" and "k = o_orderId (h ! r)"
  shows "index_rep (um_erase idx k) h' R'"
proof -
  have ok: "um_ok idx" using assms(1) by (simp add: index_rep_def)
  have r: "um_find idx k = Some r" using assms by (simp add: index_rep_find)
  have "um_find (um_erase idx k) j = Some i \<longleftrightarrow> i \<in> set R' \<and> o_orderId (h' ! i) = j" for j i
  proof (cases "j = k")
    case True
    have "i = r" if "i \<in> set R" "o_orderId (h ! i) = k"
      using that r assms(1) by (metis index_rep_find option.inject)
    with True assms(3,4) show ?thesis by (auto simp: um.find_erase [OF ok])
  next
    case False
    with assms show ?thesis by (auto simp: um.find_erase [OF ok] index_rep_find)
  qed
  with ok show ?thesis by (simp add: index_rep_iff um.ok_erase)
qed

lemma index_rep_emplace:
  assumes "index_rep idx h R" and "set R' = insert r (set R)" and "r \<notin> set R"
    and "\<And>i. i \<in> set R \<Longrightarrow> o_orderId (h' ! i) = o_orderId (h ! i)"
    and "o_orderId (h' ! r) = k" and "um_find idx k = None"
  shows "index_rep (um_emplace idx k r) h' R'"
proof -
  have ok: "um_ok idx" using assms(1) by (simp add: index_rep_def)
  have "um_find (um_emplace idx k r) j = Some i \<longleftrightarrow> i \<in> set R' \<and> o_orderId (h' ! i) = j" for j i
  proof (cases "j = k")
    case True
    have "o_orderId (h ! i) \<noteq> k" if "i \<in> set R"
      using that assms(6) index_rep_none [OF assms(1)] by simp
    with True assms show ?thesis by (auto simp: um.find_emplace [OF ok])
  next
    case False
    with assms show ?thesis by (auto simp: um.find_emplace [OF ok] index_rep_find)
  qed
  with ok show ?thesis by (simp add: index_rep_iff um.ok_emplace)
qed

lemma index_rep_set_qty: "index_rep idx h R \<Longrightarrow> index_rep idx (set_qty h i q) R"
  by (rule index_rep_cong) simp_all

section \<open>Retiring the front order\<close>

lemma retire_run:
  assumes pool: "pool_rep (ob_pool b) fr" and links: "level_links (heap b) pl (r # ys)"
    and disj: "set (r # ys) \<inter> set fr = {}"
  obtains pl' p' where "retire dbg b pl r =
      Inr (pl', b\<lparr>ob_pool := p', ob_orderIndex := um_erase (ob_orderIndex b) (o_orderId (heap b ! r))\<rparr>)"
    and "pool_rep p' (r # fr)" and "op_capacity p' = op_capacity (ob_pool b)"
    and "level_links (op_orders p') pl' ys"
    and "same_payloads (op_orders p') (heap b)" and "same_outside (set (r # ys)) (op_orders p') (heap b)"
    and "pl_price pl' = pl_price pl"
    and "pl_totalQuantity pl' = pl_totalQuantity pl - o_quantity (heap b ! r)"
proof -
  obtain h' pl' where run: "remove (heap b) pl r = Inr (h', pl')"
    and links': "level_links h' pl' ys" and pay: "same_payloads h' (heap b)"
    and out: "same_outside (set (r # ys)) h' (heap b)"
    and pl': "pl_price pl' = pl_price pl"
      "pl_totalQuantity pl' = pl_totalQuantity pl - o_quantity (heap b ! r)"
    using remove_run [of "heap b" pl "[]" r ys] links by (metis append_Nil)
  have r: "r < length (heap b)" "r < length h'" "r \<notin> set ys"
    using links pay by (auto simp: level_links_def same_payloads_def)
  let ?p = "(ob_pool b)\<lparr>op_orders := h'\<rparr>"
  have "pool_rep ?p fr"
    using pool out disj by (intro pool_rep_write) (auto simp: same_outside_def)
  then have dealloc: "deallocate dbg (Some r) ?p = Inr (pool_given ?p r)"
    and rep: "pool_rep (pool_given ?p r) (r # fr)"
    using r disj by (auto intro: deallocate_run deallocate_rep)
  have oid: "o_orderId (h' ! r) = o_orderId (heap b ! r)"
    using pay r by (auto simp: same_payloads_def dest: payload_eqD(1))
  let ?q = "pool_given ?p r"
  have given: "op_orders ?q = h'[r := (h' ! r)\<lparr>o_next := op_freeList (ob_pool b)\<rparr>]" by simp
  show thesis
  proof (rule that)
    show "retire dbg b pl r = Inr (pl', b\<lparr>ob_pool := ?q,
        ob_orderIndex := um_erase (ob_orderIndex b) (o_orderId (heap b ! r))\<rparr>)"
      using r by (simp add: retire_def run dealloc oid)
    show "level_links (op_orders ?q) pl' ys"
      using links' r unfolding given by (simp add: level_links_def)
    show "same_payloads (op_orders ?q) (heap b)"
      using pay r unfolding given same_payloads_def by (auto simp: nth_list_update)
    show "same_outside (set (r # ys)) (op_orders ?q) (heap b)"
      using out unfolding given by (auto simp: same_outside_def)
  qed (use rep pl' in simp_all)
qed

end
