(* ===== verification/BookMatch.thy ===== *)
theory BookMatch
  imports BookRep
begin

text \<open>
  The two matching loops against \<open>spec_match\<close>. The code writes them twice, once for either side;
  the locale \<open>match_side\<close> states what they share, a vector of levels of the book and a loop that
  satisfies one equation over it, and its lemmas are proved once. \<open>matchBuy_loop\<close> on the asks and
  \<open>matchSell_loop\<close> on the bids interpret it.
\<close>

section \<open>A side of the book\<close>

locale book_side =
  fixes lv :: "OrderBook \<Rightarrow> PriceLevel list"
    and set_lv :: "PriceLevel list \<Rightarrow> OrderBook \<Rightarrow> OrderBook"
    and worse :: "u32 \<Rightarrow> u32 \<Rightarrow> bool"
  assumes lv_set [simp]: "lv (set_lv ls b) = ls"
    and pool_set [simp]: "ob_pool (set_lv ls b) = ob_pool b"
    and index_set [simp]: "ob_orderIndex (set_lv ls b) = ob_orderIndex b"
    and sequence_set [simp]: "ob_sequence (set_lv ls b) = ob_sequence b"
    and lv_pool [simp]: "lv (b\<lparr>ob_pool := p\<rparr>) = lv b"
    and lv_index [simp]: "lv (b\<lparr>ob_orderIndex := idx\<rparr>) = lv b"
    and set_set [simp]: "set_lv ls' (set_lv ls b) = set_lv ls' b"
    and set_pool [simp]: "(set_lv ls b)\<lparr>ob_pool := p\<rparr> = set_lv ls (b\<lparr>ob_pool := p\<rparr>)"
    and set_index [simp]: "(set_lv ls b)\<lparr>ob_orderIndex := idx\<rparr> = set_lv ls (b\<lparr>ob_orderIndex := idx\<rparr>)"
    and set_same [simp]: "set_lv (lv b) b = b"
    and worse_irrefl: "\<not> worse x x"
    and worse_trans: "worse x y \<Longrightarrow> worse y z \<Longrightarrow> worse x z"
    and worse_total: "x \<noteq> y \<Longrightarrow> worse x y \<or> worse y x"

interpretation bid_side: book_side ob_bids "\<lambda>ls b. b\<lparr>ob_bids := ls\<rparr>" "(<)"
  by unfold_locales auto

interpretation ask_side: book_side ob_asks "\<lambda>ls b. b\<lparr>ob_asks := ls\<rparr>" "(>)"
  by unfold_locales auto

section \<open>The state of a matching loop\<close>

text \<open>
  \<open>xss\<close> are the slots of the levels still in play, \<open>Q\<close> the resting orders of the other side and
  \<open>fr\<close> the free slots; the incoming order has a slot of its own.
\<close>

definition match_state :: "Side \<Rightarrow> OrderBook \<Rightarrow> PriceLevel list \<Rightarrow> nat \<Rightarrow> nat \<Rightarrow>
    nat list list \<Rightarrow> nat list \<Rightarrow> nat list \<Rightarrow> bool" where
  "match_state s b ls n inc xss Q fr \<longleftrightarrow>
     n \<le> length ls \<and> levels_rep (heap b) s (take n ls) xss \<and> distinct (concat xss) \<and>
     pool_rep (ob_pool b) fr \<and> index_rep (ob_orderIndex b) (heap b) (concat xss @ Q) \<and>
     inc < length (heap b) \<and> inc \<notin> set (concat xss) \<union> set Q \<union> set fr \<and>
     set (concat xss) \<inter> set Q = {} \<and> (set (concat xss) \<union> set Q) \<inter> set fr = {}"

text \<open>What a run of the loop has kept and done so far, with \<open>q'\<close> left of the incoming order.\<close>

definition match_moved :: "OrderBook \<Rightarrow> PriceLevel list \<Rightarrow> nat \<Rightarrow> nat \<Rightarrow> nat list list \<Rightarrow> nat list \<Rightarrow>
    u32 \<Rightarrow> OrderBook \<Rightarrow> PriceLevel list \<Rightarrow> nat \<Rightarrow> nat list list \<Rightarrow> nat list \<Rightarrow> bool" where
  "match_moved b ls n inc xss fr q' b' ls' n' xss' fr' \<longleftrightarrow>
     n' \<le> n \<and> map pl_price (take n' ls') = map pl_price (take n' ls) \<and>
     op_capacity (ob_pool b') = op_capacity (ob_pool b) \<and>
     set (concat xss') \<subseteq> set (concat xss) \<and>
     set fr' = set fr \<union> (set (concat xss) - set (concat xss')) \<and>
     same_outside (insert inc (set (concat xss))) (heap b') (heap b) \<and>
     payload (heap b' ! inc) = (payload (heap b ! inc))\<lparr>o_quantity := q'\<rparr>"

lemma match_moved_trans:
  assumes "match_moved b ls n inc xss fr q1 b1 ls1 n1 xss1 fr1"
    and "match_moved b1 ls1 n1 inc xss1 fr1 q2 b2 ls2 n2 xss2 fr2"
  shows "match_moved b ls n inc xss fr q2 b2 ls2 n2 xss2 fr2"
  unfolding match_moved_def
proof (intro conjI)
  note 1 = assms(1) [unfolded match_moved_def] and 2 = assms(2) [unfolded match_moved_def]
  have cut: "map pl_price (take n2 l) = take n2 (map pl_price (take n1 l))" for l
    using 2 by (simp add: take_map min_absorb1)
  have "map pl_price (take n2 ls1) = map pl_price (take n2 ls)"
    using 1 unfolding cut by simp
  with 2 show "map pl_price (take n2 ls2) = map pl_price (take n2 ls)" by simp
  show "set (concat xss2) \<subseteq> set (concat xss)"
    using 1 2 by (meson subset_trans)
  show "set fr2 = set fr \<union> (set (concat xss) - set (concat xss2))"
    using 1 2 by blast
  have out1: "same_outside (insert inc (set (concat xss))) (heap b1) (heap b)"
    and out2: "same_outside (insert inc (set (concat xss1))) (heap b2) (heap b1)"
    using 1 2 by simp_all
  have sub: "insert inc (set (concat xss1)) \<subseteq> insert inc (set (concat xss))"
    using 1 by (intro insert_mono) blast
  show "same_outside (insert inc (set (concat xss))) (heap b2) (heap b)"
    by (rule same_outside_trans [OF out2 out1 subset_refl sub])
  show "n2 \<le> n" "op_capacity (ob_pool b2) = op_capacity (ob_pool b)"
    "payload (heap b2 ! inc) = (payload (heap b ! inc))\<lparr>o_quantity := q2\<rparr>"
    using 1 2 by simp_all
qed

lemma match_moved_refl:
  "q' = o_quantity (heap b ! inc) \<Longrightarrow> match_moved b ls n inc xss fr q' b ls n xss fr"
  by (simp add: match_moved_def same_outside_def payload_def)

lemma match_take:
  assumes "n' \<le> length ls'"
  shows "match_state s b (take n' ls') (length (take n' ls')) inc xss Q fr = match_state s b ls' n' inc xss Q fr"
    and "match_moved b0 ls n inc xss fr q b (take n' ls') (length (take n' ls')) xss' fr' =
      match_moved b0 ls n inc xss fr q b ls' n' xss' fr'"
  using assms by (simp_all add: match_state_def match_moved_def min_absorb2)

text \<open>A self match: the incoming order loses its quantity, nothing else moves.\<close>

lemma match_self_step:
  assumes st: "match_state s b ls n inc xss Q fr" and h: "h = set_qty (heap b) inc 0"
  shows "match_state s (set_heap h b) ls n inc xss Q fr"
    and "match_moved b ls n inc xss fr 0 (set_heap h b) ls n xss fr"
    and "abs_slots h xss = abs_slots (heap b) xss"
proof -
  note d = st [unfolded match_state_def]
  have "levels_rep h s (take n ls) xss"
    using d by (intro levels_rep_outside [of "{inc}" h "heap b"]) (auto simp: h)
  with d show "match_state s (set_heap h b) ls n inc xss Q fr"
    by (simp add: match_state_def h pool_rep_set_qty index_rep_set_qty)
  show "match_moved b ls n inc xss fr 0 (set_heap h b) ls n xss fr"
    using d by (simp add: match_moved_def h payload_quantity set_qty_nth)
  show "abs_slots h xss = abs_slots (heap b) xss"
    using d by (intro abs_slots_cong) (auto simp: h set_qty_nth)
qed

text \<open>A fill that leaves something of the order in front.\<close>

lemma match_part_step:
  assumes st: "match_state s b ls n inc xss Q fr" and xss: "xss = yss @ [r # ys]" and n: "0 < n"
    and pl: "pl = ls ! (n - 1)" and f: "f < o_quantity (heap b ! r)"
    and h: "h = set_qty (set_qty (heap b) inc q) r (o_quantity (heap b ! r) - f)"
    and pl1: "pl1 = pl\<lparr>pl_totalQuantity := pl_totalQuantity pl - f\<rparr>"
  shows "match_state s (set_heap h b) (ls[n - 1 := pl1]) n inc xss Q fr"
    and "match_moved b ls n inc xss fr q (set_heap h b) (ls[n - 1 := pl1]) n xss fr"
    and "abs_slots h xss = (payload (heap b ! r))\<lparr>o_quantity := o_quantity (heap b ! r) - f\<rparr> #
           tl (abs_slots (heap b) xss)"
proof -
  note d = st [unfolded match_state_def]
  let ?h0 = "set_qty (heap b) inc q"
  have neq: "r \<noteq> inc" "r < length (heap b)" and n': "n \<le> length ls"
    and rest: "r \<notin> set (concat yss)" "r \<notin> set ys"
    using d xss levels_rep_bound [of "heap b" s "take n ls" xss r] by auto
  have yss: "levels_rep (heap b) s (take (n - 1) ls) yss" and top: "level_rep (heap b) s pl (r # ys)"
    using d n n' unfolding xss pl by (simp_all add: take_Suc_last [OF n n'])
  have "level_rep ?h0 s pl (r # ys)"
    using top d xss by (subst level_rep_outside [of "{inc}" _ "heap b"]) auto
  from level_rep_part [OF this, of f] have "level_rep h s pl1 (r # ys)"
    using f neq by (simp add: h pl1 set_qty_nth)
  moreover have "same_outside {inc, r} h (heap b)"
    unfolding h by (rule same_outside_trans [of "{r}" _ ?h0 "{inc}"]) auto
  then have "levels_rep h s (take (n - 1) ls) yss"
    using yss d xss rest by (intro levels_rep_outside [of "{inc, r}" h "heap b"]) auto
  ultimately have "levels_rep h s (take n (ls[n - 1 := pl1])) xss"
    using n n' by (simp add: xss take_Suc_last)
  moreover have "pool_rep ((ob_pool b)\<lparr>op_orders := h\<rparr>) fr"
    using d by (intro pool_rep_write) (auto simp: h)
  moreover have "index_rep (ob_orderIndex b) h (concat xss @ Q)"
    using d by (simp add: h index_rep_set_qty)
  ultimately show "match_state s (set_heap h b) (ls[n - 1 := pl1]) n inc xss Q fr"
    using d by (simp add: match_state_def h)
  have "map pl_price (take n (ls[n - 1 := pl1])) = map pl_price (take n ls)"
    using n n' by (simp add: take_Suc_last pl1 pl)
  then show "match_moved b ls n inc xss fr q (set_heap h b) (ls[n - 1 := pl1]) n xss fr"
    using d neq xss \<open>same_outside {inc, r} h (heap b)\<close>
    by (auto simp: match_moved_def same_outside_def h set_qty_nth payload_quantity)
  have "abs_slots h yss = abs_slots (heap b) yss" "map (\<lambda>i. payload (h ! i)) ys = map (\<lambda>i. payload (heap b ! i)) ys"
    using d rest xss by (auto simp: h set_qty_nth intro!: abs_slots_cong)
  then show "abs_slots h xss = (payload (heap b ! r))\<lparr>o_quantity := o_quantity (heap b ! r) - f\<rparr> #
           tl (abs_slots (heap b) xss)"
    using neq by (simp add: xss h set_qty_nth payload_quantity)
qed

text \<open>A fill that uses up the order in front, which is then retired.\<close>

lemma match_full_step:
  assumes st: "match_state s b ls n inc xss Q fr" and xss: "xss = yss @ [r # ys]" and n: "0 < n"
    and pl: "pl = ls ! (n - 1)"
    and h: "h = set_qty (set_qty (heap b) inc q) r 0"
    and pl1: "pl1 = pl\<lparr>pl_totalQuantity := pl_totalQuantity pl - o_quantity (heap b ! r)\<rparr>"
    and n1: "n1 = (if ys = [] then n - 1 else n)" and xss1: "xss1 = (if ys = [] then yss else yss @ [ys])"
  obtains pl' p' idx' where
    "retire dbg (set_heap h b) pl1 r = Inr (pl', b\<lparr>ob_pool := p', ob_orderIndex := idx'\<rparr>)"
    and "pl_head pl' = None \<longleftrightarrow> ys = []"
    and "match_state s (b\<lparr>ob_pool := p', ob_orderIndex := idx'\<rparr>) (ls[n - 1 := pl']) n1 inc xss1 Q (r # fr)"
    and "match_moved b ls n inc xss fr q (b\<lparr>ob_pool := p', ob_orderIndex := idx'\<rparr>)
           (ls[n - 1 := pl']) n1 xss1 (r # fr)"
    and "abs_slots (op_orders p') xss1 = tl (abs_slots (heap b) xss)"
proof -
  note d = st [unfolded match_state_def]
  have n': "n \<le> length ls" and dist: "distinct (concat yss @ r # ys)"
    and disj: "set (concat yss @ r # ys) \<inter> (set Q \<union> set fr) = {}" and qfr: "set Q \<inter> set fr = {}"
    and inc: "inc < length (heap b)" "inc \<notin> set (concat yss @ r # ys) \<union> set Q \<union> set fr"
    using d by (auto simp: xss)
  have yss: "levels_rep (heap b) s (take (n - 1) ls) yss" and top: "level_rep (heap b) s pl (r # ys)"
    using d n n' unfolding xss pl by (simp_all add: take_Suc_last [OF n n'])
  have r: "r < length (heap b)" "\<And>j. j \<in> set ys \<Longrightarrow> j < length (heap b)"
    using top by (auto dest: level_rep_bound)
  let ?b = "set_heap h b"
  have "pool_rep (ob_pool ?b) fr"
    using d by (auto simp: h intro!: pool_rep_write)
  moreover have "level_links (heap ?b) pl1 (r # ys)"
    using top by (simp add: level_rep_def level_links_def h pl1)
  ultimately obtain pl' p' where
    run: "retire dbg ?b pl1 r = Inr (pl', ?b\<lparr>ob_pool := p',
        ob_orderIndex := um_erase (ob_orderIndex ?b) (o_orderId (heap ?b ! r))\<rparr>)"
    and pool': "pool_rep p' (r # fr)" "op_capacity p' = op_capacity (ob_pool ?b)"
    and links': "level_links (op_orders p') pl' ys"
    and pay: "same_payloads (op_orders p') (heap ?b)"
    and out: "same_outside (set (r # ys)) (op_orders p') (heap ?b)"
    and pl': "pl_price pl' = pl_price pl1" "pl_totalQuantity pl' = pl_totalQuantity pl1 - o_quantity (heap ?b ! r)"
    using disj by (elim retire_run) auto
  let ?h = "op_orders p'"
  let ?idx = "um_erase (ob_orderIndex b) (o_orderId (heap b ! r))"
  have len: "length ?h = length (heap b)"
    using pay by (simp add: same_payloads_def h)
  have payl: "payload (?h ! j) = payload (h ! j)" if "j < length (heap b)" for j
    using pay that by (simp add: same_payloads_def h)
  have payb: "payload (?h ! j) = payload (heap b ! j)" if "j < length (heap b)" "j \<noteq> r" "j \<noteq> inc" for j
    using payl [OF that(1)] that by (simp add: h set_qty_nth)
  have frame: "same_outside (insert inc (set (r # ys))) ?h (heap b)"
    using out by (auto simp: same_outside_def h set_qty_nth)
  have ids: "o_orderId (?h ! j) = o_orderId (heap b ! j)" for j
  proof (cases "j \<in> insert inc (set (r # ys))")
    case True
    with r inc have "j < length (heap b)" by auto
    from payload_eqD(1) [OF payl [OF this]] show ?thesis by (simp add: h)
  next
    case False
    with frame show ?thesis by (simp add: same_outside_def)
  qed
  have newtop: "level_rep ?h s pl' ys" if "ys \<noteq> []"
  proof -
    have q: "o_quantity (?h ! j) = o_quantity (heap b ! j)" "o_price (?h ! j) = o_price (heap b ! j)"
      "o_side (?h ! j) = o_side (heap b ! j)" if "j \<in> set ys" for j
      using payload_eqD [OF payb [of j]] that r(2) dist inc by auto
    then have "map (\<lambda>i. o_quantity (?h ! i)) ys = map (\<lambda>i. o_quantity (heap b ! i)) ys"
      by (intro map_cong) auto
    then have "level_total ?h pl' ys"
      using top pl' r by (simp add: level_rep_def level_total_def pl1 h set_qty_nth del: map_eq_conv)
    with that links' top q pl' show ?thesis by (auto simp: level_rep_def pl1)
  qed
  have "levels_rep ?h s (take (n - 1) ls) yss"
    using yss dist inc by (intro levels_rep_outside [OF frame]) auto
  then have levels: "levels_rep ?h s (take n1 (ls[n - 1 := pl'])) xss1"
    using newtop n n' by (simp add: n1 xss1 take_Suc_last)
  have idx: "index_rep ?idx ?h (concat xss1 @ Q)"
  proof (rule index_rep_erase [of _ "heap b" "concat xss @ Q" r])
    show "index_rep (ob_orderIndex b) (heap b) (concat xss @ Q)" using d by simp
    show "set (concat xss1 @ Q) = set (concat xss @ Q) - {r}"
      using dist disj by (auto simp: xss xss1)
  qed (use ids in \<open>auto simp: xss\<close>)
  let ?b' = "b\<lparr>ob_pool := p', ob_orderIndex := ?idx\<rparr>"
  show thesis
  proof (rule that)
    show "retire dbg ?b pl1 r = Inr (pl', ?b')"
      using run by (simp add: h)
    show "pl_head pl' = None \<longleftrightarrow> ys = []"
      using level_links_head [OF links'] by (cases ys) auto
    show "match_state s ?b' (ls[n - 1 := pl']) n1 inc xss1 Q (r # fr)"
      using levels idx pool' dist disj qfr inc len n' unfolding match_state_def n1 xss1 by auto
    have "map pl_price (take n1 (ls[n - 1 := pl'])) = map pl_price (take n1 ls)"
      using n n' by (simp add: n1 take_Suc_last pl' pl1 pl)
    moreover have "payload (?h ! inc) = (payload (heap b ! inc))\<lparr>o_quantity := q\<rparr>"
      using payl [OF inc(1)] inc by (simp add: h set_qty_nth payload_quantity)
    ultimately show "match_moved b ls n inc xss fr q ?b' (ls[n - 1 := pl']) n1 xss1 (r # fr)"
      using pool' dist disj same_outside_mono [OF frame, of "insert inc (set (concat xss))"]
      unfolding match_moved_def by (auto simp: n1 xss1 xss)
    have "abs_slots ?h yss = abs_slots (heap b) yss" 
      using dist inc levels_rep_bound [OF yss] by (intro abs_slots_cong payb) auto
    moreover have "map (\<lambda>i. payload (?h ! i)) ys = map (\<lambda>i. payload (heap b ! i)) ys"
      using dist inc r by (intro map_cong payb) auto
    ultimately show "abs_slots ?h xss1 = tl (abs_slots (heap b) xss)"
      by (simp add: xss xss1 del: map_eq_conv)
  qed
qed

section \<open>Matching against a side\<close>

locale match_side = book_side +
  fixes beyond :: "u32 \<Rightarrow> u32 \<Rightarrow> bool"
    and trade :: "u64 \<Rightarrow> u64 \<Rightarrow> u32 \<Rightarrow> u32 \<Rightarrow> Trade"
    and loop :: "bool \<Rightarrow> (Trade \<Rightarrow> 'c \<Rightarrow> 'c) \<Rightarrow> nat \<Rightarrow> u32 \<Rightarrow> nat \<Rightarrow> nat \<Rightarrow> OrderBook \<Rightarrow> 'c \<Rightarrow>
        fault + nat \<times> OrderBook \<times> 'c"
    and match :: "bool \<Rightarrow> (Trade \<Rightarrow> 'c \<Rightarrow> 'c) \<Rightarrow> nat \<Rightarrow> OrderBook \<Rightarrow> 'c \<Rightarrow> fault + OrderBook \<times> 'c"
  assumes match_eq: "match dbg onTrade incoming b c =
     (if lv b = [] then Inr (b, c)
      else bindR (rd (heap b) incoming) (\<lambda>inc.
           bindR (loop dbg onTrade (Suc (length (heap b))) (o_price inc) incoming
                    (length (lv b)) b c) (\<lambda>(numLevels, b, c).
           Inr (set_lv (take numLevels (lv b)) b, c))))"
    and loop_Suc: "loop dbg onTrade (Suc fuel) incomingPrice incoming numLevels b c =
     bindR (rd (heap b) incoming) (\<lambda>inc.
     if \<not> (0 < o_quantity inc \<and> 0 < numLevels) then Inr (numLevels, b, c)
     else bindR (rd (lv b) (numLevels - 1)) (\<lambda>pl.
     if beyond incomingPrice (pl_price pl) then Inr (numLevels, b, c)
     else bindR (deref (pl_head pl)) (\<lambda>resting.
     bindR (rd (heap b) resting) (\<lambda>res.
     if o_participantId res = o_participantId inc
     then bindR (wr (heap b) incoming (\<lambda>x. x\<lparr>o_quantity := 0\<rparr>)) (\<lambda>h.
          Inr (numLevels, set_heap h b, c))
     else let fillQty = min (o_quantity inc) (o_quantity res) in
     bindR (wr (heap b) incoming (\<lambda>x. x\<lparr>o_quantity := o_quantity x - fillQty\<rparr>)) (\<lambda>h.
     bindR (wr h resting (\<lambda>x. x\<lparr>o_quantity := o_quantity x - fillQty\<rparr>)) (\<lambda>h.
     let pl = pl\<lparr>pl_totalQuantity := pl_totalQuantity pl - fillQty\<rparr>;
         c = onTrade (trade (o_orderId inc) (o_orderId res) (pl_price pl) fillQty) c
     in bindR (rd h resting) (\<lambda>res.
     bindR (if o_quantity res = 0 then retire dbg (set_heap h b) pl resting
            else Inr (pl, set_heap h b)) (\<lambda>(pl, b).
     bindR (wr (lv b) (numLevels - 1) (\<lambda>_. pl)) (\<lambda>ls.
     loop dbg onTrade fuel incomingPrice incoming
       (if pl_head pl = None then numLevels - 1 else numLevels) (set_lv ls b) c)))))))))"
begin

lemma match_state_side [simp]:
  "match_state s (set_lv l b) ls n inc xss Q fr = match_state s b ls n inc xss Q fr"
  by (simp add: match_state_def)

lemma match_moved_side [simp]:
  "match_moved (set_lv l b) ls n inc xss fr q b' ls' n' xss' fr' = match_moved b ls n inc xss fr q b' ls' n' xss' fr'"
  "match_moved b ls n inc xss fr q (set_lv l b') ls' n' xss' fr' = match_moved b ls n inc xss fr q b' ls' n' xss' fr'"
  by (simp_all add: match_moved_def)

text \<open>The three ways an iteration stops the loop at once.\<close>

lemma loop_done:
  assumes "inc < length (heap b)" and "o_quantity (heap b ! inc) = 0 \<or> n = 0"
  shows "loop dbg onTrade (Suc fuel) ip inc n b c = Inr (n, b, c)"
  using assms by (auto simp: loop_Suc word_gt_0)

lemma loop_beyond:
  assumes "inc < length (heap b)" and "n - 1 < length (lv b)" and "beyond ip (pl_price (lv b ! (n - 1)))"
  shows "loop dbg onTrade (Suc fuel) ip inc n b c = Inr (n, b, c)"
  using assms by (auto simp: loop_Suc)

lemma loop_self:
  assumes "inc < length (heap b)" and "0 < o_quantity (heap b ! inc)" and "0 < n" "n \<le> length (lv b)"
    and "\<not> beyond ip (pl_price (lv b ! (n - 1)))" and "pl_head (lv b ! (n - 1)) = Some r"
    and "r < length (heap b)" and "o_participantId (heap b ! r) = o_participantId (heap b ! inc)"
  shows "loop dbg onTrade (Suc fuel) ip inc n b c =
    Inr (n, set_heap (set_qty (heap b) inc 0) b, c)"
  using assms by (auto simp: loop_Suc simp del: wr_ok)

text \<open>An iteration that fills: the state it passes on.\<close>

lemma loop_fill:
  assumes "inc < length (heap b)" and "0 < o_quantity (heap b ! inc)" and n: "0 < n" "n \<le> length (lv b)"
    and pl: "pl = lv b ! (n - 1)" and "\<not> beyond ip (pl_price pl)" and "pl_head pl = Some r"
    and r: "r < length (heap b)" "r \<noteq> inc" and "o_participantId (heap b ! r) \<noteq> o_participantId (heap b ! inc)"
    and f: "f = min (o_quantity (heap b ! inc)) (o_quantity (heap b ! r))"
    and h: "h = set_qty (set_qty (heap b) inc (o_quantity (heap b ! inc) - f)) r (o_quantity (heap b ! r) - f)"
    and pl1: "pl1 = pl\<lparr>pl_totalQuantity := pl_totalQuantity pl - f\<rparr>"
  shows "loop dbg onTrade (Suc fuel) ip inc n b c =
    bindR (if o_quantity (heap b ! r) = f then retire dbg (set_heap h b) pl1 r
           else Inr (pl1, set_heap h b)) (\<lambda>(pl', b').
    bindR (wr (lv b') (n - 1) (\<lambda>_. pl')) (\<lambda>ls.
    loop dbg onTrade fuel ip inc (if pl_head pl' = None then n - 1 else n) (set_lv ls b')
      (onTrade (trade (o_orderId (heap b ! inc)) (o_orderId (heap b ! r)) (pl_price pl) f) c)))"
proof -
  have "h ! r = (heap b ! r)\<lparr>o_quantity := o_quantity (heap b ! r) - f\<rparr>" "length h = length (heap b)"
    using r by (simp_all add: h set_qty_nth)
  moreover have "wr (heap b) inc (\<lambda>x. x\<lparr>o_quantity := o_quantity x - f\<rparr>) =
      Inr (set_qty (heap b) inc (o_quantity (heap b ! inc) - f))"
    using assms(1) by (simp del: wr_ok)
  moreover have "wr (set_qty (heap b) inc (o_quantity (heap b ! inc) - f)) r
      (\<lambda>x. x\<lparr>o_quantity := o_quantity x - f\<rparr>) = Inr h"
    using r by (simp add: h set_qty_nth del: wr_ok)
  ultimately show ?thesis
    using assms(1,2,6,7,10) n r pl [symmetric] f [symmetric] pl1 [symmetric]
    by (simp add: loop_Suc Let_def del: wr_ok)
qed

text \<open>The loop computes \<open>spec_match\<close> and calls the callback for each of its fills in turn.\<close>

lemma loop_spec:
  assumes "match_state s b (lv b) n inc xss Q fr"
    and "(if o_quantity (heap b ! inc) = 0 then 0 else length (concat xss)) < fuel"
    and "spec_match (beyond ip) (o_participantId (heap b ! inc)) (o_quantity (heap b ! inc))
           (abs_slots (heap b) xss) = (fs, q', rs')"
  shows "\<exists>n' p' idx' ls' xss' fr'. loop dbg onTrade fuel ip inc n b c =
      Inr (n', set_lv ls' (b\<lparr>ob_pool := p', ob_orderIndex := idx'\<rparr>),
           fold onTrade (fill_trades trade (o_orderId (heap b ! inc)) fs) c) \<and>
    match_state s (b\<lparr>ob_pool := p', ob_orderIndex := idx'\<rparr>) ls' n' inc xss' Q fr' \<and>
    match_moved b (lv b) n inc xss fr q' (b\<lparr>ob_pool := p', ob_orderIndex := idx'\<rparr>) ls' n' xss' fr' \<and>
    abs_slots (op_orders p') xss' = rs'"
  using assms
proof (induction fuel arbitrary: n b xss fr fs c)
  case 0
  then show ?case by simp
next
  case (Suc fuel)
  note d = Suc.prems(1) [unfolded match_state_def]
  let ?q = "o_quantity (heap b ! inc)"
  let ?pl = "lv b ! (n - 1)"
  have lr: "levels_rep (heap b) s (take n (lv b)) xss"
    using d by simp
  note len = levels_rep_length [OF lr]
  show ?case
  proof (cases "?q = 0 \<or> n = 0")
    case True
    then have "fs = [] \<and> q' = ?q \<and> rs' = abs_slots (heap b) xss"
      using Suc.prems(3) len by auto
    moreover have "loop dbg onTrade (Suc fuel) ip inc n b c = Inr (n, b, c)"
      using True d by (intro loop_done) auto
    ultimately show ?thesis
      using Suc.prems(1) match_moved_refl [of q' b inc]
      by (intro exI [of _ n] exI [of _ "ob_pool b"] exI [of _ "ob_orderIndex b"]
        exI [of _ "lv b"] exI [of _ xss] exI [of _ fr]) (simp add: fill_trades_def)
  next
    case False
    then have q: "0 < ?q" and n: "0 < n" "n \<le> length (lv b)"
      using d by (auto simp: word_gt_0)
    obtain yss xs where xss: "xss = yss @ [xs]" and top: "level_rep (heap b) s ?pl xs"
      using levels_rep_take_last [OF lr n] .
    from top obtain r ys where xs: "xs = r # ys" by (cases xs) (auto simp: level_rep_def)
    let ?r = "heap b ! r"
    have r: "pl_head ?pl = Some r" "o_price ?r = pl_price ?pl" "r < length (heap b)" "r \<noteq> inc" "0 < o_quantity ?r"
      using top d by (auto simp: level_rep_def level_links_def xs xss)
    define rs0 where "rs0 = tl (abs_slots (heap b) xss)"
    have rs: "abs_slots (heap b) xss = payload ?r # rs0"
      by (simp add: rs0_def xss xs)
    note spec = Suc.prems(3) [unfolded rs]
    consider (beyond) "beyond ip (pl_price ?pl)"
      | (self) "\<not> beyond ip (pl_price ?pl)" "o_participantId ?r = o_participantId (heap b ! inc)"
      | (full) "\<not> beyond ip (pl_price ?pl)" "o_participantId ?r \<noteq> o_participantId (heap b ! inc)"
          "o_quantity ?r \<le> ?q"
      | (part) "\<not> beyond ip (pl_price ?pl)" "o_participantId ?r \<noteq> o_participantId (heap b ! inc)"
          "?q < o_quantity ?r"
      using not_less by blast
    then show ?thesis
    proof cases
      case beyond
      then have "fs = [] \<and> q' = ?q \<and> rs' = abs_slots (heap b) xss"
        using spec rs r by simp
      moreover have "loop dbg onTrade (Suc fuel) ip inc n b c = Inr (n, b, c)"
        using beyond d n by (intro loop_beyond) auto
      ultimately show ?thesis
        using Suc.prems(1) match_moved_refl [of q' b inc]
        by (intro exI [of _ n] exI [of _ "ob_pool b"] exI [of _ "ob_orderIndex b"]
          exI [of _ "lv b"] exI [of _ xss] exI [of _ fr]) (simp add: fill_trades_def)
    next
      case self
      define h where "h = set_qty (heap b) inc 0"
      have "fs = [] \<and> q' = 0 \<and> rs' = abs_slots (heap b) xss"
        using spec rs r self q by (simp add: word_gt_0)
      moreover have "loop dbg onTrade (Suc fuel) ip inc n b c = Inr (n, set_heap h b, c)"
        unfolding h_def by (rule loop_self [of inc b n ip r]) (use self d n q r in auto)
      moreover have "set_lv (lv b) (set_heap h b) = set_heap h b"
        using set_same [of "set_heap h b"] by simp
      ultimately show ?thesis
        using match_self_step [OF Suc.prems(1) h_def]
        by (intro exI [of _ n] exI [of _ "(ob_pool b)\<lparr>op_orders := h\<rparr>"] exI [of _ "ob_orderIndex b"]
          exI [of _ "lv b"] exI [of _ xss] exI [of _ fr]) (simp add: fill_trades_def)
    next
      case part
      define h where "h = set_qty (set_qty (heap b) inc 0) r (o_quantity ?r - ?q)"
      define pl1 where "pl1 = ?pl\<lparr>pl_totalQuantity := pl_totalQuantity ?pl - ?q\<rparr>"
      have f: "?q = min ?q (o_quantity ?r)" and h: "h = set_qty (set_qty (heap b) inc (?q - ?q)) r (o_quantity ?r - ?q)"
        using part(3) by (auto simp: h_def min_def)
      let ?b = "set_lv ((lv b)[n - 1 := pl1]) (set_heap h b)"
      have fs: "fs = [(payload ?r, ?q)] \<and> q' = 0 \<and> rs' = (payload ?r)\<lparr>o_quantity := o_quantity ?r - ?q\<rparr> # rs0"
        using spec r part q by (simp add: spec_match_take_part del: spec_match.simps)
      have "loop dbg onTrade (Suc fuel) ip inc n b c =
          loop dbg onTrade fuel ip inc n ?b (onTrade (trade (o_orderId (heap b ! inc)) (o_orderId ?r) (pl_price ?pl) ?q) c)"
        using loop_fill [OF _ q n refl part(1) r(1,3,4) part(2) f h pl1_def] d n r part(3)
        by (auto simp: pl1_def)
      moreover have "0 < fuel"
        using Suc.prems(2) q by (auto simp: xss xs split: if_splits)
      then obtain fuel' where "fuel = Suc fuel'" by (cases fuel) auto
      then have "loop dbg onTrade fuel ip inc n ?b c' = Inr (n, ?b, c')" for c'
        using d r by (auto intro!: loop_done simp: h_def set_qty_nth)
      ultimately show ?thesis
        using match_part_step [OF Suc.prems(1) xss [unfolded xs] n(1) refl part(3) h_def pl1_def] fs r
        by (intro exI [of _ n] exI [of _ "(ob_pool b)\<lparr>op_orders := h\<rparr>"] exI [of _ "ob_orderIndex b"]
          exI [of _ "(lv b)[n - 1 := pl1]"] exI [of _ xss] exI [of _ fr])
          (simp add: fill_trades_def rs0_def)
    next
      case full
      define fs1 where "fs1 = tl fs"
      define h where "h = set_qty (set_qty (heap b) inc (?q - o_quantity ?r)) r 0"
      define pl1 where "pl1 = ?pl\<lparr>pl_totalQuantity := pl_totalQuantity ?pl - o_quantity ?r\<rparr>"
      define n1 where "n1 = (if ys = [] then n - 1 else n)"
      define xss1 where "xss1 = (if ys = [] then yss else yss @ [ys])"
      have f: "o_quantity ?r = min ?q (o_quantity ?r)"
        and h: "h = set_qty (set_qty (heap b) inc (?q - o_quantity ?r)) r (o_quantity ?r - o_quantity ?r)"
        using full(3) by (auto simp: h_def min_def)
      have fs: "fs = (payload ?r, o_quantity ?r) # fs1"
        and spec1: "spec_match (beyond ip) (o_participantId (heap b ! inc)) (?q - o_quantity ?r) rs0 = (fs1, q', rs')"
        using spec r full q by (auto simp: spec_match_take_all fs1_def simp del: spec_match.simps split: prod.splits)
      obtain pl' p1 idx1 where
        ret: "retire dbg (set_heap h b) pl1 r = Inr (pl', b\<lparr>ob_pool := p1, ob_orderIndex := idx1\<rparr>)"
        and hd: "pl_head pl' = None \<longleftrightarrow> ys = []"
        and st1: "match_state s (b\<lparr>ob_pool := p1, ob_orderIndex := idx1\<rparr>) ((lv b)[n - 1 := pl']) n1 inc xss1 Q (r # fr)"
        and mv1: "match_moved b (lv b) n inc xss fr (?q - o_quantity ?r)
          (b\<lparr>ob_pool := p1, ob_orderIndex := idx1\<rparr>) ((lv b)[n - 1 := pl']) n1 xss1 (r # fr)"
        and rs1: "abs_slots (op_orders p1) xss1 = tl (abs_slots (heap b) xss)"
        using match_full_step [OF Suc.prems(1) xss [unfolded xs] n(1) refl h_def pl1_def n1_def xss1_def] .
      let ?b = "set_lv ((lv b)[n - 1 := pl']) (b\<lparr>ob_pool := p1, ob_orderIndex := idx1\<rparr>)"
      let ?c = "onTrade (trade (o_orderId (heap b ! inc)) (o_orderId ?r) (pl_price ?pl) (o_quantity ?r)) c"
      have run: "loop dbg onTrade (Suc fuel) ip inc n b c = loop dbg onTrade fuel ip inc n1 ?b ?c"
        using loop_fill [OF _ q n refl full(1) r(1,3,4) full(2) f h pl1_def] d n ret hd by (simp add: n1_def)
      have "payload (op_orders p1 ! inc) = (payload (heap b ! inc))\<lparr>o_quantity := ?q - o_quantity ?r\<rparr>"
        using mv1 by (simp add: match_moved_def)
      then have inc: "o_quantity (heap ?b ! inc) = ?q - o_quantity ?r"
        "o_orderId (heap ?b ! inc) = o_orderId (heap b ! inc)"
        "o_participantId (heap ?b ! inc) = o_participantId (heap b ! inc)"
        by (auto dest: arg_cong [of _ _ o_quantity] arg_cong [of _ _ o_orderId] arg_cong [of _ _ o_participantId])
      have st2: "match_state s ?b (lv ?b) n1 inc xss1 Q (r # fr)"
        using st1 by simp
      have "length (concat xss1) < fuel"
        using Suc.prems(2) q by (auto simp: xss xs xss1_def split: if_splits)
      then have fuel: "(if o_quantity (heap ?b ! inc) = 0 then 0 else length (concat xss1)) < fuel" by simp
      have spec2: "spec_match (beyond ip) (o_participantId (heap ?b ! inc)) (o_quantity (heap ?b ! inc))
          (abs_slots (heap ?b) xss1) = (fs1, q', rs')"
        unfolding inc using spec1 rs1 by (simp add: rs0_def)
      obtain n' p' idx' ls' xss' fr' where
        "loop dbg onTrade fuel ip inc n1 ?b ?c = Inr (n', set_lv ls' (?b\<lparr>ob_pool := p', ob_orderIndex := idx'\<rparr>),
           fold onTrade (fill_trades trade (o_orderId (heap b ! inc)) fs1) ?c)"
        and "match_state s (?b\<lparr>ob_pool := p', ob_orderIndex := idx'\<rparr>) ls' n' inc xss' Q fr'"
        and "match_moved ?b (lv ?b) n1 inc xss1 (r # fr) q' (?b\<lparr>ob_pool := p', ob_orderIndex := idx'\<rparr>) ls' n' xss' fr'"
        and "abs_slots (op_orders p') xss' = rs'"
        using Suc.IH [OF st2 fuel spec2, of ?c] unfolding inc by (elim exE conjE) (rule that)
      then show ?thesis
        using run fs r match_moved_trans [OF mv1, of q' "b\<lparr>ob_pool := p', ob_orderIndex := idx'\<rparr>" ls' n' xss' fr']
        by (intro exI [of _ n'] exI [of _ p'] exI [of _ idx'] exI [of _ ls'] exI [of _ xss'] exI [of _ fr'])
          (simp add: fill_trades_def)
    qed
  qed
qed

text \<open>With the resizing of the vector that follows, which drops the levels used up.\<close>

lemma match_spec:
  assumes st: "match_state s b (lv b) (length (lv b)) inc xss Q fr"
    and spec: "spec_match (beyond (o_price (heap b ! inc))) (o_participantId (heap b ! inc))
           (o_quantity (heap b ! inc)) (abs_slots (heap b) xss) = (fs, q', rs')"
  obtains p' idx' ls' xss' fr' where "match dbg onTrade inc b c =
      Inr (set_lv ls' (b\<lparr>ob_pool := p', ob_orderIndex := idx'\<rparr>),
           fold onTrade (fill_trades trade (o_orderId (heap b ! inc)) fs) c)"
    and "match_state s (b\<lparr>ob_pool := p', ob_orderIndex := idx'\<rparr>) ls' (length ls') inc xss' Q fr'"
    and "match_moved b (lv b) (length (lv b)) inc xss fr q'
           (b\<lparr>ob_pool := p', ob_orderIndex := idx'\<rparr>) ls' (length ls') xss' fr'"
    and "abs_slots (op_orders p') xss' = rs'"
proof -
  note d = st [unfolded match_state_def]
  have lr: "levels_rep (heap b) s (lv b) xss" using d by simp
  have "length (concat xss) \<le> length (heap b)"
    using d levels_rep_bound [OF lr] by (intro distinct_bounded_length) auto
  then have "(if o_quantity (heap b ! inc) = 0 then 0 else length (concat xss)) < Suc (length (heap b))" by simp
  from loop_spec [OF st this spec, of dbg onTrade c]
  obtain n' p' idx' ls' xss' fr' where
    run: "loop dbg onTrade (Suc (length (heap b))) (o_price (heap b ! inc)) inc (length (lv b)) b c =
      Inr (n', set_lv ls' (b\<lparr>ob_pool := p', ob_orderIndex := idx'\<rparr>),
           fold onTrade (fill_trades trade (o_orderId (heap b ! inc)) fs) c)"
    and st': "match_state s (b\<lparr>ob_pool := p', ob_orderIndex := idx'\<rparr>) ls' n' inc xss' Q fr'"
    and mv: "match_moved b (lv b) (length (lv b)) inc xss fr q'
           (b\<lparr>ob_pool := p', ob_orderIndex := idx'\<rparr>) ls' n' xss' fr'"
    and rs: "abs_slots (op_orders p') xss' = rs'"
    by blast
  have n': "n' \<le> length ls'" using st' by (simp add: match_state_def)
  show thesis
  proof (cases "lv b = []")
    case False
    show thesis
    proof (rule that)
      show "match dbg onTrade inc b c = Inr (set_lv (take n' ls') (b\<lparr>ob_pool := p', ob_orderIndex := idx'\<rparr>),
           fold onTrade (fill_trades trade (o_orderId (heap b ! inc)) fs) c)"
        using False d run by (simp add: match_eq)
    qed (use st' mv rs in \<open>simp_all only: match_take [OF n']\<close>)
  next
    case True
    then have "xss = []" using levels_rep_length [OF lr] by simp
    with spec have "fs = []" "q' = o_quantity (heap b ! inc)" "rs' = []" by auto
    with True st \<open>xss = []\<close> show thesis
      by (intro that [of "[]" "ob_orderIndex b" "ob_pool b" "[]" fr])
        (simp_all add: match_eq fill_trades_def match_moved_refl set_same [of b, unfolded True])
  qed
qed

text \<open>
  Looking at the best level before calling the matching function, as \<open>addLimitOrder\<close> does, changes
  nothing: the function itself returns at once where that test fails.
\<close>

lemma match_gate:
  assumes "inc < length (heap b)" and "o_price (heap b ! inc) = price"
  shows "(case (if lv b = [] then None else Some (last (lv b))) of
            None \<Rightarrow> Inr (b, c)
          | Some pl \<Rightarrow> if \<not> beyond price (pl_price pl) then match dbg onTrade inc b c else Inr (b, c)) =
         match dbg onTrade inc b c"
proof (cases "lv b = [] \<or> \<not> beyond price (pl_price (last (lv b)))")
  case False
  then have "loop dbg onTrade (Suc (length (heap b))) price inc (length (lv b)) b c = Inr (length (lv b), b, c)"
    using assms by (intro loop_beyond) (auto simp: last_conv_nth)
  with False assms show ?thesis by (simp add: match_eq)
qed (auto simp: match_eq)

end

section \<open>The two loops of the code\<close>

lemma matchBuy_loop_side:
  "match_side ob_asks (\<lambda>ls b. b\<lparr>ob_asks := ls\<rparr>) (>) (<) buy_trade matchBuy_loop matchBuy"
  by unfold_locales (simp_all add: matchBuy_def buy_trade_def cong: if_cong)

lemma matchSell_loop_side:
  "match_side ob_bids (\<lambda>ls b. b\<lparr>ob_bids := ls\<rparr>) (<) (>) sell_trade matchSell_loop matchSell"
  by unfold_locales (simp_all add: matchSell_def sell_trade_def cong: if_cong)

interpretation buy_side: match_side ob_asks "\<lambda>ls b. b\<lparr>ob_asks := ls\<rparr>" "(>)" "(<)"
    buy_trade matchBuy_loop matchBuy
  by (rule matchBuy_loop_side)

interpretation sell_side: match_side ob_bids "\<lambda>ls b. b\<lparr>ob_bids := ls\<rparr>" "(<)" "(>)"
    sell_trade matchSell_loop matchSell
  by (rule matchSell_loop_side)

end
