(* ===== verification/BookSides.thy ===== *)
theory BookSides
  imports BookRep BookMatch
begin

text \<open>
  Resting an order in a side of the book and taking one out of it again: the binary search finds
  the level, or the place where it has to be inserted, and the list of orders changes as
  \<open>spec_insert\<close> and the filtering of \<open>spec_cancel\<close> say. The locale \<open>rest_side\<close> covers the code's
  two copies of this, and is interpreted for the bids and for the asks.
\<close>

section \<open>A level that may still be empty\<close>

definition level_body :: "Order list \<Rightarrow> Side \<Rightarrow> PriceLevel \<Rightarrow> nat list \<Rightarrow> bool" where
  "level_body h s pl xs \<longleftrightarrow> level_links h pl xs \<and> level_total h pl xs \<and>
     (\<forall>i \<in> set xs. o_price (h ! i) = pl_price pl \<and> o_side (h ! i) = s \<and> 0 < o_quantity (h ! i))"

lemma level_rep_body: "level_rep h s pl xs \<longleftrightarrow> xs \<noteq> [] \<and> level_body h s pl xs"
  by (auto simp: level_rep_def level_body_def)

lemma level_body_new: "level_body h s (PriceLevel_new p) []"
  by (simp add: level_body_def level_links_def level_total_def PriceLevel_new_def)

lemma level_body_add:
  assumes body: "level_body h s pl xs" and i: "i < length h" "i \<notin> set xs"
    and ok: "o_price (h ! i) = pl_price pl" "o_side (h ! i) = s" "0 < o_quantity (h ! i)"
  obtains h' pl' where "addToTail h pl i = Inr (h', pl')" and "level_rep h' s pl' (xs @ [i])"
    and "same_payloads h' h" and "same_outside (insert i (set xs)) h' h" and "pl_price pl' = pl_price pl"
proof -
  from body have links: "level_links h pl xs" and bound: "\<And>j. j \<in> set xs \<Longrightarrow> j < length h"
    by (auto simp: level_body_def dest: level_links_bound)
  obtain h' pl' where run: "addToTail h pl i = Inr (h', pl')" and links': "level_links h' pl' (xs @ [i])"
    and pay: "same_payloads h' h" and out: "same_outside (insert i (set xs)) h' h"
    and pl': "pl_price pl' = pl_price pl" "pl_totalQuantity pl' = pl_totalQuantity pl + o_quantity (h ! i)"
    using addToTail_run [OF links i] .
  have "level_total h' pl' (xs @ [i])"
    by (rule addToTail_total [of h pl]) (use body bound i pay pl' in \<open>auto simp: level_body_def\<close>)
  moreover have "o_price (h' ! j) = o_price (h ! j)" "o_side (h' ! j) = o_side (h ! j)"
    "o_quantity (h' ! j) = o_quantity (h ! j)" if "j \<in> set (xs @ [i])" for j
    using payload_eqD [OF same_payloadsD [OF pay, of j]] that bound i by auto
  ultimately have "level_rep h' s pl' (xs @ [i])"
    using links' body ok pl' by (auto simp: level_rep_body level_body_def)
  from that [OF run this pay out pl'(1)] show thesis .
qed

lemma level_body_remove:
  assumes rep: "level_rep h s pl (xs @ i # ys)"
  obtains h' pl' where "remove h pl i = Inr (h', pl')" and "level_body h' s pl' (xs @ ys)"
    and "same_payloads h' h" and "same_outside (set (xs @ i # ys)) h' h" and "pl_price pl' = pl_price pl"
proof -
  from rep have links: "level_links h pl (xs @ i # ys)"
    and bound: "\<And>j. j \<in> set (xs @ ys) \<Longrightarrow> j < length h"
    by (auto simp: level_rep_def dest: level_links_bound)
  obtain h' pl' where run: "remove h pl i = Inr (h', pl')" and links': "level_links h' pl' (xs @ ys)"
    and pay: "same_payloads h' h" and out: "same_outside (set (xs @ i # ys)) h' h"
    and "h' ! i = payload (h ! i)" and pl': "pl_price pl' = pl_price pl" "pl_totalQuantity pl' = pl_totalQuantity pl - o_quantity (h ! i)"
    using remove_run [OF links] .
  have "level_total h' pl' (xs @ ys)"
    by (rule remove_total [of h pl xs i ys]) (use rep bound pay pl' in \<open>auto simp: level_rep_def\<close>)
  moreover have "o_price (h' ! j) = o_price (h ! j)" "o_side (h' ! j) = o_side (h ! j)"
    "o_quantity (h' ! j) = o_quantity (h ! j)" if "j \<in> set (xs @ ys)" for j
    using payload_eqD [OF same_payloadsD [OF pay bound [OF that]]] by auto
  ultimately have "level_body h' s pl' (xs @ ys)"
    using links' rep pl' by (auto simp: level_rep_def level_body_def)
  from that [OF run this pay out pl'(1)] show thesis .
qed

lemma spec_insert_split:
  assumes "\<And>y. y \<in> set A \<Longrightarrow> \<not> worse (o_price y) (o_price x)"
    and "\<And>y. y \<in> set C \<Longrightarrow> worse (o_price y) (o_price x)"
  shows "spec_insert worse x (A @ C) = A @ x # C"
  using assms by (cases C) (auto simp: spec_insert_def)

lemma abs_slots_middle:
  "abs_slots h (xss @ xs # yss) = abs_slots h yss @ map (\<lambda>i. payload (h ! i)) xs @ abs_slots h xss"
  by (simp add: abs_slots_def)

lemma abs_slots_price:
  assumes "levels_rep h s ls xss" and "y \<in> set (abs_slots h xss)"
  obtains pl where "pl \<in> set ls" and "o_price y = pl_price pl" and "o_side y = s" and "0 < o_quantity y"
proof -
  from assms(2) obtain xs i where xs: "xs \<in> set xss" "i \<in> set xs" "y = payload (h ! i)"
    by (auto simp: abs_slots_def)
  then obtain k where "k < length xss" "xss ! k = xs" by (auto simp: in_set_conv_nth)
  with assms(1) have "level_rep h s (ls ! k) xs" "ls ! k \<in> set ls"
    by (auto simp: levels_rep_def list_all2_conv_all_nth)
  with xs show thesis by (intro that [of "ls ! k"]) (auto simp: level_rep_def)
qed

lemma levels_rep_split:
  assumes "levels_rep h s (ls @ ls') zss"
  obtains xss yss where "zss = xss @ yss" and "levels_rep h s ls xss" and "levels_rep h s ls' yss"
proof -
  have "length ls + length ls' = length zss" using levels_rep_length [OF assms] by simp
  then have "levels_rep h s ls (take (length ls) zss) \<and> levels_rep h s ls' (drop (length ls) zss)"
    using assms by (subst levels_rep_append [symmetric]) auto
  then show thesis by (intro that [of "take (length ls) zss" "drop (length ls) zss"]) auto
qed

section \<open>Resting and unlinking\<close>

locale rest_side = book_side +
  fixes s :: Side
    and find :: "OrderBook \<Rightarrow> u32 \<Rightarrow> nat"
    and findOrCreate :: "bool \<Rightarrow> OrderBook \<Rightarrow> u32 \<Rightarrow> fault + nat \<times> OrderBook"
    and msg :: string
  assumes find_eq: "find b p = lower_bound (\<lambda>pl. worse (pl_price pl) p) (lv b)"
    and findOrCreate_eq: "findOrCreate dbg b p =
      (let it = find b p in
       if it \<noteq> length (lv b) \<and> pl_price (lv b ! it) = p then Inr (it, b)
       else bindR (assertR dbg msg (length (lv b) < kDefaultMaxPriceLevels)) (\<lambda>_.
            Inr (it, set_lv (vec_insert (lv b) it (PriceLevel_new p)) b)))"
    and rest_eq: "rest_order dbg s p k order b =
      bindR (bindR (findOrCreate dbg b p) (\<lambda>(it, b).
             bindR (rd (lv b) it) (\<lambda>pl.
             bindR (addToTail (heap b) pl order) (\<lambda>(h, pl).
             Inr (set_heap h (set_lv ((lv b)[it := pl]) b)))))) (\<lambda>b.
      Inr (b\<lparr>ob_orderIndex := um_emplace (ob_orderIndex b) k order\<rparr>))"
begin

lemma worse_asym: "worse x y \<Longrightarrow> \<not> worse y x"
  using worse_irrefl worse_trans by blast

text \<open>The search splits the vector at the price.\<close>

lemma find_split:
  assumes "sorted_wrt worse (map pl_price (lv b))"
  obtains ls1 ls2 where "lv b = ls1 @ ls2" and "find b p = length ls1"
    and "\<And>x. x \<in> set ls1 \<Longrightarrow> worse (pl_price x) p" and "\<And>x. x \<in> set ls2 \<Longrightarrow> \<not> worse (pl_price x) p"
proof -
  let ?P = "\<lambda>pl. worse (pl_price pl) p"
  have split: "lv b = takeWhile ?P (lv b) @ dropWhile ?P (lv b)" by simp
  have "sorted_wrt worse (map pl_price ls) \<Longrightarrow> x \<in> set (dropWhile ?P ls) \<Longrightarrow> \<not> ?P x" for ls x
    by (induction ls) (auto split: if_splits dest: worse_trans)
  with assms have drop: "\<not> ?P x" if "x \<in> set (dropWhile ?P (lv b))" for x
    using that by blast
  have "lower_bound ?P (takeWhile ?P (lv b) @ dropWhile ?P (lv b)) = length (takeWhile ?P (lv b))"
    by (rule lower_bound_partition) (blast dest: set_takeWhileD drop)+
  then have find: "find b p = length (takeWhile ?P (lv b))"
    by (simp add: find_eq)
  show thesis
    by (rule that [OF split find]) (blast dest: set_takeWhileD drop)+
qed

text \<open>The position of a level by its price, and the levels on either side of it.\<close>

lemma find_level:
  assumes sorted: "sorted_wrt worse (map pl_price (lv b))" and pl: "pl \<in> set (lv b)"
  obtains ls1 ls2 where "lv b = ls1 @ pl # ls2" and "find b (pl_price pl) = length ls1"
proof -
  obtain ls1 ls2 where ls: "lv b = ls1 @ ls2" "find b (pl_price pl) = length ls1"
    and w: "\<And>x. x \<in> set ls1 \<Longrightarrow> worse (pl_price x) (pl_price pl)"
    using find_split [OF sorted] by metis
  with pl worse_irrefl have "pl \<in> set ls2" by auto
  then obtain us vs where us: "ls2 = us @ pl # vs" by (auto dest: split_list)
  have nw: "\<And>x. x \<in> set ls2 \<Longrightarrow> \<not> worse (pl_price x) (pl_price pl)"
    using find_split [OF sorted, of "pl_price pl"] ls by (metis append_eq_append_conv)
  have "us = []"
  proof (rule ccontr)
    assume "us \<noteq> []"
    then have "worse (pl_price (hd us)) (pl_price pl)" "hd us \<in> set ls2"
      using sorted ls us by (auto simp: sorted_wrt_append)
    with nw show False by blast
  qed
  with us ls show thesis by (intro that) auto
qed

text \<open>After \<open>findOrCreate\<close> there is a level of the price, which may be new and still empty.\<close>

lemma findOrCreate_run:
  assumes sorted: "sorted_wrt worse (map pl_price (lv b))" and rep: "levels_rep h s (lv b) xss"
    and room: "dbg \<longrightarrow> p \<in> pl_price ` set (lv b) \<or> length (lv b) < kDefaultMaxPriceLevels"
  obtains ls1 pl ls2 xss1 xs xss2 where
    "findOrCreate dbg b p = Inr (length ls1, set_lv (ls1 @ pl # ls2) b)" and "pl_price pl = p"
    and "levels_rep h s ls1 xss1" and "level_body h s pl xs" and "levels_rep h s ls2 xss2"
    and "sorted_wrt worse (map pl_price (ls1 @ pl # ls2))"
    and "concat xss = concat xss1 @ xs @ concat xss2"
    and "abs_slots h xss = abs_slots h xss2 @ map (\<lambda>i. payload (h ! i)) xs @ abs_slots h xss1"
proof (cases "p \<in> pl_price ` set (lv b)")
  case True
  then obtain pl where pl: "pl \<in> set (lv b)" "p = pl_price pl" by auto
  obtain ls1 ls2 where ls: "lv b = ls1 @ pl # ls2" "find b p = length ls1"
    using find_level [OF sorted pl(1)] pl(2) by metis
  then have "levels_rep h s (ls1 @ pl # ls2) xss" using rep by simp
  then obtain xss1 yss where yss: "xss = xss1 @ yss" "levels_rep h s ls1 xss1" "levels_rep h s (pl # ls2) yss"
    by (rule levels_rep_split)
  then obtain xs xss2 where xs: "yss = xs # xss2" by (cases yss) auto
  have "findOrCreate dbg b p = Inr (length ls1, set_lv (ls1 @ pl # ls2) b)"
    using ls pl set_same [of b] by (simp add: findOrCreate_eq)
  from that [OF this _ yss(2), of xs xss2] show thesis
    using ls sorted yss xs pl by (simp add: abs_slots_middle level_rep_body)
next
  case False
  obtain ls1 ls2 where ls: "lv b = ls1 @ ls2" "find b p = length ls1"
    and w: "\<And>x. x \<in> set ls1 \<Longrightarrow> worse (pl_price x) p" "\<And>x. x \<in> set ls2 \<Longrightarrow> \<not> worse (pl_price x) p"
    using find_split [OF sorted] by metis
  then have w2: "worse p (pl_price x)" if "x \<in> set ls2" for x
    using that False worse_total [of p "pl_price x"] by auto
  let ?pl = "PriceLevel_new p"
  from ls rep have "levels_rep h s (ls1 @ ls2) xss" by simp
  then obtain xss1 xss2 where xss: "xss = xss1 @ xss2" "levels_rep h s ls1 xss1" "levels_rep h s ls2 xss2"
    by (rule levels_rep_split)
  have "\<not> (length ls1 \<noteq> length (lv b) \<and> pl_price (lv b ! length ls1) = p)"
    using ls False by (auto simp: nth_append image_iff)
  then have "findOrCreate dbg b p = Inr (length ls1, set_lv (ls1 @ ?pl # ls2) b)"
    using ls room False unfolding findOrCreate_eq by (auto simp: Let_def assertR_def vec_insert_split)
  from that [OF this _ xss(2) level_body_new xss(3)] show thesis
    using ls sorted xss w w2
    by (auto simp: sorted_wrt_append abs_slots_append PriceLevel_new_def
        intro: worse_trans)
qed

text \<open>The resting order goes behind every order of its price or a better one.\<close>

lemma rest_run:
  assumes sorted: "sorted_wrt worse (map pl_price (lv b))" and rep: "levels_rep (heap b) s (lv b) xss"
    and dist: "distinct (concat xss)"
    and room: "dbg \<longrightarrow> p \<in> pl_price ` set (lv b) \<or> length (lv b) < kDefaultMaxPriceLevels"
    and i: "i < length (heap b)" "i \<notin> set (concat xss)"
    and ok: "o_price (heap b ! i) = p" "o_side (heap b ! i) = s" "0 < o_quantity (heap b ! i)"
  obtains h' ls' xss' where "rest_order dbg s p k i b =
      Inr ((set_heap h' (set_lv ls' b))\<lparr>ob_orderIndex := um_emplace (ob_orderIndex b) k i\<rparr>)"
    and "levels_rep h' s ls' xss'" and "sorted_wrt worse (map pl_price ls')"
    and "distinct (concat xss')" and "set (concat xss') = insert i (set (concat xss))"
    and "same_payloads h' (heap b)" and "same_outside (insert i (set (concat xss))) h' (heap b)"
    and "abs_slots h' xss' = spec_insert worse (payload (heap b ! i)) (abs_slots (heap b) xss)"
proof -
  let ?h = "heap b"
  obtain ls1 pl ls2 xss1 xs xss2 where
    find: "findOrCreate dbg b p = Inr (length ls1, set_lv (ls1 @ pl # ls2) b)" and p: "pl_price pl = p"
    and left: "levels_rep ?h s ls1 xss1" and body: "level_body ?h s pl xs" and right: "levels_rep ?h s ls2 xss2"
    and sorted1: "sorted_wrt worse (map pl_price (ls1 @ pl # ls2))"
    and con: "concat xss = concat xss1 @ xs @ concat xss2"
    and abs: "abs_slots ?h xss = abs_slots ?h xss2 @ map (\<lambda>i. payload (?h ! i)) xs @ abs_slots ?h xss1"
    using findOrCreate_run [OF sorted rep room] .
  have disj: "i \<notin> set xs" "insert i (set xs) \<inter> set (concat xss1) = {}" "insert i (set xs) \<inter> set (concat xss2) = {}"
    using i(2) dist unfolding con by auto
  obtain h' pl' where add: "addToTail ?h pl i = Inr (h', pl')" and rep': "level_rep h' s pl' (xs @ [i])"
    and pay: "same_payloads h' ?h" and out: "same_outside (insert i (set xs)) h' ?h"
    and p': "pl_price pl' = pl_price pl"
    using level_body_add [OF body i(1) disj(1)] ok p by metis
  have bound: "\<And>j. j \<in> set (concat xss) \<Longrightarrow> j < length ?h"
    using levels_rep_bound [OF rep] .
  show thesis
  proof (rule that [of h' "ls1 @ pl' # ls2" "xss1 @ (xs @ [i]) # xss2"])
    show "rest_order dbg s p k i b = Inr ((set_heap h' (set_lv (ls1 @ pl' # ls2) b))
        \<lparr>ob_orderIndex := um_emplace (ob_orderIndex b) k i\<rparr>)"
      by (simp add: rest_eq find add)
    have "levels_rep h' s ls1 xss1" "levels_rep h' s ls2 xss2"
      using levels_rep_outside [OF out disj(2) left] levels_rep_outside [OF out disj(3) right] .
    then show "levels_rep h' s (ls1 @ pl' # ls2) (xss1 @ (xs @ [i]) # xss2)"
      using rep' levels_rep_length [OF left] by (simp add: levels_rep_append)
    show "sorted_wrt worse (map pl_price (ls1 @ pl' # ls2))"
      using sorted1 p' by simp
    show "distinct (concat (xss1 @ (xs @ [i]) # xss2))"
      using dist i(2) unfolding con by auto
    show "set (concat (xss1 @ (xs @ [i]) # xss2)) = insert i (set (concat xss))"
      unfolding con by auto
    show "same_outside (insert i (set (concat xss))) h' ?h"
      using out by (rule same_outside_mono) (auto simp: con)
    have pay': "abs_slots h' yss = abs_slots ?h yss" if "set (concat yss) \<subseteq> set (concat xss)" for yss
      using that pay bound by (intro abs_slots_cong same_payloadsD [OF pay]) blast
    have "set (concat xss1) \<subseteq> set (concat xss)" "set (concat xss2) \<subseteq> set (concat xss)"
      by (auto simp: con)
    note pay'12 = this [THEN pay']
    have mid: "map (\<lambda>j. payload (h' ! j)) xs = map (\<lambda>j. payload (?h ! j)) xs"
      using bound by (intro map_cong same_payloadsD [OF pay]) (auto simp: con)
    let ?x = "payload (?h ! i)"
    have "spec_insert worse ?x ((abs_slots ?h xss2 @ map (\<lambda>i. payload (?h ! i)) xs) @ abs_slots ?h xss1) =
        (abs_slots ?h xss2 @ map (\<lambda>i. payload (?h ! i)) xs) @ ?x # abs_slots ?h xss1"
    proof (rule spec_insert_split)
      fix y assume "y \<in> set (abs_slots ?h xss2 @ map (\<lambda>i. payload (?h ! i)) xs)"
      then show "\<not> worse (o_price y) (o_price ?x)"
        using body ok p sorted1
        by (auto simp: level_body_def sorted_wrt_append worse_irrefl dest: worse_asym
            elim!: abs_slots_price [OF right])
    next
      fix y assume "y \<in> set (abs_slots ?h xss1)"
      then show "worse (o_price y) (o_price ?x)"
        using ok p sorted1 by (auto simp: sorted_wrt_append elim!: abs_slots_price [OF left])
    qed
    then show "abs_slots h' (xss1 @ (xs @ [i]) # xss2) = spec_insert worse ?x (abs_slots ?h xss)"
      using same_payloadsD [OF pay i(1)] pay'12
      unfolding abs by (simp add: abs_slots_middle mid del: map_eq_conv)
  qed (rule pay)
qed

text \<open>Taking an order out of its level, and the level out of the vector when that was its last order.\<close>

lemma unlink_run:
  assumes sorted: "sorted_wrt worse (map pl_price (lv b))" and rep: "levels_rep (heap b) s (lv b) xss"
    and dist: "distinct (concat xss)" and i: "i \<in> set (concat xss)"
    and inj: "inj_on (\<lambda>j. o_orderId (heap b ! j)) (set (concat xss))"
  obtains h' ls' xss' where "find b (o_price (heap b ! i)) \<noteq> length (lv b)"
    and "pl_price (lv b ! find b (o_price (heap b ! i))) = o_price (heap b ! i)"
    and "o_side (heap b ! i) = s" "0 < o_quantity (heap b ! i)"
    and "unlink_level b (lv b) (find b (o_price (heap b ! i))) i = Inr (h', ls')"
    and "levels_rep h' s ls' xss'" and "sorted_wrt worse (map pl_price ls')"
    and "distinct (concat xss')" and "set (concat xss') = set (concat xss) - {i}"
    and "same_payloads h' (heap b)" and "same_outside (set (concat xss)) h' (heap b)"
    and "abs_slots h' xss' = filter (\<lambda>x. o_orderId x \<noteq> o_orderId (heap b ! i)) (abs_slots (heap b) xss)"
proof -
  let ?h = "heap b"
  from i obtain zs where "zs \<in> set xss" "i \<in> set zs" by auto
  then obtain yss1 xs ys yss2 where xss: "xss = yss1 @ (xs @ i # ys) # yss2"
    by (metis split_list)
  have "list_all2 (level_rep ?h s) (lv b) (yss1 @ (xs @ i # ys) # yss2)"
    using rep by (simp add: levels_rep_def xss)
  then obtain ls1 pl ls2 where ls: "lv b = ls1 @ pl # ls2" and left: "levels_rep ?h s ls1 yss1"
    and mid: "level_rep ?h s pl (xs @ i # ys)" and right: "levels_rep ?h s ls2 yss2"
    unfolding list_all2_append2 list_all2_Cons2 levels_rep_def by blast
  have p: "o_price (?h ! i) = pl_price pl" "o_side (?h ! i) = s" "0 < o_quantity (?h ! i)"
    using mid by (auto simp: level_rep_def)
  have len: "find b (pl_price pl) = length ls1"
  proof -
    have "lower_bound (\<lambda>x. worse (pl_price x) (pl_price pl)) (ls1 @ pl # ls2) = length ls1"
      using sorted worse_asym by (intro lower_bound_partition) (auto simp: ls sorted_wrt_append worse_irrefl)
    then show ?thesis by (simp add: find_eq ls)
  qed
  obtain h' pl' where run: "remove ?h pl i = Inr (h', pl')" and body: "level_body h' s pl' (xs @ ys)"
    and pay: "same_payloads h' ?h" and out: "same_outside (set (xs @ i # ys)) h' ?h"
    and p': "pl_price pl' = pl_price pl"
    using level_body_remove [OF mid] .
  have empty: "isEmpty pl' \<longleftrightarrow> xs @ ys = []"
    using body by (intro isEmpty_links) (auto simp: level_body_def)
  define ls' where "ls' = (if xs @ ys = [] then ls1 @ ls2 else ls1 @ pl' # ls2)"
  define xss' where "xss' = (if xs @ ys = [] then yss1 @ yss2 else yss1 @ (xs @ ys) # yss2)"
  have d: "set (xs @ i # ys) \<inter> set (concat yss1) = {}" "set (xs @ i # ys) \<inter> set (concat yss2) = {}"
    "i \<notin> set (xs @ ys)"
    using dist unfolding xss by auto
  have "levels_rep h' s ls1 yss1" "levels_rep h' s ls2 yss2"
    using levels_rep_outside [OF out d(1) left] levels_rep_outside [OF out d(2) right] .
  then have rep': "levels_rep h' s ls' xss'"
    using body levels_rep_length [OF left] by (auto simp: ls'_def xss'_def levels_rep_append level_rep_body)
  have con: "concat xss' = concat yss1 @ xs @ ys @ concat yss2" by (auto simp: xss'_def)
  have bound: "\<And>j. j \<in> set (concat xss) \<Longrightarrow> j < length ?h"
    using levels_rep_bound [OF rep] .
  let ?k = "o_orderId (?h ! i)" and ?f = "\<lambda>j. payload (?h ! j)"
  have keep: "filter (\<lambda>x. o_orderId x \<noteq> ?k) (map ?f us) = map ?f us" if "set us \<subseteq> set (concat xss) - {i}" for us
    using that inj i by (auto simp: filter_id_conv inj_on_def)
  have keep': "filter (\<lambda>x. o_orderId x \<noteq> ?k) (abs_slots ?h zss) = abs_slots h' zss"
    if "set (concat zss) \<subseteq> set (concat xss) - {i}" for zss
  proof -
    have "abs_slots h' zss = abs_slots ?h zss"
      using that bound by (intro abs_slots_cong same_payloadsD [OF pay]) blast
    with keep [of "concat (rev zss)"] that show ?thesis by (simp add: abs_slots_def)
  qed
  have same: "map (\<lambda>j. payload (h' ! j)) (xs @ ys) = map ?f (xs @ ys)"
    using bound by (intro map_cong same_payloadsD [OF pay]) (auto simp: xss)
  have "set xs \<subseteq> set (concat xss) - {i}" "set ys \<subseteq> set (concat xss) - {i}"
    using d by (auto simp: xss)
  note keep12 = this [THEN keep]
  have mid': "filter (\<lambda>x. o_orderId x \<noteq> ?k) (map ?f (xs @ i # ys)) = map ?f (xs @ ys)"
    using keep12 by simp
  have ends: "filter (\<lambda>x. o_orderId x \<noteq> ?k) (abs_slots ?h yss1) = abs_slots h' yss1"
    "filter (\<lambda>x. o_orderId x \<noteq> ?k) (abs_slots ?h yss2) = abs_slots h' yss2"
    using d by (auto intro!: keep' simp: xss)
  have new: "abs_slots h' xss' = abs_slots h' yss2 @ map (\<lambda>j. payload (h' ! j)) (xs @ ys) @ abs_slots h' yss1"
    unfolding xss'_def by (simp add: abs_slots_def)
  have abs': "abs_slots h' xss' = filter (\<lambda>x. o_orderId x \<noteq> ?k) (abs_slots ?h xss)"
    unfolding new xss abs_slots_middle filter_append mid' ends same ..
  show thesis
  proof (rule that [OF _ _ p(2,3) _ rep' _ _ _ pay _ abs'])
    show "unlink_level b (lv b) (find b (o_price (?h ! i))) i = Inr (h', ls')"
      by (simp add: unlink_level_def p len ls run empty ls'_def vec_erase_split)
  qed (use ls len p sorted p' dist d out in
      \<open>auto simp: con xss ls'_def sorted_wrt_append intro: same_outside_mono\<close>)
qed

end

section \<open>The two sides of the code\<close>

interpretation bids: rest_side ob_bids "\<lambda>ls b. b\<lparr>ob_bids := ls\<rparr>" "(<)" Buy findBidLevel
    findOrCreateBidLevel "''bids_.size() < bids_.capacity()''"
  by unfold_locales (simp_all add: findBidLevel_def findOrCreateBidLevel_def rest_order_def)

interpretation asks: rest_side ob_asks "\<lambda>ls b. b\<lparr>ob_asks := ls\<rparr>" "(>)" Sell findAskLevel
    findOrCreateAskLevel "''asks_.size() < asks_.capacity()''"
  by unfold_locales (simp_all add: findAskLevel_def findOrCreateAskLevel_def rest_order_def)

end
