(* ===== verification/BookRefine.thy ===== *)
theory BookRefine
  imports BookSides
begin

text \<open>
  The order book refines the abstract book of the theory BookSpec: the invariant \<open>book_inv\<close>, the
  abstraction \<open>abs_book\<close>, and what \<open>addLimitOrder\<close> and \<open>cancelOrder\<close> do to them. The locale
  \<open>taking\<close> covers both kinds of incoming order: its maker side is the one that is matched, its
  other side the one where the remainder comes to rest.
\<close>

section \<open>The memory of a book\<close>

text \<open>
  Every slot of the pool is used exactly once: in one level of one side, or as a free slot.
\<close>

definition sides_rep :: "OrderBook \<Rightarrow> PriceLevel list \<Rightarrow> Side \<Rightarrow> nat list list \<Rightarrow>
    PriceLevel list \<Rightarrow> Side \<Rightarrow> nat list list \<Rightarrow> nat list \<Rightarrow> bool" where
  "sides_rep b ls1 s1 xss1 ls2 s2 xss2 fr \<longleftrightarrow>
     pool_rep (ob_pool b) fr \<and> levels_rep (heap b) s1 ls1 xss1 \<and> levels_rep (heap b) s2 ls2 xss2 \<and>
     distinct (concat xss1 @ concat xss2 @ fr) \<and>
     set (concat xss1 @ concat xss2 @ fr) = {..<length (heap b)} \<and>
     index_rep (ob_orderIndex b) (heap b) (concat xss1 @ concat xss2)"

lemma sides_rep_swap: "sides_rep b ls1 s1 xss1 ls2 s2 xss2 fr \<Longrightarrow> sides_rep b ls2 s2 xss2 ls1 s1 xss1 fr"
  unfolding sides_rep_def
  by (auto intro: index_rep_cong)

text \<open>The same with one order in slot \<open>i\<close> on its way in: allocated, but in no level yet.\<close>

definition entering :: "OrderBook \<Rightarrow> PriceLevel list \<Rightarrow> Side \<Rightarrow> nat list list \<Rightarrow>
    PriceLevel list \<Rightarrow> Side \<Rightarrow> nat list list \<Rightarrow> nat \<Rightarrow> nat list \<Rightarrow> bool" where
  "entering b ls1 s1 xss1 ls2 s2 xss2 i fr \<longleftrightarrow>
     match_state s1 b ls1 (length ls1) i xss1 (concat xss2) fr \<and>
     levels_rep (heap b) s2 ls2 xss2 \<and> distinct (concat xss2) \<and>
     set (i # concat xss1 @ concat xss2 @ fr) = {..<length (heap b)} \<and>
     um_find (ob_orderIndex b) (o_orderId (heap b ! i)) = None"

text \<open>Allocating and initialising the slot.\<close>

lemma entering_init:
  assumes rep: "sides_rep b ls1 s1 xss1 ls2 s2 xss2 (i # fr)" and fresh: "um_find (ob_orderIndex b) k = None"
    and x: "o_orderId x = k"
    and b1: "b1 = b\<lparr>ob_pool := (pool_taken (ob_pool b) i)\<lparr>op_orders := (heap b)[i := x]\<rparr>, ob_sequence := n\<rparr>"
  shows "entering b1 ls1 s1 xss1 ls2 s2 xss2 i fr"
    and "abs_slots (heap b1) xss1 = abs_slots (heap b) xss1" "abs_slots (heap b1) xss2 = abs_slots (heap b) xss2"
    and "heap b1 ! i = x"
proof -
  note r = rep [unfolded sides_rep_def]
  have i: "i < length (heap b)" and d: "i \<notin> set (concat xss1 @ concat xss2 @ fr)"
    using r by auto
  have out: "same_outside {i} (heap b1) (heap b)"
    using i by (simp add: b1 same_outside_def nth_list_update)
  have "pool_rep ((pool_taken (ob_pool b) i)\<lparr>op_orders := (heap b)[i := x]\<rparr>) fr"
    using r d i by (intro pool_rep_write allocate_rep) (auto simp: nth_list_update)
  moreover have "levels_rep (heap b1) s1 ls1 xss1" "levels_rep (heap b1) s2 ls2 xss2"
    using r d by (auto intro: levels_rep_outside [OF out])
  moreover have "index_rep (ob_orderIndex b) (heap b1) (concat xss1 @ concat xss2)"
  proof (rule index_rep_cong)
    show "index_rep (ob_orderIndex b) (heap b) (concat xss1 @ concat xss2)" using r by simp
    fix j assume "j \<in> set (concat xss1 @ concat xss2)"
    with d have "j \<noteq> i" by auto
    with out show "o_orderId (heap b1 ! j) = o_orderId (heap b ! j)" by (simp add: same_outside_def)
  qed simp
  ultimately show "entering b1 ls1 s1 xss1 ls2 s2 xss2 i fr"
    using r d i x fresh by (auto simp: entering_def match_state_def b1)
  show "abs_slots (heap b1) xss1 = abs_slots (heap b) xss1" "abs_slots (heap b1) xss2 = abs_slots (heap b) xss2"
    using d by (auto intro!: abs_slots_outside [OF out])
  show "heap b1 ! i = x" using i by (simp add: b1)
qed

text \<open>Giving the slot back, when nothing is left of the order.\<close>

lemma entering_drop:
  assumes ent: "entering b ls1 s1 xss1 ls2 s2 xss2 i fr"
    and b1: "b1 = b\<lparr>ob_pool := pool_given (ob_pool b) i\<rparr>"
  shows "deallocate dbg (Some i) (ob_pool b) = Inr (pool_given (ob_pool b) i)"
    and "sides_rep b1 ls1 s1 xss1 ls2 s2 xss2 (i # fr)"
    and "abs_slots (heap b1) xss1 = abs_slots (heap b) xss1" "abs_slots (heap b1) xss2 = abs_slots (heap b) xss2"
proof -
  note e = ent [unfolded entering_def match_state_def]
  have i: "i < length (heap b)" and d: "i \<notin> set (concat xss1 @ concat xss2 @ fr)" and pool: "pool_rep (ob_pool b) fr"
    using e by auto
  show "deallocate dbg (Some i) (ob_pool b) = Inr (pool_given (ob_pool b) i)"
    using pool i d by (intro deallocate_run) auto
  have out: "same_outside {i} (heap b1) (heap b)"
    using i by (simp add: b1 same_outside_def nth_list_update)
  have "pool_rep (ob_pool b1) (i # fr)"
    using pool i d by (auto simp: b1 intro: deallocate_rep)
  moreover have "levels_rep (heap b1) s1 ls1 xss1" "levels_rep (heap b1) s2 ls2 xss2"
    using e d by (auto intro: levels_rep_outside [OF out])
  moreover have "index_rep (ob_orderIndex b) (heap b1) (concat xss1 @ concat xss2)"
    by (rule index_rep_cong [of _ "heap b" "concat xss1 @ concat xss2"])
      (use e i in \<open>auto simp: b1 nth_list_update\<close>)
  ultimately show "sides_rep b1 ls1 s1 xss1 ls2 s2 xss2 (i # fr)"
    using e d pool_rep_distinct [OF pool] by (auto simp: sides_rep_def b1)
  show "abs_slots (heap b1) xss1 = abs_slots (heap b) xss1" "abs_slots (heap b1) xss2 = abs_slots (heap b) xss2"
    using d by (auto intro!: abs_slots_outside [OF out])
qed

section \<open>Incoming orders\<close>

locale taking = maker: match_side mlv mset mworse beyond trade loop match +
    rest: rest_side rlv rset rworse s find findOrCreate msg
  for mlv mset mworse beyond trade and loop :: "bool \<Rightarrow> (Trade \<Rightarrow> 'c \<Rightarrow> 'c) \<Rightarrow> nat \<Rightarrow> u32 \<Rightarrow> nat \<Rightarrow> nat \<Rightarrow>
      OrderBook \<Rightarrow> 'c \<Rightarrow> fault + nat \<times> OrderBook \<times> 'c"
    and match and rlv rset rworse s find findOrCreate msg +
  fixes ms :: Side
  assumes rlv_mset [simp]: "rlv (mset ls b) = rlv b" and mlv_rset [simp]: "mlv (rset ls b) = mlv b"
begin

text \<open>Matching keeps the order on its way in, with what is left of it.\<close>

lemma entering_match:
  assumes ent: "entering b (mlv b) ms mxs (rlv b) s rxs i fr" and sorted: "sorted_wrt mworse (map pl_price (mlv b))"
    and spec: "spec_match (beyond (o_price (heap b ! i))) (o_participantId (heap b ! i))
      (o_quantity (heap b ! i)) (abs_slots (heap b) mxs) = (fs, q', rs')"
  obtains b' mxs' fr' where
    "match dbg onTrade i b c = Inr (b', fold onTrade (fill_trades trade (o_orderId (heap b ! i)) fs) c)"
    and "entering b' (mlv b') ms mxs' (rlv b') s rxs i fr'" and "sorted_wrt mworse (map pl_price (mlv b'))"
    and "rlv b' = rlv b" and "ob_sequence b' = ob_sequence b"
    and "op_capacity (ob_pool b') = op_capacity (ob_pool b)"
    and "abs_slots (heap b') mxs' = rs'" and "abs_slots (heap b') rxs = abs_slots (heap b) rxs"
    and "payload (heap b' ! i) = (payload (heap b ! i))\<lparr>o_quantity := q'\<rparr>"
proof -
  note e = ent [unfolded entering_def]
  from e have st: "match_state ms b (mlv b) (length (mlv b)) i mxs (concat rxs) fr" by simp
  obtain p' idx' ls' mxs' fr' where
    run: "match dbg onTrade i b c = Inr (mset ls' (b\<lparr>ob_pool := p', ob_orderIndex := idx'\<rparr>),
           fold onTrade (fill_trades trade (o_orderId (heap b ! i)) fs) c)"
    and st': "match_state ms (b\<lparr>ob_pool := p', ob_orderIndex := idx'\<rparr>) ls' (length ls') i mxs' (concat rxs) fr'"
    and mv: "match_moved b (mlv b) (length (mlv b)) i mxs fr q'
           (b\<lparr>ob_pool := p', ob_orderIndex := idx'\<rparr>) ls' (length ls') mxs' fr'"
    and rs': "abs_slots (op_orders p') mxs' = rs'"
    using maker.match_spec [OF st spec] .
  note m = mv [unfolded match_moved_def] and d = st [unfolded match_state_def] and d' = st' [unfolded match_state_def]
  have out: "same_outside (insert i (set (concat mxs))) (op_orders p') (heap b)"
    and pay: "payload (op_orders p' ! i) = (payload (heap b ! i))\<lparr>o_quantity := q'\<rparr>" using m by simp_all
  have sep: "insert i (set (concat mxs)) \<inter> set (concat rxs) = {}" using d by auto
  have ids: "o_orderId (op_orders p' ! i) = o_orderId (heap b ! i)"
    using arg_cong [OF pay, of o_orderId] by simp
  have other: "abs_slots (op_orders p') rxs = abs_slots (heap b) rxs"
    using sep by (rule abs_slots_outside [OF out])
  have "um_find (ob_orderIndex b) (o_orderId (heap b ! i)) = None"
    using e by simp
  then have fresh: "um_find idx' (o_orderId (op_orders p' ! i)) = None"
    using index_rep_fresh [of "ob_orderIndex b" "heap b" mxs rxs] d spec_match_subset [OF spec]
      index_rep_fresh [of idx' "op_orders p'" mxs' rxs] d' by (auto simp: rs' other ids)
  have "levels_rep (op_orders p') s (rlv b) rxs"
    using levels_rep_outside [OF out sep] e by simp
  moreover have "set (i # concat mxs' @ concat rxs @ fr') = {..<length (op_orders p')}"
    using m e out by (auto simp: same_outside_def)
  ultimately have ent': "entering (mset ls' (b\<lparr>ob_pool := p', ob_orderIndex := idx'\<rparr>)) ls' ms mxs' (rlv b) s rxs i fr'"
    using st' e fresh by (simp add: entering_def)
  have "map pl_price ls' = take (length ls') (map pl_price (mlv b))"
    using m by (simp add: take_map)
  then have sorted': "sorted_wrt mworse (map pl_price ls')"
    using sorted by (metis sorted_wrt_take)
  show thesis
    by (rule that [OF run]) (use ent' sorted' rs' other pay m in simp_all)
qed

text \<open>The remainder comes to rest.\<close>

lemma entering_rest:
  assumes ent: "entering b (mlv b) ms mxs (rlv b) s rxs i fr" and sorted: "sorted_wrt rworse (map pl_price (rlv b))"
    and room: "dbg \<longrightarrow> p \<in> pl_price ` set (rlv b) \<or> length (rlv b) < kDefaultMaxPriceLevels"
    and ok: "o_price (heap b ! i) = p" "o_side (heap b ! i) = s" "0 < o_quantity (heap b ! i)"
    and k: "o_orderId (heap b ! i) = k"
  obtains b' rxs' where "rest_order dbg s p k i b = Inr b'"
    and "sides_rep b' (mlv b') ms mxs (rlv b') s rxs' fr" and "sorted_wrt rworse (map pl_price (rlv b'))"
    and "mlv b' = mlv b" and "ob_sequence b' = ob_sequence b"
    and "op_capacity (ob_pool b') = op_capacity (ob_pool b)" and "abs_slots (heap b') mxs = abs_slots (heap b) mxs"
    and "abs_slots (heap b') rxs' = spec_insert rworse (payload (heap b ! i)) (abs_slots (heap b) rxs)"
proof -
  note e = ent [unfolded entering_def match_state_def]
  have i: "i < length (heap b)" "i \<notin> set (concat rxs)" and rep: "levels_rep (heap b) s (rlv b) rxs"
    and dist: "distinct (concat rxs)" and d: "i \<notin> set (concat mxs @ fr)"
    using e by auto
  obtain h' ls' rxs' where run: "rest_order dbg s p k i b =
      Inr ((set_heap h' (rset ls' b))\<lparr>ob_orderIndex := um_emplace (ob_orderIndex b) k i\<rparr>)"
    and rep': "levels_rep h' s ls' rxs'" and sorted': "sorted_wrt rworse (map pl_price ls')"
    and dist': "distinct (concat rxs')" and set': "set (concat rxs') = insert i (set (concat rxs))"
    and pay: "same_payloads h' (heap b)" and out: "same_outside (insert i (set (concat rxs))) h' (heap b)"
    and abs': "abs_slots h' rxs' = spec_insert rworse (payload (heap b ! i)) (abs_slots (heap b) rxs)"
    using rest.rest_run [OF sorted rep dist room i ok] .
  have sep: "insert i (set (concat rxs)) \<inter> set (concat mxs) = {}" "insert i (set (concat rxs)) \<inter> set fr = {}"
    using e by auto
  have ids: "o_orderId (h' ! j) = o_orderId (heap b ! j)" for j
  proof (cases "j < length (heap b)")
    case True
    then show ?thesis using payload_eqD(1) [OF same_payloadsD [OF pay]] by blast
  next
    case False
    with i levels_rep_bound [OF rep] have "j \<notin> insert i (set (concat rxs))" by blast
    with out show ?thesis by (simp add: same_outside_def)
  qed
  have "pool_rep ((ob_pool b)\<lparr>op_orders := h'\<rparr>) fr"
    using pool_rep_outside [OF _ out sep(2)] e by simp
  moreover have "index_rep (um_emplace (ob_orderIndex b) k i) h' (concat mxs @ concat rxs')"
    by (rule index_rep_emplace [of _ "heap b" "concat mxs @ concat rxs"])
      (use e d i k ids set' in auto)
  moreover have "levels_rep h' ms (mlv b) mxs"
    using levels_rep_outside [OF out sep(1)] e by simp
  ultimately have "sides_rep ((set_heap h' (rset ls' b))\<lparr>ob_orderIndex := um_emplace (ob_orderIndex b) k i\<rparr>)
      (mlv b) ms mxs ls' s rxs' fr"
    using e rep' dist' set' out pool_rep_distinct [of "ob_pool b" fr] by (auto simp: sides_rep_def same_outside_def)
  then show thesis
    using abs' sorted' abs_slots_outside [OF out sep(1)] by (intro that [OF run]) simp_all
qed

text \<open>The part of \<open>addLimitOrder\<close> that follows the initialisation of the order.\<close>

lemma taking_run:
  assumes ent: "entering b (mlv b) ms mxs (rlv b) s rxs i fr"
    and sorted: "sorted_wrt mworse (map pl_price (mlv b))" "sorted_wrt rworse (map pl_price (rlv b))"
    and room: "dbg \<longrightarrow> p \<in> pl_price ` set (rlv b) \<or> length (rlv b) < kDefaultMaxPriceLevels"
    and x: "o_price (heap b ! i) = p" "o_side (heap b ! i) = s" "o_orderId (heap b ! i) = k"
    and spec: "spec_match (beyond p) (o_participantId (heap b ! i))
      (o_quantity (heap b ! i)) (abs_slots (heap b) mxs) = (fs, q', rs')"
  obtains b' mxs' rxs' fr' where
    "bindR (match dbg onTrade i b c) (\<lambda>(b, c).
     bindR (rd (heap b) i) (\<lambda>x.
     if 0 < o_quantity x
     then bindR (rest_order dbg s p k i b) (\<lambda>b. Inr (b, c))
     else bindR (deallocate dbg (Some i) (ob_pool b)) (\<lambda>p. Inr (b\<lparr>ob_pool := p\<rparr>, c)))) =
     Inr (b', fold onTrade (fill_trades trade k fs) c)"
    and "sides_rep b' (mlv b') ms mxs' (rlv b') s rxs' fr'"
    and "sorted_wrt mworse (map pl_price (mlv b'))" and "sorted_wrt rworse (map pl_price (rlv b'))"
    and "ob_sequence b' = ob_sequence b" and "op_capacity (ob_pool b') = op_capacity (ob_pool b)"
    and "abs_slots (heap b') mxs' = rs'"
    and "abs_slots (heap b') rxs' = (if 0 < q'
      then spec_insert rworse ((payload (heap b ! i))\<lparr>o_quantity := q'\<rparr>) (abs_slots (heap b) rxs)
      else abs_slots (heap b) rxs)"
proof -
  obtain b1 mxs1 fr1 where
    run: "match dbg onTrade i b c = Inr (b1, fold onTrade (fill_trades trade k fs) c)"
    and ent1: "entering b1 (mlv b1) ms mxs1 (rlv b1) s rxs i fr1" and sorted1: "sorted_wrt mworse (map pl_price (mlv b1))"
    and b1: "rlv b1 = rlv b" "ob_sequence b1 = ob_sequence b" "op_capacity (ob_pool b1) = op_capacity (ob_pool b)"
    and abs1: "abs_slots (heap b1) mxs1 = rs'" "abs_slots (heap b1) rxs = abs_slots (heap b) rxs"
    and pay: "payload (heap b1 ! i) = (payload (heap b ! i))\<lparr>o_quantity := q'\<rparr>"
    using entering_match [OF ent sorted(1)] spec x by metis
  have q: "o_quantity (heap b1 ! i) = q'" and x1: "o_price (heap b1 ! i) = p" "o_side (heap b1 ! i) = s"
    "o_orderId (heap b1 ! i) = k"
    using arg_cong [OF pay, of o_quantity] arg_cong [OF pay, of o_price] arg_cong [OF pay, of o_side]
      arg_cong [OF pay, of o_orderId] x by simp_all
  have i: "i < length (heap b1)" using ent1 by (simp add: entering_def match_state_def)
  show thesis
  proof (cases "0 < q'")
    case True
    obtain b' rxs' where "rest_order dbg s p k i b1 = Inr b'"
      and "sides_rep b' (mlv b') ms mxs1 (rlv b') s rxs' fr1" and "sorted_wrt rworse (map pl_price (rlv b'))"
      and "mlv b' = mlv b1" and "ob_sequence b' = ob_sequence b1"
      and "op_capacity (ob_pool b') = op_capacity (ob_pool b1)" and "abs_slots (heap b') mxs1 = abs_slots (heap b1) mxs1"
      and "abs_slots (heap b') rxs' = spec_insert rworse (payload (heap b1 ! i)) (abs_slots (heap b1) rxs)"
      by (rule entering_rest [OF ent1 _ _ x1(1,2) _ x1(3)]) (use sorted(2) room b1 q True in auto)
    with run i q b1 abs1 sorted1 pay True show thesis
      by (intro that [of b' mxs1 rxs' fr1]) auto
  next
    case False
    let ?b = "b1\<lparr>ob_pool := pool_given (ob_pool b1) i\<rparr>"
    note drop = entering_drop [OF ent1 refl]
    have "mlv ?b = mlv b1" "rlv ?b = rlv b1" by simp_all
    with drop run i q b1 abs1 sorted1 sorted(2) False show thesis
      by (intro that [of ?b mxs1 rxs "i # fr1"]) auto
  qed
qed

text \<open>Taking a resting order out of its side and giving its slot back.\<close>

lemma leaving_run:
  assumes rep: "sides_rep b (mlv b) ms mxs (rlv b) s rxs fr" and sorted: "sorted_wrt rworse (map pl_price (rlv b))"
    and i: "i \<in> set (concat rxs)"
  obtains h' ls' rxs' b' where "find b (o_price (heap b ! i)) \<noteq> length (rlv b)"
    and "pl_price (rlv b ! find b (o_price (heap b ! i))) = o_price (heap b ! i)"
    and "o_side (heap b ! i) = s" "0 < o_quantity (heap b ! i)"
    and "unlink_level b (rlv b) (find b (o_price (heap b ! i))) i = Inr (h', ls')"
    and "b' = (rset ls' b)\<lparr>ob_pool := pool_given ((ob_pool b)\<lparr>op_orders := h'\<rparr>) i,
                          ob_orderIndex := um_erase (ob_orderIndex b) (o_orderId (heap b ! i))\<rparr>"
    and "deallocate dbg (Some i) ((ob_pool b)\<lparr>op_orders := h'\<rparr>) = Inr (ob_pool b')"
    and "sides_rep b' (mlv b) ms mxs ls' s rxs' (i # fr)" and "sorted_wrt rworse (map pl_price ls')"
    and "abs_slots (heap b') mxs = abs_slots (heap b) mxs"
    and "abs_slots (heap b') rxs' = filter (\<lambda>x. o_orderId x \<noteq> o_orderId (heap b ! i)) (abs_slots (heap b) rxs)"
proof -
  note r = rep [unfolded sides_rep_def]
  have lr: "levels_rep (heap b) s (rlv b) rxs" and dist: "distinct (concat rxs)" using r by simp_all
  have idx: "index_rep (ob_orderIndex b) (heap b) (concat mxs @ concat rxs)" using r by simp
  have inj: "inj_on (\<lambda>j. o_orderId (heap b ! j)) (set (concat rxs))"
    using index_rep_inj [OF idx] by (rule inj_on_subset) simp
  obtain h' ls' rxs' where found: "find b (o_price (heap b ! i)) \<noteq> length (rlv b)"
      "pl_price (rlv b ! find b (o_price (heap b ! i))) = o_price (heap b ! i)"
      "o_side (heap b ! i) = s" "0 < o_quantity (heap b ! i)"
    and run: "unlink_level b (rlv b) (find b (o_price (heap b ! i))) i = Inr (h', ls')"
    and lr': "levels_rep h' s ls' rxs'" and sorted': "sorted_wrt rworse (map pl_price ls')"
    and dist': "distinct (concat rxs')" and set': "set (concat rxs') = set (concat rxs) - {i}"
    and pay: "same_payloads h' (heap b)" and out: "same_outside (set (concat rxs)) h' (heap b)"
    and abs': "abs_slots h' rxs' = filter (\<lambda>x. o_orderId x \<noteq> o_orderId (heap b ! i)) (abs_slots (heap b) rxs)"
    using rest.unlink_run [OF sorted lr dist i inj] .
  let ?p = "(ob_pool b)\<lparr>op_orders := h'\<rparr>"
  let ?b = "(rset ls' b)\<lparr>ob_pool := pool_given ?p i,
      ob_orderIndex := um_erase (ob_orderIndex b) (o_orderId (heap b ! i))\<rparr>"
  have sep: "set (concat rxs) \<inter> set (concat mxs) = {}" "set (concat rxs) \<inter> set fr = {}" using r by auto
  have len: "length h' = length (heap b)" "i < length h'" and ifr: "i \<notin> set fr"
    using out levels_rep_bound [OF lr i] sep i by (auto simp: same_outside_def)
  have pool: "pool_rep ?p fr"
    using pool_rep_outside [OF _ out sep(2)] r by simp
  have out2: "same_outside {i} (heap ?b) h'"
    by (simp add: same_outside_def nth_list_update)
  then have out3: "same_outside (set (concat rxs)) (heap ?b) (heap b)"
    using i by (intro same_outside_trans [OF out2 out]) auto
  have ids: "o_orderId (heap ?b ! j) = o_orderId (heap b ! j)" for j
  proof -
    have "o_orderId (heap ?b ! j) = o_orderId (h' ! j)" using len by (simp add: nth_list_update)
    also have "\<dots> = o_orderId (heap b ! j)"
    proof (cases "j < length (heap b)")
      case True
      then show ?thesis using payload_eqD(1) [OF same_payloadsD [OF pay]] by blast
    next
      case False
      with levels_rep_bound [OF lr] have "j \<notin> set (concat rxs)" by blast
      with out show ?thesis by (simp add: same_outside_def)
    qed
    finally show ?thesis .
  qed
  have "levels_rep (heap ?b) ms (mlv b) mxs"
    using levels_rep_outside [OF out3 sep(1)] r by simp
  moreover have "levels_rep (heap ?b) s ls' rxs'"
    using lr' set' by (intro levels_rep_outside [OF out2]) auto
  moreover have "index_rep (um_erase (ob_orderIndex b) (o_orderId (heap b ! i))) (heap ?b) (concat mxs @ concat rxs')"
  proof (rule index_rep_erase [OF idx])
    show "i \<in> set (concat mxs @ concat rxs)" using i by simp
    show "set (concat mxs @ concat rxs') = set (concat mxs @ concat rxs) - {i}" using set' sep i by auto
  qed (use ids in simp_all)
  moreover have "pool_rep (ob_pool ?b) (i # fr)"
    using deallocate_rep [OF pool _ ifr] len by simp
  ultimately have "sides_rep ?b (mlv b) ms mxs ls' s rxs' (i # fr)"
    using r dist' set' sep i len ifr by (auto simp: sides_rep_def)
  moreover have "deallocate dbg (Some i) ?p = Inr (ob_pool ?b)"
    using deallocate_run [OF pool _ ifr] len by simp
  moreover have "abs_slots (heap ?b) rxs' = abs_slots h' rxs'"
    using set' by (intro abs_slots_outside [OF out2]) auto
  ultimately show thesis
    using abs' abs_slots_outside [OF out3 sep(1)] sorted' by (intro that [OF found run refl]) simp_all
qed

end

section \<open>The invariant and the abstraction\<close>

interpretation buying: taking ob_asks "\<lambda>ls b. b\<lparr>ob_asks := ls\<rparr>" "(>)" "(<)" buy_trade matchBuy_loop matchBuy
    ob_bids "\<lambda>ls b. b\<lparr>ob_bids := ls\<rparr>" "(<)" Buy findBidLevel findOrCreateBidLevel
    "''bids_.size() < bids_.capacity()''" Sell
  by unfold_locales simp_all

interpretation selling: taking ob_bids "\<lambda>ls b. b\<lparr>ob_bids := ls\<rparr>" "(<)" "(>)" sell_trade matchSell_loop matchSell
    ob_asks "\<lambda>ls b. b\<lparr>ob_asks := ls\<rparr>" "(>)" Sell findAskLevel findOrCreateAskLevel
    "''asks_.size() < asks_.capacity()''" Buy
  by unfold_locales simp_all

definition book_rep :: "OrderBook \<Rightarrow> nat list list \<Rightarrow> nat list list \<Rightarrow> nat list \<Rightarrow> bool" where
  "book_rep b bxs axs fr \<longleftrightarrow> sides_rep b (ob_bids b) Buy bxs (ob_asks b) Sell axs fr \<and>
     sorted_wrt (<) (map pl_price (ob_bids b)) \<and> sorted_wrt (>) (map pl_price (ob_asks b))"

definition book_slots :: "Order list \<Rightarrow> PriceLevel list \<Rightarrow> nat list list" where
  "book_slots h ls = map (level_slots h) ls"

definition book_inv :: "OrderBook \<Rightarrow> bool" where
  "book_inv b \<longleftrightarrow> book_rep b (book_slots (heap b) (ob_bids b)) (book_slots (heap b) (ob_asks b))
     (free_slots (ob_pool b))"

definition abs_book :: "OrderBook \<Rightarrow> SpecBook" where
  "abs_book b = \<lparr>sb_bids = abs_slots (heap b) (book_slots (heap b) (ob_bids b)),
                 sb_asks = abs_slots (heap b) (book_slots (heap b) (ob_asks b)),
                 sb_sequence = ob_sequence b\<rparr>"

lemma levels_rep_slots: "levels_rep h s ls xss \<Longrightarrow> book_slots h ls = xss"
  unfolding levels_rep_def book_slots_def
  by (induction rule: list_all2_induct) (auto simp: level_rep_def level_links_slots)

lemma book_rep_slots:
  assumes "book_rep b bxs axs fr"
  shows "book_slots (heap b) (ob_bids b) = bxs" "book_slots (heap b) (ob_asks b) = axs"
    "free_slots (ob_pool b) = fr"
  using assms by (auto simp: book_rep_def sides_rep_def levels_rep_slots pool_rep_free_slots)

lemma book_rep_inv: "book_rep b bxs axs fr \<Longrightarrow> book_inv b"
  by (simp add: book_inv_def book_rep_slots)

lemma book_inv_rep:
  assumes "book_inv b"
  obtains bxs axs fr where "book_rep b bxs axs fr"
  using assms by (auto simp: book_inv_def)

lemma book_rep_abs:
  "book_rep b bxs axs fr \<Longrightarrow>
     abs_book b = \<lparr>sb_bids = abs_slots (heap b) bxs, sb_asks = abs_slots (heap b) axs, sb_sequence = ob_sequence b\<rparr>"
  by (simp add: abs_book_def book_rep_slots)

lemma OrderBook_new_ok:
  assumes "capacity \<noteq> 0"
  obtains b where "OrderBook_new capacity = Inr b" and "book_inv b" and "op_capacity (ob_pool b) = capacity"
    and "abs_book b = \<lparr>sb_bids = [], sb_asks = [], sb_sequence = 0\<rparr>"
proof -
  obtain p where p: "OrderPool_new capacity = Inr p" "pool_rep p [0..<unat capacity]" "op_capacity p = capacity"
    "length (op_orders p) = unat capacity"
    using OrderPool_new_ok [OF assms] .
  let ?b = "\<lparr>ob_pool = p, ob_bids = [], ob_asks = [], ob_orderIndex = [], ob_sequence = 0\<rparr>"
  have "book_rep ?b [] [] [0..<unat capacity]"
    using p by (auto simp: book_rep_def sides_rep_def index_rep_def)
  from book_rep_inv [OF this] book_rep_abs [OF this] p show thesis
    by (intro that [of ?b]) (simp_all add: OrderBook_new_def)
qed

section \<open>Adding an order\<close>

text \<open>
  In a build with asserts a new price level needs a place in the reserved part of its vector.
\<close>

definition has_room :: "bool \<Rightarrow> Side \<Rightarrow> u32 \<Rightarrow> OrderBook \<Rightarrow> bool" where
  "has_room dbg side price b =
     (let ls = (case side of Buy \<Rightarrow> ob_bids b | Sell \<Rightarrow> ob_asks b) in
      dbg \<longrightarrow> price \<in> pl_price ` set ls \<or> length ls < kDefaultMaxPriceLevels)"

text \<open>The book after the slot of an incoming order is taken and initialised.\<close>

definition entered :: "OrderBook \<Rightarrow> nat \<Rightarrow> Order \<Rightarrow> OrderBook" where
  "entered b i x = b\<lparr>ob_pool := (pool_taken (ob_pool b) i)\<lparr>op_orders := (heap b)[i := x]\<rparr>,
                     ob_sequence := ob_sequence b + 1\<rparr>"

lemma entered_fields [simp]:
  "ob_bids (entered b i x) = ob_bids b" "ob_asks (entered b i x) = ob_asks b"
  "ob_sequence (entered b i x) = ob_sequence b + 1" "heap (entered b i x) = (heap b)[i := x]"
  "ob_orderIndex (entered b i x) = ob_orderIndex b" "op_capacity (ob_pool (entered b i x)) = op_capacity (ob_pool b)"
  by (simp_all add: entered_def)

lemma addLimitOrder_entered:
  assumes "pool_rep (ob_pool b) (j # fr)" and x: "x = new_order side price q i pid (ob_sequence b)"
  shows "addLimitOrder dbg onTrade side price q i pid b c =
    bindR (case side of Buy \<Rightarrow> matchBuy dbg onTrade j (entered b j x) c
                      | Sell \<Rightarrow> matchSell dbg onTrade j (entered b j x) c) (\<lambda>(b, c).
    bindR (rd (heap b) j) (\<lambda>x.
    if 0 < o_quantity x
    then bindR (rest_order dbg side price i j b) (\<lambda>b. Inr (b, c))
    else bindR (deallocate dbg (Some j) (ob_pool b)) (\<lambda>p. Inr (b\<lparr>ob_pool := p\<rparr>, c))))"
proof -
  have j: "j < length (heap b)" using assms(1) by (simp add: pool_rep_def)
  have "Order_init (payload (heap b ! j)) i price q (ob_sequence b) side pid = x"
    by (simp add: Order_init_def payload_def new_order_def x)
  then have init: "wr (op_orders (pool_taken (ob_pool b) j)) j
      (\<lambda>y. Order_init y i price q (ob_sequence b) side pid) = Inr ((heap b)[j := x])"
    using j by simp
  have e: "b\<lparr>ob_pool := pool_taken (ob_pool b) j\<lparr>op_orders := (heap b)[j := x]\<rparr>,
      ob_sequence := ob_sequence b + 1\<rparr> = entered b j x"
    by (simp add: entered_def)
  have h: "j < length (heap (entered b j x))" "o_price (heap (entered b j x) ! j) = price"
    using j by (simp_all add: x new_order_def)
  have gate: "(case side of
        Buy \<Rightarrow> (case bestAsk (entered b j x) of None \<Rightarrow> Inr (entered b j x, c)
          | Some pl \<Rightarrow> if price \<ge> pl_price pl then matchBuy dbg onTrade j (entered b j x) c else Inr (entered b j x, c))
      | Sell \<Rightarrow> (case bestBid (entered b j x) of None \<Rightarrow> Inr (entered b j x, c)
          | Some pl \<Rightarrow> if price \<le> pl_price pl then matchSell dbg onTrade j (entered b j x) c else Inr (entered b j x, c))) =
      (case side of Buy \<Rightarrow> matchBuy dbg onTrade j (entered b j x) c
                  | Sell \<Rightarrow> matchSell dbg onTrade j (entered b j x) c)"
    using buy_side.match_gate [OF h, where dbg = dbg and onTrade = onTrade and c = c]
      sell_side.match_gate [OF h, where dbg = dbg and onTrade = onTrade and c = c]
    by (simp add: bestAsk_def bestBid_def not_less cong: option.case_cong split: Side.split)
  show ?thesis
    unfolding addLimitOrder_def allocate_run [OF assms(1)] bindR_Inr case_prod_conv init Let_def e gate ..
qed

lemma addLimitOrder_run:
  assumes inv: "book_inv b" and fresh: "um_find (ob_orderIndex b) i = None"
    and free: "0 < op_freeCount (ob_pool b)" and room: "has_room dbg side price b"
  obtains b' where "addLimitOrder dbg onTrade side price q i pid b c =
      Inr (b', fold onTrade (fst (spec_add side price q i pid (abs_book b))) c)"
    and "book_inv b'" and "abs_book b' = snd (spec_add side price q i pid (abs_book b))"
    and "op_capacity (ob_pool b') = op_capacity (ob_pool b)"
proof -
  obtain bxs axs fr where rep: "book_rep b bxs axs fr" using book_inv_rep [OF inv] .
  note r = rep [unfolded book_rep_def]
  note abs = book_rep_abs [OF rep]
  from r have pool: "pool_rep (ob_pool b) fr" by (simp add: sides_rep_def)
  with free obtain j fr1 where fr: "fr = j # fr1"
    by (cases fr) (auto simp: pool_rep_def word_gt_0 unat_eq_0)
  define x where "x = new_order side price q i pid (ob_sequence b)"
  have sides: "sides_rep b (ob_bids b) Buy bxs (ob_asks b) Sell axs (j # fr1)"
    using r fr by simp
  have xi: "o_orderId x = i" by (simp add: x_def new_order_def)
  note run = addLimitOrder_entered [OF pool [unfolded fr] x_def, of dbg onTrade c]
  let ?b = "entered b j x"
  have xj: "heap ?b ! j = x" using entering_init(4) [OF sides fresh xi entered_def] .
  have x: "o_price (heap ?b ! j) = price" "o_side (heap ?b ! j) = side" "o_orderId (heap ?b ! j) = i"
    "o_participantId (heap ?b ! j) = pid" "o_quantity (heap ?b ! j) = q"
    "\<And>q'. (payload (heap ?b ! j))\<lparr>o_quantity := q'\<rparr> = new_order side price q' i pid (ob_sequence b)"
    unfolding xj by (simp_all add: x_def new_order_def payload_def)
  show thesis
  proof (cases side)
    case Buy
    note ent = entering_init [OF sides_rep_swap [OF sides] fresh xi entered_def]
    obtain fs q' rs' where spec: "spec_match (\<lambda>p. price < p) pid q (abs_slots (heap b) axs) = (fs, q', rs')"
      by (metis prod_cases3)
    obtain b' axs' bxs' fr' where
      run': "addLimitOrder dbg onTrade side price q i pid b c = Inr (b', fold onTrade (fill_trades buy_trade i fs) c)"
      and s: "sides_rep b' (ob_asks b') Sell axs' (ob_bids b') Buy bxs' fr'"
      and sorted: "sorted_wrt (>) (map pl_price (ob_asks b'))" "sorted_wrt (<) (map pl_price (ob_bids b'))"
      and out: "ob_sequence b' = ob_sequence ?b" "op_capacity (ob_pool b') = op_capacity (ob_pool ?b)"
        "abs_slots (heap b') axs' = rs'"
        "abs_slots (heap b') bxs' = (if 0 < q'
        then spec_insert (<) ((payload (heap ?b ! j))\<lparr>o_quantity := q'\<rparr>) (abs_slots (heap ?b) bxs)
        else abs_slots (heap ?b) bxs)"
      by (rule buying.taking_run [of ?b axs bxs j fr1 dbg price i fs q' rs' onTrade c])
        (use ent(1) r room spec ent(2,3) in \<open>simp_all add: has_room_def Let_def x [unfolded Buy] run [unfolded Buy] Buy
          del: entered_fields(4)\<close>)
    have "book_rep b' bxs' axs' fr'"
      using sides_rep_swap [OF s] sorted by (simp add: book_rep_def)
    from book_rep_inv [OF this] book_rep_abs [OF this] run' out spec Buy show thesis
      by (intro that [of b']) (simp_all add: spec_add_def abs x ent(2,3) del: entered_fields(4))
  next
    case Sell
    note ent = entering_init [OF sides fresh xi entered_def]
    obtain fs q' rs' where spec: "spec_match (\<lambda>p. p < price) pid q (abs_slots (heap b) bxs) = (fs, q', rs')"
      by (metis prod_cases3)
    obtain b' bxs' axs' fr' where
      run': "addLimitOrder dbg onTrade side price q i pid b c = Inr (b', fold onTrade (fill_trades sell_trade i fs) c)"
      and s: "sides_rep b' (ob_bids b') Buy bxs' (ob_asks b') Sell axs' fr'"
      and sorted: "sorted_wrt (<) (map pl_price (ob_bids b'))" "sorted_wrt (>) (map pl_price (ob_asks b'))"
      and out: "ob_sequence b' = ob_sequence ?b" "op_capacity (ob_pool b') = op_capacity (ob_pool ?b)"
        "abs_slots (heap b') bxs' = rs'"
        "abs_slots (heap b') axs' = (if 0 < q'
        then spec_insert (>) ((payload (heap ?b ! j))\<lparr>o_quantity := q'\<rparr>) (abs_slots (heap ?b) axs)
        else abs_slots (heap ?b) axs)"
      by (rule selling.taking_run [of ?b bxs axs j fr1 dbg price i fs q' rs' onTrade c])
        (use ent(1) r room spec ent(2,3) in \<open>simp_all add: has_room_def Let_def x [unfolded Sell] run [unfolded Sell] Sell
          del: entered_fields(4)\<close>)
    have "book_rep b' bxs' axs' fr'"
      using s sorted by (simp add: book_rep_def)
    from book_rep_inv [OF this] book_rep_abs [OF this] run' out spec Sell show thesis
      by (intro that [of b']) (simp_all add: spec_add_def abs x ent(2,3) del: entered_fields(4))
  qed
qed

section \<open>Cancelling an order\<close>

lemma cancel_none: "i \<notin> o_orderId ` set (spec_orders sb) \<Longrightarrow> spec_cancel i sb = sb"
  by (cases sb) (simp add: spec_cancel_def spec_orders_def filter_not_in image_Un)

lemma book_rep_find:
  assumes "book_rep b bxs axs fr"
  shows "um_find (ob_orderIndex b) k = Some i \<longleftrightarrow> i \<in> set (concat bxs @ concat axs) \<and> o_orderId (heap b ! i) = k"
  using assms by (intro index_rep_find) (simp add: book_rep_def sides_rep_def)

lemma book_inv_fresh:
  assumes "book_inv b"
  shows "um_find (ob_orderIndex b) k = None \<longleftrightarrow> k \<notin> o_orderId ` set (spec_orders (abs_book b))"
proof -
  obtain bxs axs fr where rep: "book_rep b bxs axs fr" using book_inv_rep [OF assms] .
  then have "index_rep (ob_orderIndex b) (heap b) (concat bxs @ concat axs)"
    by (simp add: book_rep_def sides_rep_def)
  from index_rep_fresh [OF this] show ?thesis
    by (auto simp: book_rep_abs [OF rep] spec_orders_def)
qed

text \<open>The ids of one side do not occur on the other.\<close>

lemma sides_other_ids:
  assumes "sides_rep b ls1 s1 xss1 ls2 s2 xss2 fr" and "i \<in> set (concat xss2)"
  shows "filter (\<lambda>x. o_orderId x \<noteq> o_orderId (heap b ! i)) (abs_slots (heap b) xss1) = abs_slots (heap b) xss1"
proof -
  have idx: "index_rep (ob_orderIndex b) (heap b) (concat xss1 @ concat xss2)"
    and sep: "i \<notin> set (concat xss1)"
    using assms by (auto simp: sides_rep_def)
  have "o_orderId (heap b ! j) \<noteq> o_orderId (heap b ! i)" if "j \<in> set (concat xss1)" for j
    using that assms(2) sep index_rep_inj [OF idx] unfolding inj_on_def by (metis UnCI set_append)
  then have "o_orderId (heap b ! i) \<notin> o_orderId ` set (abs_slots (heap b) xss1)"
    unfolding abs_slots_ids by (metis (no_types, lifting) imageE)
  then show ?thesis by (rule filter_not_in)
qed

lemma cancelOrder_run:
  assumes inv: "book_inv b"
  obtains b' where "cancelOrder dbg k b = Inr b'" and "book_inv b'"
    and "abs_book b' = spec_cancel k (abs_book b)" and "op_capacity (ob_pool b') = op_capacity (ob_pool b)"
proof (cases "um_find (ob_orderIndex b) k")
  case None
  then have "cancelOrder dbg k b = Inr b" by (simp add: cancelOrder_def)
  moreover have "abs_book b = spec_cancel k (abs_book b)"
    using None book_inv_fresh [OF inv] by (simp add: cancel_none)
  ultimately show thesis using inv by (intro that [of b]) simp_all
next
  case (Some i)
  obtain bxs axs fr where rep: "book_rep b bxs axs fr" using book_inv_rep [OF inv] .
  note r = rep [unfolded book_rep_def] and abs = book_rep_abs [OF rep]
  from r have sides: "sides_rep b (ob_bids b) Buy bxs (ob_asks b) Sell axs fr" by simp
  from Some book_rep_find [OF rep] have i: "i \<in> set (concat bxs) \<or> i \<in> set (concat axs)"
    and k: "o_orderId (heap b ! i) = k" by auto
  from i have ilen: "i < length (heap b)"
    using sides levels_rep_bound unfolding sides_rep_def by blast
  from i show thesis
  proof
    assume i: "i \<in> set (concat bxs)"
    obtain h' ls' bxs' b' where found: "findBidLevel b (o_price (heap b ! i)) \<noteq> length (ob_bids b)"
        "pl_price (ob_bids b ! findBidLevel b (o_price (heap b ! i))) = o_price (heap b ! i)"
        "o_side (heap b ! i) = Buy" "0 < o_quantity (heap b ! i)"
      and run: "unlink_level b (ob_bids b) (findBidLevel b (o_price (heap b ! i))) i = Inr (h', ls')"
      and b': "b' = (b\<lparr>ob_bids := ls'\<rparr>)\<lparr>ob_pool := pool_given ((ob_pool b)\<lparr>op_orders := h'\<rparr>) i,
                          ob_orderIndex := um_erase (ob_orderIndex b) (o_orderId (heap b ! i))\<rparr>"
      and dealloc: "deallocate dbg (Some i) ((ob_pool b)\<lparr>op_orders := h'\<rparr>) = Inr (ob_pool b')"
      and s: "sides_rep b' (ob_asks b) Sell axs ls' Buy bxs' (i # fr)" and sorted: "sorted_wrt (<) (map pl_price ls')"
      and abs': "abs_slots (heap b') axs = abs_slots (heap b) axs"
        "abs_slots (heap b') bxs' = filter (\<lambda>x. o_orderId x \<noteq> o_orderId (heap b ! i)) (abs_slots (heap b) bxs)"
      by (rule buying.leaving_run [OF sides_rep_swap [OF sides] _ i, where dbg = dbg]) (use r in auto)
    have "book_rep b' bxs' axs (i # fr)"
      using sides_rep_swap [OF s] sorted r b' by (simp add: book_rep_def)
    from book_rep_inv [OF this] book_rep_abs [OF this] show thesis
      using sides_other_ids [OF sides_rep_swap [OF sides] i] found run dealloc b' abs' k ilen
      by (intro that [of b']) (simp_all add: cancelOrder_def Some Let_def abs spec_cancel_def)
  next
    assume i: "i \<in> set (concat axs)"
    obtain h' ls' axs' b' where found: "findAskLevel b (o_price (heap b ! i)) \<noteq> length (ob_asks b)"
        "pl_price (ob_asks b ! findAskLevel b (o_price (heap b ! i))) = o_price (heap b ! i)"
        "o_side (heap b ! i) = Sell" "0 < o_quantity (heap b ! i)"
      and run: "unlink_level b (ob_asks b) (findAskLevel b (o_price (heap b ! i))) i = Inr (h', ls')"
      and b': "b' = (b\<lparr>ob_asks := ls'\<rparr>)\<lparr>ob_pool := pool_given ((ob_pool b)\<lparr>op_orders := h'\<rparr>) i,
                          ob_orderIndex := um_erase (ob_orderIndex b) (o_orderId (heap b ! i))\<rparr>"
      and dealloc: "deallocate dbg (Some i) ((ob_pool b)\<lparr>op_orders := h'\<rparr>) = Inr (ob_pool b')"
      and s: "sides_rep b' (ob_bids b) Buy bxs ls' Sell axs' (i # fr)" and sorted: "sorted_wrt (>) (map pl_price ls')"
      and abs': "abs_slots (heap b') bxs = abs_slots (heap b) bxs"
        "abs_slots (heap b') axs' = filter (\<lambda>x. o_orderId x \<noteq> o_orderId (heap b ! i)) (abs_slots (heap b) axs)"
      by (rule selling.leaving_run [OF sides _ i, where dbg = dbg]) (use r in auto)
    have "book_rep b' bxs axs' (i # fr)"
      using s sorted r b' by (simp add: book_rep_def)
    from book_rep_inv [OF this] book_rep_abs [OF this] show thesis
      using sides_other_ids [OF sides i] found run dealloc b' abs' k ilen
      by (intro that [of b']) (simp_all add: cancelOrder_def Some Let_def abs spec_cancel_def)
  qed
qed

section \<open>What the invariant says of the abstract book\<close>

lemma length_abs_slots: "length (abs_slots h xss) = length (concat xss)"
  by (simp add: abs_slots_def length_concat rev_map [symmetric] sum_list_rev)

text \<open>Every slot is either free or holds a resting order.\<close>

lemma book_inv_count:
  assumes "book_inv b"
  shows "length (spec_orders (abs_book b)) + unat (op_freeCount (ob_pool b)) = unat (op_capacity (ob_pool b))"
proof -
  obtain bxs axs fr where rep: "book_rep b bxs axs fr" using book_inv_rep [OF assms] .
  then have d: "distinct (concat bxs @ concat axs @ fr)" "set (concat bxs @ concat axs @ fr) = {..<length (heap b)}"
    and p: "pool_rep (ob_pool b) fr"
    by (simp_all add: book_rep_def sides_rep_def)
  have "length (concat bxs @ concat axs @ fr) = length (heap b)"
    using distinct_card [OF d(1)] unfolding d(2) by simp
  with p show ?thesis
    by (simp add: book_rep_abs [OF rep] spec_orders_def length_abs_slots pool_rep_def)
qed

lemma book_inv_ids:
  assumes "book_inv b"
  shows "distinct (map o_orderId (spec_orders (abs_book b)))"
proof -
  obtain bxs axs fr where rep: "book_rep b bxs axs fr" using book_inv_rep [OF assms] .
  then have idx: "index_rep (ob_orderIndex b) (heap b) (concat bxs @ concat axs)"
    and d: "distinct (concat bxs @ concat axs)"
    by (auto simp: book_rep_def sides_rep_def)
  let ?R = "concat (rev bxs) @ concat (rev axs)"
  have "distinct ?R" using d by simp
  moreover have "inj_on (\<lambda>i. o_orderId (heap b ! i)) (set ?R)"
    using index_rep_inj [OF idx] by simp
  ultimately have "distinct (map (\<lambda>i. o_orderId (heap b ! i)) ?R)"
    by (simp only: distinct_map)
  moreover have "map o_orderId (spec_orders (abs_book b)) = map (\<lambda>i. o_orderId (heap b ! i)) ?R"
    by (simp add: book_rep_abs [OF rep] spec_orders_def abs_slots_def)
  ultimately show ?thesis by (simp only:)
qed

end
