(* ===== verification/BookPriority.thy ===== *)
theory BookPriority
  imports BookSpec
begin

text \<open>
  What the abstract book promises a trader: price-time priority on each side, no crossed book, no
  trade outside the limit or with oneself, and no quantity lost. The facts are about \<open>spec_add\<close> and
  \<open>spec_cancel\<close>; the theory BookTheorems carries them over to the code.
\<close>

section \<open>Priority\<close>

text \<open>\<open>x\<close> is served before \<open>y\<close>: its price is better, or it is the same and \<open>x\<close> came first.\<close>

definition before :: "(u32 \<Rightarrow> u32 \<Rightarrow> bool) \<Rightarrow> Order \<Rightarrow> Order \<Rightarrow> bool" where
  "before worse x y \<longleftrightarrow> worse (o_price y) (o_price x) \<or> o_price x = o_price y \<and> o_sequence x < o_sequence y"

definition priority_side :: "(u32 \<Rightarrow> u32 \<Rightarrow> bool) \<Rightarrow> Order list \<Rightarrow> bool" where
  "priority_side worse xs \<longleftrightarrow> sorted_wrt (before worse) xs"

definition spec_ok :: "SpecBook \<Rightarrow> bool" where
  "spec_ok sb \<longleftrightarrow> priority_side (<) (sb_bids sb) \<and> priority_side (>) (sb_asks sb) \<and> uncrossed sb \<and>
     (\<forall>x \<in> set (spec_orders sb). o_sequence x < sb_sequence sb \<and> 0 < o_quantity x) \<and>
     (\<forall>x \<in> set (sb_bids sb). o_side x = Buy) \<and> (\<forall>x \<in> set (sb_asks sb). o_side x = Sell)"

text \<open>Matching leaves a suffix of the priority list, up to the quantity of its first order.\<close>

lemma spec_match_suffix:
  assumes "spec_match beyond pid q rs = (fs, q', rs')"
    and "\<And>r q. key (r\<lparr>o_quantity := q\<rparr>) = key r"
  shows "\<exists>k. map key rs' = drop k (map key rs)"
  using assms(1)
proof (induction rule: spec_match_induct)
  case (Full q r rs fs q' rs')
  then obtain k where "map key rs' = drop k (map key rs)" by blast
  then show ?case by (intro exI [of _ "Suc k"]) simp
qed (auto intro: exI [of _ 0] simp: assms(2))

lemma priority_side_match:
  assumes "spec_match beyond pid q rs = (fs, q', rs')" and "priority_side worse rs"
  shows "priority_side worse rs'"
proof -
  let ?key = "\<lambda>x. (o_price x, o_sequence x)"
  let ?P = "\<lambda>(p, s) (p', s'). worse p' p \<or> p = p' \<and> s < (s' :: u64)"
  have P: "sorted_wrt ?P (map ?key xs) = priority_side worse xs" for xs
    unfolding priority_side_def sorted_wrt_map before_def by simp
  obtain k where k: "map ?key rs' = drop k (map ?key rs)"
    using spec_match_suffix [OF assms(1), of ?key] by auto
  have "sorted_wrt ?P (map ?key rs)" using assms(2) unfolding P .
  then have "sorted_wrt ?P (map ?key rs')" unfolding k by (rule sorted_wrt_drop)
  then show ?thesis unfolding P .
qed

lemma set_spec_insert: "set (spec_insert worse x xs) = insert x (set xs)"
  unfolding spec_insert_def by (metis Un_insert_right list.simps(15) set_append takeWhile_dropWhile_id)

lemma priority_side_insert:
  assumes sorted: "priority_side worse xs" and seq: "\<And>y. y \<in> set xs \<Longrightarrow> o_sequence y < o_sequence x"
    and total: "\<And>p p'. p \<noteq> p' \<Longrightarrow> worse p p' \<or> worse p' p" and trans: "\<And>p q r. worse p q \<Longrightarrow> worse q r \<Longrightarrow> worse p r"
  shows "priority_side worse (spec_insert worse x xs)"
  using sorted seq
proof (induction xs)
  case Nil
  then show ?case by (simp add: spec_insert_def priority_side_def)
next
  case (Cons y ys)
  show ?case
  proof (cases "worse (o_price y) (o_price x)")
    case True
    with Cons.prems(1) have "\<forall>z \<in> set (y # ys). before worse x z"
      using trans by (auto simp: priority_side_def before_def)
    with True Cons.prems(1) show ?thesis
      by (simp add: spec_insert_def priority_side_def)
  next
    case False
    then have step: "spec_insert worse x (y # ys) = y # spec_insert worse x ys"
      by (simp add: spec_insert_def)
    have "before worse y x"
      using False Cons.prems(2) total [of "o_price x" "o_price y"] by (auto simp: before_def)
    with Cons show ?thesis
      unfolding step by (auto simp: priority_side_def set_spec_insert)
  qed
qed

lemma spec_match_origin:
  "spec_match beyond pid q rs = (fs, q', rs') \<Longrightarrow> x \<in> set rs' \<Longrightarrow>
     \<exists>r \<in> set rs. o_price x = o_price r \<and> o_sequence x = o_sequence r \<and> o_side x = o_side r \<and>
       o_participantId x = o_participantId r \<and> o_orderId x = o_orderId r"
  by (induction rule: spec_match_induct) auto

lemma spec_match_positive:
  "spec_match beyond pid q rs = (fs, q', rs') \<Longrightarrow> \<forall>r \<in> set rs. 0 < o_quantity r \<Longrightarrow>
     (\<forall>r \<in> set rs'. 0 < o_quantity r) \<and> (\<forall>(r, f) \<in> set fs. 0 < f)"
  by (induction rule: spec_match_induct) (auto simp: word_gt_0)

section \<open>The operations keep the priority\<close>

lemma priority_side_beyond:
  assumes "priority_side worse xs" and "\<And>x y. beyond x \<Longrightarrow> worse y x \<Longrightarrow> beyond y"
  shows "sorted_wrt (\<lambda>x y. beyond (o_price x) \<longrightarrow> beyond (o_price y)) xs"
  using assms(1) unfolding priority_side_def
  by (rule sorted_wrt_mono_rel [rotated]) (auto simp: before_def intro: assms(2))

lemma sequence_less: "(x :: u64) < s \<Longrightarrow> s + 1 \<noteq> 0 \<Longrightarrow> x < s + 1"
  by (simp add: word_less_nat_alt unat_Suc_word)

lemma self_less: "s + 1 \<noteq> 0 \<Longrightarrow> (s :: u64) < s + 1"
  by (simp add: word_less_nat_alt unat_Suc_word)

lemma spec_add_ok:
  assumes ok: "spec_ok sb" and seq: "sb_sequence sb + 1 \<noteq> 0"
  shows "spec_ok (snd (spec_add side price q i pid sb))"
proof (cases side)
  case Buy
  obtain fs q' rs where m: "spec_match (\<lambda>p. price < p) pid q (sb_asks sb) = (fs, q', rs)"
    by (metis prod_cases3)
  note ok = ok [unfolded spec_ok_def]
  let ?x = "new_order Buy price q' i pid (sb_sequence sb)"
  have rs: "priority_side (>) rs" using priority_side_match [OF m] ok by simp
  have rest: "price < o_price r" if "0 < q'" "r \<in> set rs" for r
    using spec_match_rest [OF m that(1) priority_side_beyond that(2)] ok by auto
  have bids: "priority_side (<) (spec_insert (<) ?x (sb_bids sb))"
    using ok by (intro priority_side_insert) (auto simp: spec_orders_def new_order_def)
  have pos: "\<forall>r \<in> set rs. 0 < o_quantity r"
    using spec_match_positive [OF m] ok by (auto simp: spec_orders_def)
  have old: "o_sequence x < sb_sequence sb + 1 \<and> o_side x = Sell \<and> (\<forall>y \<in> set (sb_bids sb). o_price y < o_price x)"
    if x: "x \<in> set rs" for x
  proof -
    obtain r where "r \<in> set (sb_asks sb)" "o_price x = o_price r" "o_sequence x = o_sequence r" "o_side x = o_side r"
      using spec_match_origin [OF m x] by blast
    with ok seq show ?thesis by (auto simp: uncrossed_def spec_orders_def sequence_less)
  qed
  let ?sb = "snd (spec_add Buy price q i pid sb)"
  have parts: "sb_asks ?sb = rs" "sb_sequence ?sb = sb_sequence sb + 1"
    "sb_bids ?sb = (if 0 < q' then spec_insert (<) ?x (sb_bids sb) else sb_bids sb)"
    by (simp_all add: spec_add_def m)
  have x: "o_price ?x = price" "o_sequence ?x = sb_sequence sb" "o_side ?x = Buy" "o_quantity ?x = q'"
    by (simp_all add: new_order_def)
  have "uncrossed ?sb"
    using old rest unfolding uncrossed_def parts by (auto simp: set_spec_insert x)
  moreover have "\<forall>x \<in> set (spec_orders ?sb). o_sequence x < sb_sequence ?sb \<and> 0 < o_quantity x"
    using ok old pos seq unfolding spec_orders_def parts
    by (auto simp: set_spec_insert x sequence_less self_less)
  moreover have "(\<forall>x \<in> set (sb_bids ?sb). o_side x = Buy) \<and> (\<forall>x \<in> set (sb_asks ?sb). o_side x = Sell)"
    using ok old unfolding parts by (auto simp: set_spec_insert x)
  ultimately show ?thesis
    using ok bids rs by (simp add: spec_ok_def Buy parts)
next
  case Sell
  obtain fs q' rs where m: "spec_match (\<lambda>p. p < price) pid q (sb_bids sb) = (fs, q', rs)"
    by (metis prod_cases3)
  note ok = ok [unfolded spec_ok_def]
  let ?x = "new_order Sell price q' i pid (sb_sequence sb)"
  have rs: "priority_side (<) rs" using priority_side_match [OF m] ok by simp
  have rest: "o_price r < price" if "0 < q'" "r \<in> set rs" for r
    using spec_match_rest [OF m that(1) priority_side_beyond that(2)] ok by auto
  have asks: "priority_side (>) (spec_insert (>) ?x (sb_asks sb))"
    using ok by (intro priority_side_insert) (auto simp: spec_orders_def new_order_def)
  have pos: "\<forall>r \<in> set rs. 0 < o_quantity r"
    using spec_match_positive [OF m] ok by (auto simp: spec_orders_def)
  have old: "o_sequence x < sb_sequence sb + 1 \<and> o_side x = Buy \<and> (\<forall>y \<in> set (sb_asks sb). o_price x < o_price y)"
    if x: "x \<in> set rs" for x
  proof -
    obtain r where "r \<in> set (sb_bids sb)" "o_price x = o_price r" "o_sequence x = o_sequence r" "o_side x = o_side r"
      using spec_match_origin [OF m x] by blast
    with ok seq show ?thesis by (auto simp: uncrossed_def spec_orders_def sequence_less)
  qed
  let ?sb = "snd (spec_add Sell price q i pid sb)"
  have parts: "sb_bids ?sb = rs" "sb_sequence ?sb = sb_sequence sb + 1"
    "sb_asks ?sb = (if 0 < q' then spec_insert (>) ?x (sb_asks sb) else sb_asks sb)"
    by (simp_all add: spec_add_def m)
  have x: "o_price ?x = price" "o_sequence ?x = sb_sequence sb" "o_side ?x = Sell" "o_quantity ?x = q'"
    by (simp_all add: new_order_def)
  have "uncrossed ?sb"
    using old rest unfolding uncrossed_def parts by (auto simp: set_spec_insert x)
  moreover have "\<forall>x \<in> set (spec_orders ?sb). o_sequence x < sb_sequence ?sb \<and> 0 < o_quantity x"
    using ok old pos seq unfolding spec_orders_def parts
    by (auto simp: set_spec_insert x sequence_less self_less)
  moreover have "(\<forall>x \<in> set (sb_bids ?sb). o_side x = Buy) \<and> (\<forall>x \<in> set (sb_asks ?sb). o_side x = Sell)"
    using ok old unfolding parts by (auto simp: set_spec_insert x)
  ultimately show ?thesis
    using ok asks rs by (simp add: spec_ok_def Sell parts)
qed

lemma spec_cancel_ok: "spec_ok sb \<Longrightarrow> spec_ok (spec_cancel i sb)"
  unfolding spec_ok_def spec_cancel_def priority_side_def uncrossed_def spec_orders_def
  by (auto intro: sorted_wrt_filter)

end
