(* ===== verification/BookTheorems.thy ===== *)
theory BookTheorems
  imports BookRefine BookPriority
begin

text \<open>
  The properties of the matching core: the refinement theorems for its operations and for whole
  sequences of them, and what they mean for a trader.
\<close>

section \<open>Sequences of operations\<close>

datatype BookOp =
    AddOp Side u32 u32 u64 u64  \<comment> \<open>\<open>addLimitOrder(side, price, quantity, id, participantId)\<close>\<close>
  | CancelOp u64                \<comment> \<open>\<open>cancelOrder(orderId)\<close>\<close>

fun book_run :: "bool \<Rightarrow> (Trade \<Rightarrow> 'c \<Rightarrow> 'c) \<Rightarrow> BookOp list \<Rightarrow> OrderBook \<Rightarrow> 'c \<Rightarrow> fault + OrderBook \<times> 'c" where
  "book_run dbg onTrade [] b c = Inr (b, c)"
| "book_run dbg onTrade (AddOp side price q i pid # ops) b c =
     bindR (addLimitOrder dbg onTrade side price q i pid b c) (\<lambda>(b, c). book_run dbg onTrade ops b c)"
| "book_run dbg onTrade (CancelOp i # ops) b c =
     bindR (cancelOrder dbg i b) (\<lambda>b. book_run dbg onTrade ops b c)"

fun spec_run :: "BookOp list \<Rightarrow> SpecBook \<Rightarrow> Trade list \<times> SpecBook" where
  "spec_run [] sb = ([], sb)"
| "spec_run (AddOp side price q i pid # ops) sb =
     (case spec_add side price q i pid sb of (ts, sb) \<Rightarrow>
      case spec_run ops sb of (ts', sb) \<Rightarrow> (ts @ ts', sb))"
| "spec_run (CancelOp i # ops) sb = spec_run ops (spec_cancel i sb)"

text \<open>
  What a client has to keep to: ids of resting orders are not used again, no more orders rest than
  the pool has slots for, and with asserts compiled in no more than \<open>4096\<close> prices per side.
\<close>

definition side_room :: "bool \<Rightarrow> Side \<Rightarrow> u32 \<Rightarrow> SpecBook \<Rightarrow> bool" where
  "side_room dbg side price sb =
     (let ps = map o_price (case side of Buy \<Rightarrow> sb_bids sb | Sell \<Rightarrow> sb_asks sb) in
      dbg \<longrightarrow> price \<in> set ps \<or> length (remdups ps) < kDefaultMaxPriceLevels)"

fun ops_admitted :: "bool \<Rightarrow> nat \<Rightarrow> BookOp list \<Rightarrow> SpecBook \<Rightarrow> bool" where
  "ops_admitted dbg cap [] sb = True"
| "ops_admitted dbg cap (AddOp side price q i pid # ops) sb =
     (i \<notin> o_orderId ` set (spec_orders sb) \<and> length (spec_orders sb) < cap \<and> side_room dbg side price sb \<and>
      sb_sequence sb + 1 \<noteq> 0 \<and> ops_admitted dbg cap ops (snd (spec_add side price q i pid sb)))"
| "ops_admitted dbg cap (CancelOp i # ops) sb = ops_admitted dbg cap ops (spec_cancel i sb)"

section \<open>Levels and prices\<close>

lemma levels_prices:
  assumes "levels_rep h s ls xss"
  shows "pl_price ` set ls = o_price ` set (abs_slots h xss)"
proof -
  have "set (map pl_price ls) = (\<lambda>i. o_price (h ! i)) ` set (concat xss)"
    using assms unfolding levels_rep_def
  proof (induction rule: list_all2_induct)
    case (Cons pl ls xs xss)
    then have "(\<lambda>i. o_price (h ! i)) ` set xs = {pl_price pl}"
      by (cases xs) (auto simp: level_rep_def)
    with Cons show ?case by (auto simp: image_Un)
  qed simp
  also have "\<dots> = o_price ` set (abs_slots h xss)"
    by (simp only: abs_slots_def set_map image_image payload_fields set_concat set_rev)
  finally show ?thesis by simp
qed

lemma sorted_prices_distinct:
  assumes "sorted_wrt worse (map f ls)" and "\<And>x. \<not> worse x x"
  shows "distinct (map f ls)"
  using assms(1) by (induction ls) (auto simp: assms(2))

lemma book_prices:
  assumes "book_inv b"
  shows "pl_price ` set (ob_bids b) = o_price ` set (sb_bids (abs_book b))"
    and "pl_price ` set (ob_asks b) = o_price ` set (sb_asks (abs_book b))"
    and "length (ob_bids b) = length (remdups (map o_price (sb_bids (abs_book b))))"
    and "length (ob_asks b) = length (remdups (map o_price (sb_asks (abs_book b))))"
proof -
  obtain bxs axs fr where rep: "book_rep b bxs axs fr" using book_inv_rep [OF assms] .
  note r = rep [unfolded book_rep_def sides_rep_def]
  show bids: "pl_price ` set (ob_bids b) = o_price ` set (sb_bids (abs_book b))"
    and asks: "pl_price ` set (ob_asks b) = o_price ` set (sb_asks (abs_book b))"
    using levels_prices [of "heap b" Buy "ob_bids b" bxs] levels_prices [of "heap b" Sell "ob_asks b" axs] r
    by (simp_all add: book_rep_abs [OF rep])
  have "distinct (map pl_price (ob_bids b))" "distinct (map pl_price (ob_asks b))"
    using r by (auto intro: sorted_prices_distinct [of "(<)"] sorted_prices_distinct [of "(>)"])
  from this [THEN distinct_card] show
    "length (ob_bids b) = length (remdups (map o_price (sb_bids (abs_book b))))"
    "length (ob_asks b) = length (remdups (map o_price (sb_asks (abs_book b))))"
    by (simp_all add: length_remdups_card_conv bids asks)
qed

lemma book_room: "book_inv b \<Longrightarrow> has_room dbg side price b = side_room dbg side price (abs_book b)"
  by (cases side) (simp_all add: has_room_def side_room_def Let_def book_prices)

lemma book_space: "book_inv b \<Longrightarrow>
    0 < op_freeCount (ob_pool b) \<longleftrightarrow> length (spec_orders (abs_book b)) < unat (op_capacity (ob_pool b))"
  using book_inv_count [of b] by (auto simp: word_less_nat_alt)

lemma book_run_spec:
  assumes "book_inv b" and "ops_admitted dbg (unat (op_capacity (ob_pool b))) ops (abs_book b)" 
  shows "\<exists>b'. book_run dbg onTrade ops b c = Inr (b', fold onTrade (fst (spec_run ops (abs_book b))) c) \<and>
    book_inv b' \<and> abs_book b' = snd (spec_run ops (abs_book b)) \<and> op_capacity (ob_pool b') = op_capacity (ob_pool b)"
  using assms
proof (induction ops arbitrary: b c)
  case Nil
  then show ?case by simp
next
  case (Cons op ops)
  show ?case
  proof (cases op)
    case (AddOp side price q i pid)
    with Cons.prems have adm: "i \<notin> o_orderId ` set (spec_orders (abs_book b))" "side_room dbg side price (abs_book b)"
      "length (spec_orders (abs_book b)) < unat (op_capacity (ob_pool b))"
      "ops_admitted dbg (unat (op_capacity (ob_pool b))) ops (snd (spec_add side price q i pid (abs_book b)))"
      by auto
    obtain b' where "addLimitOrder dbg onTrade side price q i pid b c =
        Inr (b', fold onTrade (fst (spec_add side price q i pid (abs_book b))) c)"
      and "book_inv b'" and "abs_book b' = snd (spec_add side price q i pid (abs_book b))"
      and "op_capacity (ob_pool b') = op_capacity (ob_pool b)"
      by (rule addLimitOrder_run [OF Cons.prems(1)])
        (use adm book_inv_fresh book_room book_space Cons.prems(1) in auto)
    with Cons.IH [of b' "fold onTrade (fst (spec_add side price q i pid (abs_book b))) c"] adm AddOp
    show ?thesis by (auto split: prod.splits)
  next
    case (CancelOp i)
    obtain b' where "cancelOrder dbg i b = Inr b'" and "book_inv b'" and "abs_book b' = spec_cancel i (abs_book b)"
      and "op_capacity (ob_pool b') = op_capacity (ob_pool b)"
      using cancelOrder_run [OF Cons.prems(1)] .
    with Cons.IH [of b' c] Cons.prems CancelOp show ?thesis by simp
  qed
qed

lemma spec_run_ok:
  "spec_ok sb \<Longrightarrow> ops_admitted dbg cap ops sb \<Longrightarrow> spec_ok (snd (spec_run ops sb))"
proof (induction ops sb rule: spec_run.induct)
  case (2 side price q i pid ops sb)
  then have "spec_ok (snd (spec_add side price q i pid sb))" by (intro spec_add_ok) simp_all
  with 2 show ?case by (auto split: prod.splits)
qed (simp_all add: spec_cancel_ok)

section \<open>The best levels\<close>

lemma best_level:
  assumes rep: "levels_rep h s ls xss" and sorted: "sorted_wrt worse (map pl_price ls)" and "\<And>x. \<not> worse x x"
  shows "map_option (\<lambda>pl. (pl_price pl, pl_totalQuantity pl)) (if ls = [] then None else Some (last ls)) =
    (case abs_slots h xss of [] \<Rightarrow> None
     | x # xs \<Rightarrow> Some (o_price x, sum_list (map o_quantity (filter (\<lambda>y. o_price y = o_price x) (x # xs)))))"
proof (cases ls rule: rev_cases)
  case Nil
  with rep show ?thesis by simp
next
  case (snoc ls1 pl)
  obtain yss zss where z: "xss = yss @ zss" "levels_rep h s ls1 yss" "levels_rep h s [pl] zss"
    using levels_rep_split rep unfolding snoc by blast
  then obtain xs where xs: "zss = [xs]" "level_rep h s pl xs"
    by (cases zss) auto
  then obtain r ys where r: "xs = r # ys" by (cases xs) (auto simp: level_rep_def)
  have price: "o_price (h ! j) = pl_price pl" if "j \<in> set xs" for j
    using xs that by (auto simp: level_rep_def)
  have "o_price y \<noteq> pl_price pl" if y: "y \<in> set (abs_slots h yss)" for y
  proof -
    obtain pl' where "pl' \<in> set ls1" "o_price y = pl_price pl'"
      using abs_slots_price [OF z(2) y] by blast
    with sorted assms(3) show ?thesis unfolding snoc by (auto simp: sorted_wrt_append)
  qed
  then have none: "filter (\<lambda>y. o_price y = pl_price pl) (abs_slots h yss) = []"
    by (simp add: filter_empty_conv)
  have all: "filter (\<lambda>y. o_price y = pl_price pl) (map (\<lambda>i. payload (h ! i)) xs) = map (\<lambda>i. payload (h ! i)) xs"
    using price by simp
  have head: "abs_slots h xss = payload (h ! r) # map (\<lambda>i. payload (h ! i)) ys @ abs_slots h yss"
    by (simp add: z xs r)
  have "sum_list (map o_quantity (filter (\<lambda>y. o_price y = pl_price pl) (abs_slots h xss))) = pl_totalQuantity pl"
    using none all xs by (simp add: z level_rep_def level_total_def comp_def)
  with head price [of r] show ?thesis by (simp add: snoc r)
qed

section \<open>A small book\<close>

text \<open>Two asks of participant 7 and one bid of participant 8, in a pool of four slots.\<close>

definition small_book :: "OrderBook" where
  "small_book = (case bindR (OrderBook_new 4) (\<lambda>b. book_run True (\<lambda>t n. n + 1)
       [AddOp Sell 101 5 1 7, AddOp Sell 102 5 2 7, AddOp Buy 99 10 3 8] b (0 :: nat)) of
     Inr (b, _) \<Rightarrow> b)"

section \<open>Refinement\<close>

text \<open>C1: \<open>addLimitOrder\<close> implements \<open>spec_add\<close>. On a book that satisfies the invariant, with a fresh id,
  a free slot and, where the asserts are compiled in, a place for a new level, the call returns, hands
  the callback exactly the specified trades in their order, keeps the invariant, and leaves the book the
  specification says. The index, the links, the level totals and the free list are all part of the
  invariant.\<close>

theorem addLimitOrder_refines:
  assumes "book_inv b" and "um_find (ob_orderIndex b) i = None"
    and "0 < op_freeCount (ob_pool b)" and "has_room dbg side price b"
  shows "\<exists>b'. addLimitOrder dbg onTrade side price q i pid b c =
      Inr (b', fold onTrade (fst (spec_add side price q i pid (abs_book b))) c) \<and>
    book_inv b' \<and> abs_book b' = snd (spec_add side price q i pid (abs_book b))"
  using addLimitOrder_run [OF assms] by metis

theorem addLimitOrder_refines_witness:
  "\<exists>b'. addLimitOrder True (\<lambda>t ts. ts @ [t]) Buy 101 3 4 8 small_book [] =
      Inr (b', fold (\<lambda>t ts. ts @ [t]) (fst (spec_add Buy 101 3 4 8 (abs_book small_book))) []) \<and>
    book_inv b' \<and> abs_book b' = snd (spec_add Buy 101 3 4 8 (abs_book small_book))"
  by (rule addLimitOrder_refines) code_simp+

text \<open>C6: \<open>cancelOrder\<close> implements \<open>spec_cancel\<close>: it always returns on a book that satisfies the invariant,
  in both builds, and takes out the order with the given id if there is one, its level if that was
  the level's last order, its index entry and its slot, and nothing else.\<close>

theorem cancelOrder_refines:
  assumes "book_inv b"
  shows "\<exists>b'. cancelOrder dbg k b = Inr b' \<and> book_inv b' \<and> abs_book b' = spec_cancel k (abs_book b)"
  using cancelOrder_run [OF assms] by metis

theorem cancelOrder_refines_witness:
  "\<exists>b'. cancelOrder True 1 small_book = Inr b' \<and> book_inv b' \<and>
     abs_book b' = spec_cancel 1 (abs_book small_book)"
  by (rule cancelOrder_refines) code_simp

text \<open>C2: A whole session. From an empty book any admitted sequence of additions and cancellations runs
  to its end, with the specified trades; the book then satisfies the invariant and \<open>spec_ok\<close>: both
  sides are in strict price-time priority and the best bid is below the best ask.\<close>

theorem book_session:
  assumes "OrderBook_new capacity = Inr b"
    and "ops_admitted dbg (unat capacity) ops \<lparr>sb_bids = [], sb_asks = [], sb_sequence = 0\<rparr>"
  shows "\<exists>b' ts sb. book_run dbg onTrade ops b c = Inr (b', fold onTrade ts c) \<and>
    spec_run ops \<lparr>sb_bids = [], sb_asks = [], sb_sequence = 0\<rparr> = (ts, sb) \<and>
    book_inv b' \<and> abs_book b' = sb \<and> spec_ok sb"
proof -
  let ?sb = "\<lparr>sb_bids = [], sb_asks = [], sb_sequence = 0\<rparr>"
  have "capacity \<noteq> 0"
    using assms(1) by (auto simp: OrderBook_new_def OrderPool_new_zero)
  then have b: "book_inv b" "abs_book b = ?sb" "op_capacity (ob_pool b) = capacity"
    using assms(1) by (auto elim: OrderBook_new_ok)
  have "spec_ok ?sb"
    by (simp add: spec_ok_def priority_side_def uncrossed_def spec_orders_def)
  then have "spec_ok (snd (spec_run ops ?sb))"
    using assms(2) by (rule spec_run_ok)
  with book_run_spec [OF b(1), of dbg ops onTrade c] b assms(2) show ?thesis
    by (metis prod.collapse)
qed

theorem book_session_witness:
  "\<exists>b' ts sb. book_run True (\<lambda>t ts. ts @ [t]) [AddOp Sell 101 5 1 7, AddOp Buy 103 7 2 8, CancelOp 2]
      (case OrderBook_new 2 of Inr b \<Rightarrow> b) [] = Inr (b', fold (\<lambda>t ts. ts @ [t]) ts []) \<and>
    spec_run [AddOp Sell 101 5 1 7, AddOp Buy 103 7 2 8, CancelOp 2]
      \<lparr>sb_bids = [], sb_asks = [], sb_sequence = 0\<rparr> = (ts, sb) \<and>
    book_inv b' \<and> abs_book b' = sb \<and> spec_ok sb"
  by (rule book_session [where capacity = 2]) code_simp+

section \<open>What a trader gets\<close>

lemma book_inv_orders:
  assumes "book_inv b"
  shows "x \<in> set (sb_bids (abs_book b)) \<Longrightarrow> o_side x = Buy \<and> 0 < o_quantity x"
    and "x \<in> set (sb_asks (abs_book b)) \<Longrightarrow> o_side x = Sell \<and> 0 < o_quantity x"
proof -
  obtain bxs axs fr where rep: "book_rep b bxs axs fr" using book_inv_rep [OF assms] .
  note r = rep [unfolded book_rep_def sides_rep_def]
  from r have l: "levels_rep (heap b) Buy (ob_bids b) bxs" "levels_rep (heap b) Sell (ob_asks b) axs" by simp_all
  show "x \<in> set (sb_bids (abs_book b)) \<Longrightarrow> o_side x = Buy \<and> 0 < o_quantity x"
    using abs_slots_price [OF l(1), of x] by (auto simp: book_rep_abs [OF rep])
  show "x \<in> set (sb_asks (abs_book b)) \<Longrightarrow> o_side x = Sell \<and> 0 < o_quantity x"
    using abs_slots_price [OF l(2), of x] by (auto simp: book_rep_abs [OF rep])
qed

definition other_side :: "Side \<Rightarrow> SpecBook \<Rightarrow> Order list" where
  "other_side side sb = (case side of Buy \<Rightarrow> sb_asks sb | Sell \<Rightarrow> sb_bids sb)"

definition crosses :: "Side \<Rightarrow> u32 \<Rightarrow> u32 \<Rightarrow> bool" where
  "crosses side price p = (case side of Buy \<Rightarrow> p \<le> price | Sell \<Rightarrow> price \<le> p)"

definition maker_id :: "Side \<Rightarrow> Trade \<Rightarrow> u64" where
  "maker_id side t = (case side of Buy \<Rightarrow> t_sellOrderId t | Sell \<Rightarrow> t_buyOrderId t)"

definition taker_id :: "Side \<Rightarrow> Trade \<Rightarrow> u64" where
  "taker_id side t = (case side of Buy \<Rightarrow> t_buyOrderId t | Sell \<Rightarrow> t_sellOrderId t)"

definition traded :: "Trade list \<Rightarrow> nat" where
  "traded ts = sum_list (map (\<lambda>t. unat (t_quantity t)) ts)"

lemma fold_snoc: "fold (\<lambda>t ts. ts @ [t]) xs ys = ys @ xs"
  by (induction xs arbitrary: ys) auto

text \<open>\<open>spec_add\<close> through one call of \<open>spec_match\<close>, for either side.\<close>

lemma spec_add_match:
  obtains fs q' rs where
    "spec_match (\<lambda>p. \<not> crosses side price p) pid q (other_side side sb) = (fs, q', rs)"
    and "fst (spec_add side price q i pid sb) =
      fill_trades (case side of Buy \<Rightarrow> buy_trade | Sell \<Rightarrow> sell_trade) i fs"
    and "other_side side (snd (spec_add side price q i pid sb)) = rs"
    and "volume (spec_orders (snd (spec_add side price q i pid sb))) + volume (other_side side sb) =
      volume (spec_orders sb) + volume rs + unat q'"
proof -
  obtain fs q' rs where m: "spec_match (\<lambda>p. \<not> crosses side price p) pid q (other_side side sb) = (fs, q', rs)"
    by (metis prod_cases3)
  have ins: "volume (spec_insert w x xs) = unat (o_quantity x) + volume xs" for w x xs
  proof -
    have "volume xs = volume (takeWhile (\<lambda>y. \<not> w (o_price y) (o_price x)) xs) +
        volume (dropWhile (\<lambda>y. \<not> w (o_price y) (o_price x)) xs)"
      by (metis takeWhile_dropWhile_id volume_simps(3))
    then show ?thesis by (simp add: spec_insert_def)
  qed
  have b: "(\<lambda>p. \<not> crosses Buy price p) = (\<lambda>p. price < p)" and s: "(\<lambda>p. \<not> crosses Sell price p) = (\<lambda>p. p < price)"
    by (auto simp: crosses_def fun_eq_iff not_le)
  let ?sb = "snd (spec_add side price q i pid sb)"
  have "fst (spec_add side price q i pid sb) = fill_trades (case side of Buy \<Rightarrow> buy_trade | Sell \<Rightarrow> sell_trade) i fs \<and>
    other_side side ?sb = rs \<and>
    volume (spec_orders ?sb) + volume (other_side side sb) = volume (spec_orders sb) + volume rs + unat q'"
  proof (cases side)
    case Buy
    from m [unfolded Buy b] Buy show ?thesis
      by (auto simp: spec_add_def other_side_def spec_orders_def ins new_order_def word_gt_0)
  next
    case Sell
    from m [unfolded Sell s] Sell show ?thesis
      by (auto simp: spec_add_def other_side_def spec_orders_def ins new_order_def word_gt_0)
  qed
  with m show thesis by (intro that) simp_all
qed

lemma fill_trades_nth:
  assumes m: "spec_match beyond pid q rs = (fs, q', rs')" and k: "k < length fs"
  shows "\<exists>f. fs ! k = (rs ! k, f) \<and> k < length rs \<and> \<not> beyond (o_price (rs ! k)) \<and>
    o_participantId (rs ! k) \<noteq> pid \<and> f \<le> o_quantity (rs ! k) \<and> (Suc k < length fs \<longrightarrow> f = o_quantity (rs ! k))"
proof -
  have pre: "map fst fs = take (length fs) rs" by (rule spec_match_prefix [OF m])
  from arg_cong [OF this, of length] have len: "length fs \<le> length rs" by simp
  obtain r f where rf: "fs ! k = (r, f)" by (cases "fs ! k")
  have "r = map fst fs ! k" using k rf by simp
  with pre k have r: "r = rs ! k" by simp
  have "(r, f) \<in> set fs" using k rf by (metis nth_mem)
  moreover have "(r, f) \<in> set (butlast fs)" if "Suc k < length fs"
    using that rf by (metis in_set_conv_nth length_butlast less_diff_conv nth_butlast Suc_eq_plus1)
  ultimately show ?thesis
    using spec_match_fill [OF m] spec_match_full [OF m] rf r k len by auto
qed

lemma addLimitOrder_result:
  assumes "book_inv b" "um_find (ob_orderIndex b) i = None" "0 < op_freeCount (ob_pool b)" "has_room dbg side price b"
    and run: "addLimitOrder dbg (\<lambda>t ts. ts @ [t]) side price q i pid b [] = Inr (b', ts)"
  shows "ts = fst (spec_add side price q i pid (abs_book b))"
    and "abs_book b' = snd (spec_add side price q i pid (abs_book b))" and "book_inv b'"
proof -
  obtain b'' where "addLimitOrder dbg (\<lambda>t ts. ts @ [t]) side price q i pid b [] =
      Inr (b'', fold (\<lambda>t ts. ts @ [t]) (fst (spec_add side price q i pid (abs_book b))) [])"
    and "book_inv b''" and "abs_book b'' = snd (spec_add side price q i pid (abs_book b))"
    and "op_capacity (ob_pool b'') = op_capacity (ob_pool b)"
    using addLimitOrder_run [OF assms(1-4)] .
  with run show "ts = fst (spec_add side price q i pid (abs_book b))"
    and "abs_book b' = snd (spec_add side price q i pid (abs_book b))" and "book_inv b'"
    by (simp_all add: fold_snoc)
qed

text \<open>C11: The trades of an incoming order meet the opposite side from its front, one resting order after
  the other in price-time priority. Each is at the resting order's own price, which the limit of the
  incoming order reaches, with another participant, for no more than the resting order has; every
  resting order but the last one met is used up.\<close>

theorem addLimitOrder_priority:
  assumes "book_inv b" and "um_find (ob_orderIndex b) i = None"
    and "0 < op_freeCount (ob_pool b)" and "has_room dbg side price b"
    and "addLimitOrder dbg (\<lambda>t ts. ts @ [t]) side price q i pid b [] = Inr (b', ts)" and "k < length ts"
  shows "let r = other_side side (abs_book b) ! k; t = ts ! k in
    k < length (other_side side (abs_book b)) \<and> taker_id side t = i \<and> maker_id side t = o_orderId r \<and>
    t_price t = o_price r \<and> crosses side price (t_price t) \<and> o_participantId r \<noteq> pid \<and>
    0 < t_quantity t \<and> t_quantity t \<le> o_quantity r \<and> (Suc k < length ts \<longrightarrow> t_quantity t = o_quantity r)"
proof -
  obtain fs q' rs where m: "spec_match (\<lambda>p. \<not> crosses side price p) pid q (other_side side (abs_book b)) = (fs, q', rs)"
    and "fst (spec_add side price q i pid (abs_book b)) =
      fill_trades (case side of Buy \<Rightarrow> buy_trade | Sell \<Rightarrow> sell_trade) i fs"
    and "other_side side (snd (spec_add side price q i pid (abs_book b))) = rs"
    and "volume (spec_orders (snd (spec_add side price q i pid (abs_book b)))) + volume (other_side side (abs_book b)) =
      volume (spec_orders (abs_book b)) + volume rs + unat q'"
    using spec_add_match .
  then have ts: "ts = fill_trades (case side of Buy \<Rightarrow> buy_trade | Sell \<Rightarrow> sell_trade) i fs"
    using addLimitOrder_result(1) [OF assms(1-5)] by simp
  with assms(6) have k: "k < length fs" by (simp add: fill_trades_def)
  have "\<forall>r \<in> set (other_side side (abs_book b)). 0 < o_quantity r"
    using book_inv_orders [OF assms(1)] by (auto simp: other_side_def split: Side.split)
  then have "\<forall>(r, f) \<in> set fs. 0 < f" using spec_match_positive [OF m] by blast
  with k have "0 < snd (fs ! k)" by (metis (no_types, lifting) case_prodD nth_mem prod.collapse)
  with fill_trades_nth [OF m k] k show ?thesis
    by (auto simp: ts fill_trades_def Let_def buy_trade_def sell_trade_def taker_id_def maker_id_def split: Side.split)
qed

theorem addLimitOrder_priority_witness:
  "let r = other_side Buy (abs_book small_book) ! 1;
       t = snd (projr (addLimitOrder True (\<lambda>t ts. ts @ [t]) Buy 102 8 4 8 small_book [])) ! 1 in
    1 < length (other_side Buy (abs_book small_book)) \<and> taker_id Buy t = 4 \<and> maker_id Buy t = o_orderId r \<and>
    t_price t = o_price r \<and> crosses Buy 102 (t_price t) \<and> o_participantId r \<noteq> 8 \<and>
    0 < t_quantity t \<and> t_quantity t \<le> o_quantity r \<and>
    (Suc 1 < length (snd (projr (addLimitOrder True (\<lambda>t ts. ts @ [t]) Buy 102 8 4 8 small_book []))) \<longrightarrow>
       t_quantity t = o_quantity r)"
  by (rule addLimitOrder_priority [where dbg = True and q = 8 and
        b' = "fst (projr (addLimitOrder True (\<lambda>t ts. ts @ [t]) Buy 102 8 4 8 small_book []))"]) code_simp+

text \<open>C12: No quantity is made up and none is lost: what rests afterwards, counted over both sides, and
  twice what was traded make up what rested before and the new order, unless the new order meets one of
  its own participant within its limit; then its remainder is dropped and only \<open>\<le>\<close> holds.\<close>

theorem addLimitOrder_conserves:
  assumes "book_inv b" and "um_find (ob_orderIndex b) i = None"
    and "0 < op_freeCount (ob_pool b)" and "has_room dbg side price b"
    and "addLimitOrder dbg (\<lambda>t ts. ts @ [t]) side price q i pid b [] = Inr (b', ts)"
  shows "volume (spec_orders (abs_book b')) + 2 * traded ts \<le> volume (spec_orders (abs_book b)) + unat q \<and>
    ((\<forall>r \<in> set (other_side side (abs_book b)). crosses side price (o_price r) \<longrightarrow> o_participantId r \<noteq> pid) \<longrightarrow>
     volume (spec_orders (abs_book b')) + 2 * traded ts = volume (spec_orders (abs_book b)) + unat q)"
proof -
  obtain fs q' rs where m: "spec_match (\<lambda>p. \<not> crosses side price p) pid q (other_side side (abs_book b)) = (fs, q', rs)"
    and ts: "fst (spec_add side price q i pid (abs_book b)) =
      fill_trades (case side of Buy \<Rightarrow> buy_trade | Sell \<Rightarrow> sell_trade) i fs"
    and "other_side side (snd (spec_add side price q i pid (abs_book b))) = rs"
    and vol: "volume (spec_orders (snd (spec_add side price q i pid (abs_book b)))) + volume (other_side side (abs_book b)) =
      volume (spec_orders (abs_book b)) + volume rs + unat q'"
    using spec_add_match .
  have tr: "traded ts = filled fs"
    unfolding addLimitOrder_result(1) [OF assms] ts
    by (cases side) (simp_all add: traded_def fill_trades_def filled_def comp_def case_prod_unfold buy_trade_def sell_trade_def)
  have "volume (other_side side (abs_book b)) = filled fs + volume rs" "filled fs + unat q' \<le> unat q"
    using spec_match_volume [OF m] spec_match_quantity_le [OF m] by simp_all
  moreover have "filled fs + unat q' = unat q"
    if "\<forall>r \<in> set (other_side side (abs_book b)). crosses side price (o_price r) \<longrightarrow> o_participantId r \<noteq> pid"
    using that by (intro spec_match_quantity [OF m]) auto
  ultimately show ?thesis
    using vol unfolding tr addLimitOrder_result(2) [OF assms] by auto
qed

theorem addLimitOrder_conserves_witness:
  "let res = projr (addLimitOrder True (\<lambda>t ts. ts @ [t]) Buy 101 8 4 8 small_book []) in
    volume (spec_orders (abs_book (fst res))) + 2 * traded (snd res) \<le>
      volume (spec_orders (abs_book small_book)) + unat (8 :: u32) \<and>
    ((\<forall>r \<in> set (other_side Buy (abs_book small_book)). crosses Buy 101 (o_price r) \<longrightarrow> o_participantId r \<noteq> 8) \<longrightarrow>
     volume (spec_orders (abs_book (fst res))) + 2 * traded (snd res) =
       volume (spec_orders (abs_book small_book)) + unat (8 :: u32))"
  unfolding Let_def
  by (rule addLimitOrder_conserves [where dbg = True and i = 4]) code_simp+

text \<open>C23: Self-trade prevention: where the best order on the other side is the participant's own and
  within the limit, the incoming order is dropped as a whole. Nobody trades, no resting order changes,
  and the order does not come to rest; only its sequence number is used up.\<close>

theorem addLimitOrder_self_match:
  assumes "book_inv b" and "um_find (ob_orderIndex b) i = None"
    and "0 < op_freeCount (ob_pool b)" and "has_room dbg side price b"
    and "other_side side (abs_book b) = r # rs" and "crosses side price (o_price r)" and "o_participantId r = pid"
  shows "\<exists>b'. addLimitOrder dbg onTrade side price q i pid b c = Inr (b', c) \<and> book_inv b' \<and>
    abs_book b' = (abs_book b)\<lparr>sb_sequence := sb_sequence (abs_book b) + 1\<rparr>"
proof -
  have "spec_add side price q i pid (abs_book b) = ([], (abs_book b)\<lparr>sb_sequence := sb_sequence (abs_book b) + 1\<rparr>)"
    using assms(5-7) by (cases side) (auto simp: spec_add_def other_side_def crosses_def fill_trades_def not_less)
  with addLimitOrder_run [OF assms(1-4), where q = q and pid = pid and onTrade = onTrade and c = c] show ?thesis
    by (metis fold_simps(1) fst_conv snd_conv)
qed

theorem addLimitOrder_self_match_witness:
  "\<exists>b'. addLimitOrder True (\<lambda>t n. n + 1) Buy 105 8 4 7 small_book (0 :: nat) = Inr (b', 0) \<and> book_inv b' \<and>
    abs_book b' = (abs_book small_book)\<lparr>sb_sequence := sb_sequence (abs_book small_book) + 1\<rparr>"
  by (rule addLimitOrder_self_match [where r = "hd (sb_asks (abs_book small_book))"
        and rs = "tl (sb_asks (abs_book small_book))"]) code_simp+

lemma best_levels_run:
  assumes "book_inv b"
  shows "map_option (\<lambda>pl. (pl_price pl, pl_totalQuantity pl)) (bestBid b) =
      (case sb_bids (abs_book b) of [] \<Rightarrow> None
       | x # xs \<Rightarrow> Some (o_price x, sum_list (map o_quantity (filter (\<lambda>y. o_price y = o_price x) (x # xs))))) \<and>
    map_option (\<lambda>pl. (pl_price pl, pl_totalQuantity pl)) (bestAsk b) =
      (case sb_asks (abs_book b) of [] \<Rightarrow> None
       | x # xs \<Rightarrow> Some (o_price x, sum_list (map o_quantity (filter (\<lambda>y. o_price y = o_price x) (x # xs)))))"
proof -
  obtain bxs axs fr where rep: "book_rep b bxs axs fr" using book_inv_rep [OF assms] .
  note r = rep [unfolded book_rep_def sides_rep_def]
  have "levels_rep (heap b) Buy (ob_bids b) bxs" "sorted_wrt (<) (map pl_price (ob_bids b))"
    "levels_rep (heap b) Sell (ob_asks b) axs" "sorted_wrt (>) (map pl_price (ob_asks b))"
    using r by simp_all
  from best_level [OF this(1,2)] best_level [OF this(3,4)] show ?thesis
    unfolding bestBid_def bestAsk_def book_rep_abs [OF rep] by simp
qed

text \<open>C22: \<open>bestBid\<close> and \<open>bestAsk\<close> answer for the order that would be served next: its price, and as the
  cached total the quantities that rest at that price, added up as natural numbers and reduced modulo
  \<open>2 ^ 32\<close>. So the total is the true one exactly while that sum is below \<open>2 ^ 32\<close>; nothing in the book
  keeps it there (\<open>total_wraps\<close>). Both are null exactly when the side is empty.\<close>

theorem best_levels:
  assumes "book_inv b"
  shows "map_option (\<lambda>pl. (pl_price pl, unat (pl_totalQuantity pl))) (bestBid b) =
      (case sb_bids (abs_book b) of [] \<Rightarrow> None
       | x # xs \<Rightarrow> Some (o_price x, volume (filter (\<lambda>y. o_price y = o_price x) (x # xs)) mod 2 ^ 32)) \<and>
    map_option (\<lambda>pl. (pl_price pl, unat (pl_totalQuantity pl))) (bestAsk b) =
      (case sb_asks (abs_book b) of [] \<Rightarrow> None
       | x # xs \<Rightarrow> Some (o_price x, volume (filter (\<lambda>y. o_price y = o_price x) (x # xs)) mod 2 ^ 32))"
proof -
  have wrap: "map_option (\<lambda>pl. (pl_price pl, unat (pl_totalQuantity pl))) best =
      (case xs of [] \<Rightarrow> None
       | x # xs \<Rightarrow> Some (o_price x, volume (filter (\<lambda>y. o_price y = o_price x) (x # xs)) mod 2 ^ 32))"
    if "map_option (\<lambda>pl. (pl_price pl, pl_totalQuantity pl)) best =
      (case xs of [] \<Rightarrow> None
       | x # xs \<Rightarrow> Some (o_price x, sum_list (map o_quantity (filter (\<lambda>y. o_price y = o_price x) (x # xs)))))" for best xs
    using that unat_sum_list [of o_quantity] by (cases best; cases xs) (simp_all add: volume_def del: filter.simps)
  from best_levels_run [OF assms] wrap show ?thesis by blast
qed

theorem best_levels_witness:
  "map_option (\<lambda>pl. (pl_price pl, unat (pl_totalQuantity pl))) (bestBid small_book) =
      (case sb_bids (abs_book small_book) of [] \<Rightarrow> None
       | x # xs \<Rightarrow> Some (o_price x, volume (filter (\<lambda>y. o_price y = o_price x) (x # xs)) mod 2 ^ 32)) \<and>
    map_option (\<lambda>pl. (pl_price pl, unat (pl_totalQuantity pl))) (bestAsk small_book) =
      (case sb_asks (abs_book small_book) of [] \<Rightarrow> None
       | x # xs \<Rightarrow> Some (o_price x, volume (filter (\<lambda>y. o_price y = o_price x) (x # xs)) mod 2 ^ 32))"
  by (rule best_levels) code_simp

text \<open>Two orders of \<open>2 ^ 32 - 1\<close> at one price are an ordinary book, with a total of \<open>2 ^ 32 - 2\<close>.\<close>

definition large_book :: "OrderBook" where
  "large_book = (case bindR (OrderBook_new 4) (\<lambda>b. book_run True (\<lambda>t n. n + 1)
       [AddOp Sell 100 4294967295 1 7, AddOp Sell 100 4294967295 2 8] b (0 :: nat)) of
     Inr (b, _) \<Rightarrow> b)"

lemma total_wraps:
  "book_inv large_book \<and> volume (sb_asks (abs_book large_book)) = 8589934590 \<and>
    map_option (\<lambda>pl. (pl_price pl, pl_totalQuantity pl)) (bestAsk large_book) = Some (100, 4294967294)"
proof -
  have "map o_quantity (sb_asks (abs_book large_book)) = [4294967295, 4294967295]" by code_simp
  then have "sum_list (map unat (map o_quantity (sb_asks (abs_book large_book)))) = 8589934590"
    by (simp del: map_map)
  then have "volume (sb_asks (abs_book large_book)) = 8589934590" by (simp add: volume_def comp_def)
  moreover have "book_inv large_book" by code_simp
  moreover have "map_option (\<lambda>pl. (pl_price pl, pl_totalQuantity pl)) (bestAsk large_book) = Some (100, 4294967294)"
    by code_simp
  ultimately show ?thesis by blast
qed

section \<open>Where the book gives up\<close>

text \<open>The pool is never overrun: with no slot left \<open>addLimitOrder\<close> stops in the pool, on the assert in
  a debug build and on the null pointer otherwise, before anything is matched.\<close>

lemma addLimitOrder_exhausted:
  assumes "book_inv b" and "op_freeCount (ob_pool b) = 0"
  shows "addLimitOrder dbg onTrade side price q i pid b c =
    Inl (if dbg then AssertFailed ''freeList_ != nullptr'' else NullDeref)"
proof -
  obtain bxs axs fr where "book_rep b bxs axs fr" using book_inv_rep [OF assms(1)] .
  then have "pool_rep (ob_pool b) fr" by (simp add: book_rep_def sides_rep_def)
  with assms(2) have "pool_rep (ob_pool b) []" by (cases fr) (auto simp: pool_rep_def)
  from allocate_exhausted [OF this] show ?thesis
    by (cases dbg) (simp_all add: addLimitOrder_def)
qed

text \<open>Without a place left in the reserved part of its vector a new level fails the assert.\<close>

lemma rest_order_level_limit:
  assumes "price \<notin> pl_price ` set (case side of Buy \<Rightarrow> ob_bids b | Sell \<Rightarrow> ob_asks b)"
    and "kDefaultMaxPriceLevels \<le> length (case side of Buy \<Rightarrow> ob_bids b | Sell \<Rightarrow> ob_asks b)"
  shows "rest_order True side price i order b =
    Inl (AssertFailed (case side of Buy \<Rightarrow> ''bids_.size() < bids_.capacity()''
                                  | Sell \<Rightarrow> ''asks_.size() < asks_.capacity()''))"
proof -
  have none: "\<not> (lower_bound P ls \<noteq> length ls \<and> pl_price (ls ! lower_bound P ls) = price)"
    if "price \<notin> pl_price ` set ls" for P and ls :: "PriceLevel list"
    using that lower_bound_le [of P ls] by (metis image_eqI le_neq_implies_less nth_mem)
  show ?thesis
  proof (cases side)
    case Buy
    with assms none [of "ob_bids b" "\<lambda>pl. pl_price pl < price"] show ?thesis
      by (auto simp: rest_order_def findOrCreateBidLevel_def findBidLevel_def Let_def assertR_def)
  next
    case Sell
    with assms none [of "ob_asks b" "\<lambda>pl. price < pl_price pl"] show ?thesis
      by (auto simp: rest_order_def findOrCreateAskLevel_def findAskLevel_def Let_def assertR_def)
  qed
qed

text \<open>An order that crosses nothing goes straight to rest.\<close>

definition crosses_none :: "Side \<Rightarrow> u32 \<Rightarrow> SpecBook \<Rightarrow> bool" where
  "crosses_none side price sb = (case side of
     Buy \<Rightarrow> list_all (\<lambda>y. price < o_price y) (sb_asks sb) | Sell \<Rightarrow> list_all (\<lambda>y. o_price y < price) (sb_bids sb))"

lemma addLimitOrder_quiet:
  assumes "book_inv b" and "pool_rep (ob_pool b) (j # fr)" and x: "x = new_order side price q i pid (ob_sequence b)"
    and "0 < q" and quiet: "crosses_none side price (abs_book b)"
  shows "addLimitOrder dbg onTrade side price q i pid b c =
    bindR (rest_order dbg side price i j (entered b j x)) (\<lambda>b. Inr (b, c))"
proof -
  have j: "j < length (heap b)" using assms(2) by (simp add: pool_rep_def)
  then have h: "j < length (heap (entered b j x))" "o_price (heap (entered b j x) ! j) = price"
    by (simp_all add: x new_order_def)
  have ask: "price < pl_price pl" if "side = Buy" "bestAsk b = Some pl" for pl
    using best_levels_run [OF assms(1)] quiet that by (auto simp: crosses_none_def split: list.splits)
  have bid: "pl_price pl < price" if "side = Sell" "bestBid b = Some pl" for pl
    using best_levels_run [OF assms(1)] quiet that by (auto simp: crosses_none_def split: list.splits)
  have best: "bestAsk (entered b j x) = bestAsk b" "bestBid (entered b j x) = bestBid b"
    by (simp_all add: bestAsk_def bestBid_def)
  have "(case side of Buy \<Rightarrow> matchBuy dbg onTrade j (entered b j x) c
                    | Sell \<Rightarrow> matchSell dbg onTrade j (entered b j x) c) = Inr (entered b j x, c)"
    using buy_side.match_gate [OF h, where dbg = dbg and onTrade = onTrade and c = c]
      sell_side.match_gate [OF h, where dbg = dbg and onTrade = onTrade and c = c] ask bid
    by (auto simp: bestAsk_def bestBid_def not_less split: Side.split if_splits)
  then show ?thesis
    using j \<open>0 < q\<close> unfolding addLimitOrder_entered [OF assms(2) x] by (simp add: x new_order_def)
qed

lemma spec_match_beyond: "list_all (\<lambda>y. beyond (o_price y)) rs \<Longrightarrow> spec_match beyond pid q rs = ([], q, rs)"
  by (cases rs) auto

abbreviation side_orders :: "Side \<Rightarrow> SpecBook \<Rightarrow> Order list" where
  "side_orders side sb \<equiv> (case side of Buy \<Rightarrow> sb_bids sb | Sell \<Rightarrow> sb_asks sb)"

abbreviation side_levels :: "Side \<Rightarrow> OrderBook \<Rightarrow> PriceLevel list" where
  "side_levels side b \<equiv> (case side of Buy \<Rightarrow> ob_bids b | Sell \<Rightarrow> ob_asks b)"

lemma side_prices:
  assumes "book_inv b"
  shows "pl_price ` set (side_levels side b) = o_price ` set (side_orders side (abs_book b))"
    and "length (side_levels side b) = card (o_price ` set (side_orders side (abs_book b)))"
  using book_prices [OF assms] by (simp_all add: length_remdups_card_conv split: Side.split)

lemma spec_add_quiet:
  assumes "crosses_none side price sb" and "0 < q"
  shows "fst (spec_add side price q i pid sb) = []"
    and "set (side_orders side (snd (spec_add side price q i pid sb))) =
      insert (new_order side price q i pid (sb_sequence sb)) (set (side_orders side sb))"
  using assms by (cases side; simp add: crosses_none_def spec_add_def spec_match_beyond fill_trades_def set_spec_insert)+

text \<open>C40: The asserts limit how many prices a book can hold. When an order that crosses nothing comes at a new
  price and its side has \<open>4096\<close> levels already, a build with asserts aborts; the same call in a release
  build returns without a trade, with the order resting, one level more and the invariant kept. Nothing
  else stands in the way of that order: its id is fresh and the pool has a slot for it.\<close>

theorem addLimitOrder_level_limit:
  assumes inv: "book_inv b" and fresh: "um_find (ob_orderIndex b) i = None" and free: "0 < op_freeCount (ob_pool b)"
    and "0 < q" and quiet: "crosses_none side price (abs_book b)"
    and price: "price \<notin> o_price ` set (side_orders side (abs_book b))"
    and full: "kDefaultMaxPriceLevels \<le> length (side_levels side b)"
  shows "addLimitOrder True onTrade side price q i pid b c =
      Inl (AssertFailed (case side of Buy \<Rightarrow> ''bids_.size() < bids_.capacity()''
                                    | Sell \<Rightarrow> ''asks_.size() < asks_.capacity()'')) \<and>
    (\<exists>b'. addLimitOrder False onTrade side price q i pid b c = Inr (b', c) \<and> book_inv b' \<and>
      new_order side price q i pid (sb_sequence (abs_book b)) \<in> set (side_orders side (abs_book b')) \<and>
      length (side_levels side b') = Suc (length (side_levels side b)))"
proof
  obtain bxs axs fr where "book_rep b bxs axs fr" using book_inv_rep [OF inv] .
  then have "pool_rep (ob_pool b) fr" by (simp add: book_rep_def sides_rep_def)
  with free obtain j fr1 where pool: "pool_rep (ob_pool b) (j # fr1)"
    by (cases fr) (auto simp: pool_rep_def word_gt_0 unat_eq_0)
  have "price \<notin> pl_price ` set (side_levels side b)" using price side_prices(1) [OF inv] by simp
  then show "addLimitOrder True onTrade side price q i pid b c =
      Inl (AssertFailed (case side of Buy \<Rightarrow> ''bids_.size() < bids_.capacity()''
                                    | Sell \<Rightarrow> ''asks_.size() < asks_.capacity()''))"
    unfolding addLimitOrder_quiet [OF inv pool refl \<open>0 < q\<close> quiet] using full
    by (subst rest_order_level_limit) (auto cong: Side.case_cong)
next
  have "has_room False side price b" by (simp add: has_room_def Let_def)
  then obtain b' where b': "addLimitOrder False onTrade side price q i pid b c = Inr (b', c)" "book_inv b'"
    "set (side_orders side (abs_book b')) =
      insert (new_order side price q i pid (sb_sequence (abs_book b))) (set (side_orders side (abs_book b)))"
    using addLimitOrder_run [OF inv fresh free, of False side price onTrade q pid c] spec_add_quiet [OF quiet \<open>0 < q\<close>]
    by (metis fold_simps(1))
  then have "length (side_levels side b') = Suc (length (side_levels side b))"
    using price by (simp add: side_prices(2) inv new_order_def)
  with b' show "\<exists>b'. addLimitOrder False onTrade side price q i pid b c = Inr (b', c) \<and> book_inv b' \<and>
      new_order side price q i pid (sb_sequence (abs_book b)) \<in> set (side_orders side (abs_book b')) \<and>
      length (side_levels side b') = Suc (length (side_levels side b))"
    by (intro exI [of _ b']) simp
qed

text \<open>Such a book is reached by \<open>4096\<close> bids, of one unit each, at the prices \<open>0, 1, 2, \<dots>\<close> and with these ids.\<close>

definition deep_ops :: "nat \<Rightarrow> BookOp list" where
  "deep_ops n = map (\<lambda>k. AddOp Buy (of_nat k) 1 (of_nat k) 7) [0..<n]"

definition deep_side :: "nat \<Rightarrow> Order list" where
  "deep_side n = rev (map (\<lambda>k. new_order Buy (of_nat k) 1 (of_nat k) 7 (of_nat k)) [0..<n])"

definition deep_book :: OrderBook where
  "deep_book = (case bindR (OrderBook_new 5000) (\<lambda>b. book_run True (\<lambda>t n. n) (deep_ops 4096) b ()) of
     Inr (b, _) \<Rightarrow> b)"

lemma spec_run_snoc: "snd (spec_run (xs @ [AddOp side p q i pid]) sb) = snd (spec_add side p q i pid (snd (spec_run xs sb)))"
  by (induction xs sb rule: spec_run.induct) (auto split: prod.splits)

lemma ops_admitted_snoc:
  "ops_admitted dbg cap (xs @ [op]) sb \<longleftrightarrow> ops_admitted dbg cap xs sb \<and> ops_admitted dbg cap [op] (snd (spec_run xs sb))"
  by (induction dbg cap xs sb rule: ops_admitted.induct) (auto split: prod.splits)

lemma of_nat_small:
  "k < 2 ^ LENGTH('a) \<Longrightarrow> n < 2 ^ LENGTH('a) \<Longrightarrow> (of_nat k :: 'a :: len word) < of_nat n \<longleftrightarrow> k < n"
  "k < 2 ^ LENGTH('a) \<Longrightarrow> n < 2 ^ LENGTH('a) \<Longrightarrow> (of_nat k :: 'a word) = of_nat n \<longleftrightarrow> k = n"
  by (simp_all add: word_less_nat_alt word_unat_eq_iff unsigned_of_nat take_bit_nat_eq_self)

lemma deep_run:
  assumes "n \<le> 4096"
  shows "snd (spec_run (deep_ops n) \<lparr>sb_bids = [], sb_asks = [], sb_sequence = 0\<rparr>) =
      \<lparr>sb_bids = deep_side n, sb_asks = [], sb_sequence = of_nat n\<rparr> \<and>
    ops_admitted True 5000 (deep_ops n) \<lparr>sb_bids = [], sb_asks = [], sb_sequence = 0\<rparr>"
  using assms
proof (induction n)
  case 0
  then show ?case by (simp add: deep_ops_def deep_side_def)
next
  case (Suc n)
  let ?x = "new_order Buy (of_nat n) 1 (of_nat n) 7 (of_nat n)" and ?p = "of_nat n :: u32"
  have ops: "deep_ops (Suc n) = deep_ops n @ [AddOp Buy (of_nat n) 1 (of_nat n) 7]" by (simp add: deep_ops_def)
  have side: "deep_side (Suc n) = ?x # deep_side n" by (simp add: deep_side_def)
  have below: "o_price y < ?p" "o_orderId y \<noteq> of_nat n" if "y \<in> set (deep_side n)" for y
    using that Suc.prems by (auto simp: deep_side_def new_order_def of_nat_small)
  have "spec_insert (<) ?x (deep_side n) = ?x # deep_side n"
    using below(1) by (cases "deep_side n") (auto simp: spec_insert_def new_order_def)
  then have "snd (spec_run (deep_ops (Suc n)) \<lparr>sb_bids = [], sb_asks = [], sb_sequence = 0\<rparr>) =
      \<lparr>sb_bids = deep_side (Suc n), sb_asks = [], sb_sequence = of_nat (Suc n)\<rparr>"
    using Suc.IH Suc.prems unfolding ops side spec_run_snoc by (simp add: spec_add_def)
  moreover have len: "length (deep_side n) = n" by (simp add: deep_side_def)
  moreover have "(of_nat (Suc n) :: u64) \<noteq> of_nat 0"
    using Suc.prems by (subst of_nat_small) simp_all
  then have "(of_nat n :: u64) + 1 \<noteq> 0" by (simp add: add.commute [of 1])
  moreover have "length (remdups (map o_price (deep_side n))) < 4096"
    using length_remdups_leq [of "map o_price (deep_side n)"] len Suc.prems by simp
  moreover have "of_nat n \<notin> o_orderId ` set (deep_side n)" using below(2) by (metis imageE)
  ultimately show ?case
    using Suc.IH Suc.prems len unfolding ops ops_admitted_snoc
    by (simp add: spec_orders_def side_room_def kDefaultMaxPriceLevels_def)
qed

lemma deep_book_ok:
  "book_inv deep_book" "abs_book deep_book = \<lparr>sb_bids = deep_side 4096, sb_asks = [], sb_sequence = 4096\<rparr>"
  "0 < op_freeCount (ob_pool deep_book)"
proof -
  obtain b where b: "OrderBook_new 5000 = Inr b" "book_inv b" "op_capacity (ob_pool b) = 5000"
    "abs_book b = \<lparr>sb_bids = [], sb_asks = [], sb_sequence = 0\<rparr>"
    using OrderBook_new_ok [of 5000] by auto
  from deep_run [of 4096] obtain b' where "book_run True (\<lambda>t n. n) (deep_ops 4096) b () = Inr (b', ())" "book_inv b'"
    and abs: "abs_book b' = \<lparr>sb_bids = deep_side 4096, sb_asks = [], sb_sequence = 4096\<rparr>"
    and cap: "op_capacity (ob_pool b') = 5000"
    using book_run_spec [OF b(2), of True "deep_ops 4096" "\<lambda>t n. n" "()"] b(3,4) by auto
  moreover from this have "deep_book = b'" by (simp add: deep_book_def b(1))
  ultimately show "book_inv deep_book" "abs_book deep_book = \<lparr>sb_bids = deep_side 4096, sb_asks = [], sb_sequence = 4096\<rparr>"
    by simp_all
  then show "0 < op_freeCount (ob_pool deep_book)"
    using cap \<open>deep_book = b'\<close> by (simp add: book_space spec_orders_def deep_side_def)
qed

theorem addLimitOrder_level_limit_witness:
  "addLimitOrder True (\<lambda>t n. n + 1) Buy 5000 1 6000 8 deep_book (0 :: nat) =
      Inl (AssertFailed (case Buy of Buy \<Rightarrow> ''bids_.size() < bids_.capacity()''
                                   | Sell \<Rightarrow> ''asks_.size() < asks_.capacity()'')) \<and>
    (\<exists>b'. addLimitOrder False (\<lambda>t n. n + 1) Buy 5000 1 6000 8 deep_book (0 :: nat) = Inr (b', 0) \<and> book_inv b' \<and>
      new_order Buy 5000 1 6000 8 (sb_sequence (abs_book deep_book)) \<in> set (side_orders Buy (abs_book b')) \<and>
      length (side_levels Buy b') = Suc (length (side_levels Buy deep_book)))"
proof (rule addLimitOrder_level_limit)
  have inj: "inj_on (\<lambda>k. of_nat k :: u32) {..<4096}"
    by (auto simp: inj_on_def of_nat_small)
  have "o_price ` set (deep_side 4096) = (\<lambda>k. of_nat k :: u32) ` {..<4096}"
    by (simp add: deep_side_def new_order_def image_image lessThan_atLeast0)
  then show "kDefaultMaxPriceLevels \<le> length (side_levels Buy deep_book)"
    by (simp add: side_prices(2) [OF deep_book_ok(1), of Buy, simplified] deep_book_ok(2) card_image [OF inj] kDefaultMaxPriceLevels_def)
  show "um_find (ob_orderIndex deep_book) 6000 = None"
    using of_nat_small(2) [of _ 6000, where 'a = 64]
    by (auto simp: book_inv_fresh [OF deep_book_ok(1)] deep_book_ok(2) spec_orders_def deep_side_def new_order_def)
  show "5000 \<notin> o_price ` set (side_orders Buy (abs_book deep_book))"
    using of_nat_small(2) [of _ 5000, where 'a = 32] by (auto simp: deep_book_ok(2) deep_side_def new_order_def)
  show "crosses_none Buy 5000 (abs_book deep_book)" unfolding deep_book_ok(2) by (simp add: crosses_none_def)
qed (rule deep_book_ok, rule deep_book_ok, simp)

text \<open>C39: A book can be built exactly for a capacity other than 0; for 0 the constructor of the pool writes
  outside its array. The fresh book satisfies the invariant and is empty.\<close>

theorem OrderBook_new_total:
  "(case OrderBook_new capacity of
      Inl e \<Rightarrow> capacity = 0 \<and> e = OutOfBounds
    | Inr b \<Rightarrow> capacity \<noteq> 0 \<and> book_inv b \<and> op_capacity (ob_pool b) = capacity \<and>
        op_freeCount (ob_pool b) = capacity \<and> abs_book b = \<lparr>sb_bids = [], sb_asks = [], sb_sequence = 0\<rparr>)"
proof (cases "capacity = 0")
  case True
  then show ?thesis by (simp add: OrderBook_new_def OrderPool_new_zero)
next
  case False
  then obtain b where b: "OrderBook_new capacity = Inr b" "book_inv b" "op_capacity (ob_pool b) = capacity"
    "abs_book b = \<lparr>sb_bids = [], sb_asks = [], sb_sequence = 0\<rparr>"
    by (rule OrderBook_new_ok)
  then have "unat (op_freeCount (ob_pool b)) = unat capacity"
    using book_inv_count [OF b(2)] by (simp add: spec_orders_def)
  with b False show ?thesis by (simp add: word_unat_eq_iff)
qed

end
