(* ===== verification/PoolTheorems.thy ===== *)
theory PoolTheorems
  imports OrderPool PriceLevels
begin

text \<open>
  The contracts of the two memory components, as locales that the code's models interpret, and their
  properties: the pool hands every slot out once and takes it back once, and a price level is a queue.
\<close>

section \<open>Slot allocators\<close>

text \<open>Taking \<open>n\<close> slots in a row.\<close>

fun take_slots :: "('p \<Rightarrow> fault + nat \<times> 'p) \<Rightarrow> nat \<Rightarrow> 'p \<Rightarrow> fault + nat list \<times> 'p" where
  "take_slots alloc 0 p = Inr ([], p)"
| "take_slots alloc (Suc n) p =
     bindR (alloc p) (\<lambda>(i, p). bindR (take_slots alloc n p) (\<lambda>(js, p). Inr (i # js, p)))"

locale slot_allocator =
  fixes alloc :: "'p \<Rightarrow> fault + nat \<times> 'p"
    and dealloc :: "nat \<Rightarrow> 'p \<Rightarrow> fault + 'p"
    and free :: "'p \<Rightarrow> nat list"
    and slots :: "'p \<Rightarrow> nat set"
    and inv :: "'p \<Rightarrow> bool"
  assumes alloc_free: "inv p \<Longrightarrow> free p = i # fr \<Longrightarrow>
      \<exists>p'. alloc p = Inr (i, p') \<and> inv p' \<and> free p' = fr \<and> slots p' = slots p"
    and alloc_none: "inv p \<Longrightarrow> free p = [] \<Longrightarrow> \<exists>e. alloc p = Inl e"
    and dealloc_used: "inv p \<Longrightarrow> i \<in> slots p \<Longrightarrow> i \<notin> set (free p) \<Longrightarrow>
      \<exists>p'. dealloc i p = Inr p' \<and> inv p' \<and> free p' = i # free p \<and> slots p' = slots p"
    and free_slots: "inv p \<Longrightarrow> distinct (free p) \<and> set (free p) \<subseteq> slots p"
begin

lemma take_slots_prefix:
  "inv p \<Longrightarrow> n \<le> length (free p) \<Longrightarrow>
     \<exists>p'. take_slots alloc n p = Inr (take n (free p), p') \<and> inv p' \<and> free p' = drop n (free p) \<and> slots p' = slots p"
proof (induction n arbitrary: p)
  case (Suc n)
  then obtain i fr where fr: "free p = i # fr" by (cases "free p") auto
  with Suc.prems alloc_free obtain p1 where
    p1: "alloc p = Inr (i, p1)" "inv p1" "free p1 = fr" "slots p1 = slots p" by metis
  with Suc.prems fr Suc.IH [of p1] show ?case by auto
qed simp

lemma take_slots_fails:
  "inv p \<Longrightarrow> length (free p) < n \<Longrightarrow> \<exists>e. take_slots alloc n p = Inl e"
proof (induction n arbitrary: p)
  case (Suc n)
  show ?case
  proof (cases "free p")
    case Nil
    with Suc.prems alloc_none show ?thesis by fastforce
  next
    case (Cons i fr)
    with Suc.prems alloc_free obtain p1 where "alloc p = Inr (i, p1)" "inv p1" "free p1 = fr" by metis
    with Suc Cons show ?thesis by fastforce
  qed
qed simp

text \<open>A slot given back is the next one handed out.\<close>

lemma dealloc_alloc:
  assumes "inv p" and "i \<in> slots p" and "i \<notin> set (free p)"
  shows "\<exists>p'. bindR (dealloc i p) alloc = Inr (i, p') \<and> inv p' \<and> free p' = free p"
proof -
  obtain p1 where "dealloc i p = Inr p1" "inv p1" "free p1 = i # free p"
    using dealloc_used [OF assms] by blast
  with alloc_free show ?thesis by fastforce
qed

end

interpretation pool: slot_allocator "allocate dbg" "\<lambda>i. deallocate dbg (Some i)" free_slots pool_slots pool_inv
  for dbg
proof
  fix p i fr
  assume inv: "pool_inv p"
  then have rep: "pool_rep p (free_slots p)" by (simp add: pool_inv_def)
  show "distinct (free_slots p) \<and> set (free_slots p) \<subseteq> pool_slots p"
    using pool_rep_distinct [OF rep] pool_rep_bound [OF rep] by (auto simp: pool_slots_def)
  show "\<exists>e. allocate dbg p = Inl e" if "free_slots p = []"
    using rep allocate_exhausted [of p] that by (cases dbg) auto
  show "\<exists>p'. allocate dbg p = Inr (i, p') \<and> pool_inv p' \<and> free_slots p' = fr \<and> pool_slots p' = pool_slots p"
    if "free_slots p = i # fr"
  proof -
    from rep that have r: "pool_rep p (i # fr)" by simp
    from allocate_run [OF r] allocate_rep [OF r] show ?thesis
      by (auto simp: pool_rep_inv pool_rep_free_slots pool_slots_def)
  qed
  show "\<exists>p'. deallocate dbg (Some i) p = Inr p' \<and> pool_inv p' \<and> free_slots p' = i # free_slots p \<and>
      pool_slots p' = pool_slots p" if "i \<in> pool_slots p" "i \<notin> set (free_slots p)"
  proof -
    from that have "i < length (op_orders p)" by (simp add: pool_slots_def)
    from deallocate_run [OF rep this that(2)] deallocate_rep [OF rep this that(2)] show ?thesis
      by (auto simp: pool_rep_inv pool_rep_free_slots pool_slots_def)
  qed
qed

text \<open>C38: A new pool hands out each of its slots exactly once, in the order of the array, and then fails.\<close>

theorem pool_hands_out_all:
  assumes "OrderPool_new capacity = Inr p"
  shows "(\<exists>p'. take_slots (allocate dbg) (unat capacity) p = Inr ([0..<unat capacity], p') \<and>
      pool_inv p' \<and> pool_freeCount p' = 0) \<and>
    (\<exists>e. take_slots (allocate dbg) (Suc (unat capacity)) p = Inl e)"
proof -
  have "capacity \<noteq> 0" using assms by (auto simp: OrderPool_new_zero)
  then obtain p0 where "OrderPool_new capacity = Inr p0" and rep: "pool_rep p0 [0..<unat capacity]"
    by (rule OrderPool_new_ok)
  with assms have p: "pool_inv p" "free_slots p = [0..<unat capacity]"
    by (auto simp: pool_rep_inv pool_rep_free_slots)
  obtain p' where p': "take_slots (allocate dbg) (unat capacity) p = Inr ([0..<unat capacity], p')"
    "pool_inv p'" "free_slots p' = []"
    using pool.take_slots_prefix [OF p(1), of "unat capacity" dbg] p(2) by auto
  then have "pool_freeCount p' = 0"
    by (simp add: pool_inv_def pool_rep_def pool_freeCount_def unat_eq_0)
  with p' pool.take_slots_fails [OF p(1), of "Suc (unat capacity)" dbg] p(2) show ?thesis by auto
qed

theorem pool_hands_out_all_witness:
  "(\<exists>p'. take_slots (allocate True) (unat (3 :: u64)) (projr (OrderPool_new 3)) = Inr ([0..<unat (3 :: u64)], p') \<and>
      pool_inv p' \<and> pool_freeCount p' = 0) \<and>
    (\<exists>e. take_slots (allocate True) (Suc (unat (3 :: u64))) (projr (OrderPool_new 3)) = Inl e)"
  by (rule pool_hands_out_all) code_simp

text \<open>Deallocating is the inverse of allocating: a slot in use can be given back in both builds, and
  the next allocation returns that slot, with the links cleared, and the pool's free list as it was.\<close>

lemma pool_reuse:
  assumes "pool_inv p" and "i < unat (pool_capacity p)" and "i \<notin> set (free_slots p)"
  shows "\<exists>p'. bindR (deallocate dbg (Some i) p) (allocate dbg) = Inr (i, p') \<and> pool_inv p' \<and>
    free_slots p' = free_slots p"
proof -
  have "i \<in> pool_slots p"
    using assms(1,2) by (simp add: pool_slots_def pool_inv_def pool_rep_def pool_capacity_def)
  with assms(1,3) show ?thesis by (intro pool.dealloc_alloc) simp_all
qed

text \<open>Giving a slot back twice is caught by the assert on \<open>isAllocated_\<close> in a debug build.\<close>

lemma deallocate_twice_caught:
  assumes "pool_inv p" and "i < unat (pool_capacity p)" and "i \<notin> set (free_slots p)"
    and "pool_freeCount p + 1 < pool_capacity p"
  shows "bindR (deallocate True (Some i) p) (deallocate True (Some i)) =
    Inl (AssertFailed ''isAllocated_[idx] == 1'')"
proof -
  from assms have rep: "pool_rep p (free_slots p)" and i: "i < length (op_orders p)"
    by (simp_all add: pool_inv_def pool_rep_def pool_capacity_def)
  have cnt: "unat (op_freeCount p + 1) = Suc (length (free_slots p))"
    using deallocate_facts [OF rep i assms(3)] by simp
  have "Suc (length (free_slots p)) < length (op_orders p)"
    using assms(4) rep unfolding word_less_nat_alt pool_freeCount_def pool_capacity_def cnt
    by (simp add: pool_rep_def)
  then show ?thesis
    using deallocate_run [OF rep i assms(3)] deallocate_twice [OF deallocate_rep [OF rep i assms(3)], of i] by simp
qed

section \<open>Queues\<close>

text \<open>A step that may fault, for every element of a list in turn.\<close>

fun foldR :: "('q \<Rightarrow> 'x \<Rightarrow> fault + 'q) \<Rightarrow> 'x list \<Rightarrow> 'q \<Rightarrow> fault + 'q" where
  "foldR f [] q = Inr q"
| "foldR f (x # xs) q = bindR (f q x) (\<lambda>q. foldR f xs q)"

locale fifo_queue =
  fixes enq :: "'q \<Rightarrow> nat \<Rightarrow> fault + 'q"
    and del :: "'q \<Rightarrow> nat \<Rightarrow> fault + 'q"
    and elems :: "'q \<Rightarrow> nat list"
    and weight :: "'q \<Rightarrow> nat \<Rightarrow> u32"
    and total :: "'q \<Rightarrow> u32"
    and slots :: "'q \<Rightarrow> nat set"
    and inv :: "'q \<Rightarrow> bool"
  assumes enq_run: "inv q \<Longrightarrow> i \<in> slots q \<Longrightarrow> i \<notin> set (elems q) \<Longrightarrow>
      \<exists>q'. enq q i = Inr q' \<and> inv q' \<and> elems q' = elems q @ [i] \<and> slots q' = slots q \<and>
        (\<forall>j \<in> slots q. weight q' j = weight q j)"
    and del_run: "inv q \<Longrightarrow> i \<in> set (elems q) \<Longrightarrow>
      \<exists>q'. del q i = Inr q' \<and> inv q' \<and> elems q' = remove1 i (elems q) \<and> slots q' = slots q \<and>
        (\<forall>j \<in> slots q. weight q' j = weight q j)"
    and inv_elems: "inv q \<Longrightarrow> distinct (elems q) \<and> set (elems q) \<subseteq> slots q \<and>
        total q = sum_list (map (weight q) (elems q))"
begin

lemma enq_all:
  "inv q \<Longrightarrow> set xs \<subseteq> slots q \<Longrightarrow> distinct xs \<Longrightarrow> set xs \<inter> set (elems q) = {} \<Longrightarrow>
     \<exists>q'. foldR enq xs q = Inr q' \<and> inv q' \<and> elems q' = elems q @ xs \<and> slots q' = slots q \<and>
       (\<forall>j \<in> slots q. weight q' j = weight q j)"
proof (induction xs arbitrary: q)
  case (Cons x xs)
  then obtain q1 where q1: "enq q x = Inr q1" "inv q1" "elems q1 = elems q @ [x]" "slots q1 = slots q"
    "\<forall>j \<in> slots q. weight q1 j = weight q j"
    using enq_run [of q x] by auto
  with Cons.prems Cons.IH [of q1] show ?case by auto
qed simp

lemma del_all:
  "inv q \<Longrightarrow> set ys \<subseteq> set (elems q) \<Longrightarrow> distinct ys \<Longrightarrow>
     \<exists>q'. foldR del ys q = Inr q' \<and> inv q' \<and> elems q' = filter (\<lambda>x. x \<notin> set ys) (elems q) \<and> slots q' = slots q \<and>
       (\<forall>j \<in> slots q. weight q' j = weight q j)"
proof (induction ys arbitrary: q)
  case (Cons y ys)
  then obtain q1 where q1: "del q y = Inr q1" "inv q1" "elems q1 = remove1 y (elems q)" "slots q1 = slots q"
    "\<forall>j \<in> slots q. weight q1 j = weight q j"
    using del_run [of q y] by auto
  have "remove1 y (elems q) = filter (\<lambda>x. x \<noteq> y) (elems q)"
    using inv_elems [OF Cons.prems(1)] by (auto simp: distinct_remove1_removeAll removeAll_filter_not_eq intro!: filter_cong)
  with q1 Cons.prems Cons.IH [of q1] show ?case by auto
qed simp

text \<open>What is put in comes out in the same order, whatever was taken out of the middle.\<close>

lemma enq_then_del:
  assumes "inv q" and "set xs \<subseteq> slots q" and "distinct xs" and "set xs \<inter> set (elems q) = {}"
    and "set ys \<subseteq> set (elems q @ xs)" and "distinct ys"
  shows "\<exists>q'. bindR (foldR enq xs q) (foldR del ys) = Inr q' \<and> inv q' \<and>
    elems q' = filter (\<lambda>x. x \<notin> set ys) (elems q @ xs) \<and>
    total q' = sum_list (map (weight q) (filter (\<lambda>x. x \<notin> set ys) (elems q @ xs)))"
proof -
  obtain q1 where q1: "foldR enq xs q = Inr q1" "inv q1" "elems q1 = elems q @ xs" "slots q1 = slots q"
    "\<forall>j \<in> slots q. weight q1 j = weight q j"
    using enq_all [OF assms(1-4)] by blast
  obtain q2 where q2: "foldR del ys q1 = Inr q2" "inv q2" "elems q2 = filter (\<lambda>x. x \<notin> set ys) (elems q1)"
    "slots q2 = slots q1" "\<forall>j \<in> slots q1. weight q2 j = weight q1 j"
    using del_all [of q1 ys] q1 assms(5,6) by auto
  have "map (weight q2) (elems q2) = map (weight q) (elems q2)"
    using q1 q2 inv_elems [OF q2(2)] by (intro map_cong) auto
  then have "total q2 = sum_list (map (weight q) (elems q2))"
    using inv_elems [OF q2(2)] by (simp del: map_eq_conv)
  with q1 q2 show ?thesis by simp
qed

end

definition level_inv :: "Order list \<times> PriceLevel \<Rightarrow> bool" where
  "level_inv q = (case q of (h, pl) \<Rightarrow> level_links h pl (level_slots h pl) \<and> level_total h pl (level_slots h pl))"

interpretation level: fifo_queue "\<lambda>(h, pl) i. addToTail h pl i" "\<lambda>(h, pl) i. remove h pl i"
  "\<lambda>(h, pl). level_slots h pl" "\<lambda>(h, pl) i. o_quantity (h ! i)" "\<lambda>(h, pl). pl_totalQuantity pl"
  "\<lambda>(h, pl). {..<length h}" level_inv
proof (unfold_locales, unfold split_paired_all level_inv_def case_prod_conv)
  fix h pl i
  let ?xs = "level_slots h pl"
  assume inv: "level_links h pl ?xs \<and> level_total h pl ?xs"
  then have links: "level_links h pl ?xs" and bound: "\<And>j. j \<in> set ?xs \<Longrightarrow> j < length h"
    by (auto dest: level_links_bound)
  show "distinct ?xs \<and> set ?xs \<subseteq> {..<length h} \<and> pl_totalQuantity pl = sum_list (map (\<lambda>i. o_quantity (h ! i)) ?xs)"
    using inv bound by (auto simp: level_links_def level_total_def)
  show "\<exists>q'. addToTail h pl i = Inr q' \<and> (case q' of (h, pl) \<Rightarrow> level_links h pl (level_slots h pl) \<and> level_total h pl (level_slots h pl)) \<and>
      (case q' of (h, pl) \<Rightarrow> level_slots h pl) = ?xs @ [i] \<and> (case q' of (h, pl) \<Rightarrow> {..<length h}) = {..<length h} \<and>
      (\<forall>j \<in> {..<length h}. (case q' of (h, pl) \<Rightarrow> \<lambda>i. o_quantity (h ! i)) j = o_quantity (h ! j))"
    if i: "i \<in> {..<length h}" "i \<notin> set ?xs"
  proof -
    obtain h' pl' where a: "addToTail h pl i = Inr (h', pl')" "level_links h' pl' (?xs @ [i])"
      and pay: "same_payloads h' h" and "same_outside (insert i (set ?xs)) h' h" "pl_price pl' = pl_price pl"
      and tot: "pl_totalQuantity pl' = pl_totalQuantity pl + o_quantity (h ! i)"
      using addToTail_run [OF links] i by auto
    have "level_total h' pl' (?xs @ [i])"
      using inv bound i tot by (intro addToTail_total [of h pl, OF _ pay]) auto
    with a level_links_slots [OF a(2)] pay show ?thesis
      by (auto simp: same_payloads_def dest: payload_eqD(3))
  qed
  show "\<exists>q'. remove h pl i = Inr q' \<and> (case q' of (h, pl) \<Rightarrow> level_links h pl (level_slots h pl) \<and> level_total h pl (level_slots h pl)) \<and>
      (case q' of (h, pl) \<Rightarrow> level_slots h pl) = remove1 i ?xs \<and> (case q' of (h, pl) \<Rightarrow> {..<length h}) = {..<length h} \<and>
      (\<forall>j \<in> {..<length h}. (case q' of (h, pl) \<Rightarrow> \<lambda>i. o_quantity (h ! i)) j = o_quantity (h ! j))"
    if i: "i \<in> set ?xs"
  proof -
    obtain us vs where us: "?xs = us @ i # vs" using i by (auto dest: split_list)
    have r1: "remove1 i ?xs = us @ vs" using links unfolding us by (simp add: level_links_def remove1_append)
    obtain h' pl' where a: "remove h pl i = Inr (h', pl')" "level_links h' pl' (us @ vs)"
      and pay: "same_payloads h' h" and "same_outside (set (us @ i # vs)) h' h" and "h' ! i = payload (h ! i)"
      and "pl_price pl' = pl_price pl" and tot: "pl_totalQuantity pl' = pl_totalQuantity pl - o_quantity (h ! i)"
      using remove_run [OF links [unfolded us]] .
    have "level_total h' pl' (us @ vs)"
      by (rule remove_total [of h pl us i vs, OF _ pay]) (use inv bound tot us in auto)
    with a level_links_slots [OF a(2)] pay r1 show ?thesis
      by (auto simp: same_payloads_def dest: payload_eqD(3))
  qed
qed

text \<open>C25: A price level is a first-in first-out queue: orders added at the tail and then taken out at any
  places leave the others in the order they came, and \<open>front\<close> is the oldest of them; the cached total is
  the natural sum of the quantities that remain, reduced modulo \<open>2 ^ 32\<close>, so it is that sum only while it
  fits 32 bits.\<close>

theorem level_fifo:
  assumes "level_inv (h, pl)" and "distinct (level_slots h pl @ xs)" and "\<forall>i \<in> set xs. i < length h"
    and "distinct ys" and "set ys \<subseteq> set (level_slots h pl @ xs)"
  shows "\<exists>h' pl'. bindR (foldR (\<lambda>(h, pl) i. addToTail h pl i) xs (h, pl)) (foldR (\<lambda>(h, pl) i. remove h pl i) ys) =
      Inr (h', pl') \<and> level_inv (h', pl') \<and>
    level_slots h' pl' = filter (\<lambda>i. i \<notin> set ys) (level_slots h pl @ xs) \<and>
    front pl' = (case filter (\<lambda>i. i \<notin> set ys) (level_slots h pl @ xs) of [] \<Rightarrow> None | i # _ \<Rightarrow> Some i) \<and>
    unat (pl_totalQuantity pl') =
      sum_list (map (\<lambda>i. unat (o_quantity (h ! i))) (filter (\<lambda>i. i \<notin> set ys) (level_slots h pl @ xs))) mod 2 ^ 32"
proof -
  have "set xs \<subseteq> {..<length h}" "distinct xs" "set xs \<inter> set (level_slots h pl) = {}"
    using assms(2,3) by auto
  then obtain h' pl' where r: "bindR (foldR (\<lambda>(h, pl) i. addToTail h pl i) xs (h, pl)) (foldR (\<lambda>(h, pl) i. remove h pl i) ys) =
      Inr (h', pl')" "level_inv (h', pl')"
    "level_slots h' pl' = filter (\<lambda>i. i \<notin> set ys) (level_slots h pl @ xs)"
    "pl_totalQuantity pl' = sum_list (map (\<lambda>i. o_quantity (h ! i)) (filter (\<lambda>i. i \<notin> set ys) (level_slots h pl @ xs)))"
    using level.enq_then_del [of "(h, pl)" xs ys] assms by (auto split: prod.splits)
  have "front pl' = (case level_slots h' pl' of [] \<Rightarrow> None | i # _ \<Rightarrow> Some i)"
    using r(2) by (auto simp: level_inv_def front_def dest: level_links_head)
  with r(1-3) show ?thesis
    by (intro exI [of _ h'] exI [of _ pl']) (simp only: r(4) unat_sum_list simp_thms)
qed

theorem level_fifo_witness:
  "\<exists>h' pl'. bindR (foldR (\<lambda>(h, pl) i. addToTail h pl i) [2, 0, 1] (replicate 3 (order_zero\<lparr>o_quantity := 5\<rparr>), PriceLevel_new 9))
      (foldR (\<lambda>(h, pl) i. remove h pl i) [0]) = Inr (h', pl') \<and> level_inv (h', pl') \<and>
    level_slots h' pl' = filter (\<lambda>i. i \<notin> set [0])
      (level_slots (replicate 3 (order_zero\<lparr>o_quantity := 5\<rparr>)) (PriceLevel_new 9) @ [2, 0, 1]) \<and>
    front pl' = (case filter (\<lambda>i. i \<notin> set [0])
      (level_slots (replicate 3 (order_zero\<lparr>o_quantity := 5\<rparr>)) (PriceLevel_new 9) @ [2, 0, 1]) of [] \<Rightarrow> None | i # _ \<Rightarrow> Some i) \<and>
    unat (pl_totalQuantity pl') = sum_list (map (\<lambda>i. unat (o_quantity (replicate 3 (order_zero\<lparr>o_quantity := 5\<rparr>) ! i)))
      (filter (\<lambda>i. i \<notin> set [0]) (level_slots (replicate 3 (order_zero\<lparr>o_quantity := 5\<rparr>)) (PriceLevel_new 9) @ [2, 0, 1]))) mod 2 ^ 32"
  by (rule level_fifo) code_simp+

end
