(* ===== verification/Framing.thy ===== *)
theory Framing
  imports Prelude "HOL-Library.Char_ord"
begin

text \<open>
  The wire framing (\<open>venue/framing.h\<close>, \<open>venue/framing.cpp\<close>): \<open>VEN1\<close>, a big-endian length of four bytes
  and the payload. A \<open>std::string\<close> is a list of bytes. \<open>FrameDecoder::next\<close> returns \<open>Some\<close> payload for
  \<open>true\<close> and \<open>None\<close> for \<open>false\<close>, together with the decoder it leaves.
\<close>

section \<open>Bytes\<close>

unbundle bit_operations_syntax

text \<open>\<open>static_cast<char>((w >> k) & 0xFF)\<close> and back.\<close>

definition byte_of :: "u32 \<Rightarrow> nat \<Rightarrow> char" where
  "byte_of w k = char_of (unat (drop_bit k w AND 0xFF))"

definition byte_val :: "char \<Rightarrow> u32" where
  "byte_val c = of_nat (of_char c)"

definition be32 :: "char \<Rightarrow> char \<Rightarrow> char \<Rightarrow> char \<Rightarrow> u32" where
  "be32 a b c d = push_bit 24 (byte_val a) OR push_bit 16 (byte_val b) OR push_bit 8 (byte_val c) OR byte_val d"

section \<open>The codec\<close>

definition kFrameMagic :: u32 where
  "kFrameMagic = 0x56454E31"

definition kFrameHeaderBytes :: nat where
  "kFrameHeaderBytes = 8"

definition kMaxPayloadBytes :: u32 where
  "kMaxPayloadBytes = push_bit 20 1"

definition encodeFrame :: "string \<Rightarrow> string" where
  "encodeFrame payload =
     (let len = of_nat (length payload) :: u32 in
      [byte_of kFrameMagic 24, byte_of kFrameMagic 16, byte_of kFrameMagic 8, byte_of kFrameMagic 0,
       byte_of len 24, byte_of len 16, byte_of len 8, byte_of len 0] @ payload)"

record FrameDecoder =
  fd_buf :: string
  fd_error :: bool

definition FrameDecoder_new :: FrameDecoder where
  "FrameDecoder_new = \<lparr>fd_buf = [], fd_error = False\<rparr>"

definition feed :: "FrameDecoder \<Rightarrow> string \<Rightarrow> FrameDecoder" where
  "feed d data = d\<lparr>fd_buf := fd_buf d @ data\<rparr>"

definition decoder_next :: "FrameDecoder \<Rightarrow> string option \<times> FrameDecoder" where
  "decoder_next d =
     (let buf = fd_buf d in
      if fd_error d then (None, d)
      else if length buf < kFrameHeaderBytes then (None, d)
      else if be32 (buf ! 0) (buf ! 1) (buf ! 2) (buf ! 3) \<noteq> kFrameMagic then (None, d\<lparr>fd_error := True\<rparr>)
      else let len = be32 (buf ! 4) (buf ! 5) (buf ! 6) (buf ! 7) in
        if kMaxPayloadBytes < len then (None, d\<lparr>fd_error := True\<rparr>)
        else if length buf < kFrameHeaderBytes + unat len then (None, d)
        else (Some (take (unat len) (drop kFrameHeaderBytes buf)),
              d\<lparr>fd_buf := drop (kFrameHeaderBytes + unat len) buf\<rparr>))"

lemma decoder_next_less:
  "decoder_next d = (Some p, d') \<Longrightarrow> length (fd_buf d') < length (fd_buf d)"
  by (auto simp: decoder_next_def Let_def kFrameHeaderBytes_def split: if_splits)

text \<open>\<open>while (decoder.next(payload))\<close>: every complete frame in the buffer.\<close>

function decode_all :: "FrameDecoder \<Rightarrow> string list \<times> FrameDecoder" where
  "decode_all d =
     (case decoder_next d of
        (None, d') \<Rightarrow> ([], d')
      | (Some p, d') \<Rightarrow> (case decode_all d' of (ps, d'') \<Rightarrow> (p # ps, d'')))"
  by pat_completeness auto
termination
  by (relation "measure (\<lambda>d. length (fd_buf d))") (auto simp: decoder_next_less dest: sym)

declare decode_all.simps [simp del]

section \<open>Byte arithmetic\<close>

lemma byte_of_take_bit: "byte_of w k = char_of (unat (take_bit 8 (drop_bit k w)))"
proof -
  have "(mask 8 :: u32) = 0xFF" by (simp add: mask_eq_exp_minus_1)
  then show ?thesis by (simp add: byte_of_def take_bit_eq_mask)
qed

lemma byte_val_of: "byte_val (byte_of w k) = take_bit 8 (drop_bit k w)"
proof -
  have "unat (take_bit 8 (drop_bit k w)) < 256"
    using take_bit_nat_less_exp [of 8 "unat (drop_bit k w)"] by (simp add: unsigned_take_bit_eq)
  then show ?thesis
    by (simp add: byte_val_def byte_of_take_bit of_char_of)
qed

lemma of_char_less: "(of_char c :: nat) < 256"
  using nat_of_char_less_256 [of c] by simp

lemma byte_val_unat: "unat (byte_val c) = of_char c"
proof -
  have "take_bit 32 (of_char c :: nat) = of_char c"
    by (rule take_bit_nat_eq_self) (rule less_trans [OF of_char_less], simp)
  then show ?thesis by (simp add: byte_val_def unsigned_of_nat)
qed

lemma byte_val_inverse: "char_of (unat (byte_val c)) = c"
  by (simp add: byte_val_unat)

lemma byte_val_bits: "bit (byte_val c) n \<Longrightarrow> n < 8"
proof -
  have "unat (take_bit 8 (byte_val c)) = unat (byte_val c)"
    using of_char_less [of c] unfolding unsigned_take_bit_eq byte_val_unat
    by (intro take_bit_nat_eq_self) simp
  then have "take_bit 8 (byte_val c) = byte_val c" by (simp add: word_unat_eq_iff)
  then show "bit (byte_val c) n \<Longrightarrow> n < 8"
    by (metis bit_take_bit_iff)
qed

lemma be32_bytes: "be32 (byte_of w 24) (byte_of w 16) (byte_of w 8) (byte_of w 0) = w"
  unfolding be32_def byte_val_of
proof (rule bit_word_eqI)
  fix n assume "n < LENGTH(32)"
  then show "bit (push_bit 24 (take_bit 8 (drop_bit 24 w)) OR push_bit 16 (take_bit 8 (drop_bit 16 w)) OR
      push_bit 8 (take_bit 8 (drop_bit 8 w)) OR take_bit 8 (drop_bit 0 w)) n = bit w n"
    by (cases "24 \<le> n"; cases "16 \<le> n"; cases "8 \<le> n") (auto simp: bit_simps)
qed

lemma be32_inverse:
  "byte_of (be32 a b c d) 24 = a" "byte_of (be32 a b c d) 16 = b"
  "byte_of (be32 a b c d) 8 = c" "byte_of (be32 a b c d) 0 = d"
proof -
  note bits = byte_val_bits [of a] byte_val_bits [of b] byte_val_bits [of c] byte_val_bits [of d]
  have "take_bit 8 (drop_bit 24 (be32 a b c d)) = byte_val a"
    unfolding be32_def by (rule bit_word_eqI) (use bits in \<open>fastforce simp: bit_simps\<close>)
  moreover have "take_bit 8 (drop_bit 16 (be32 a b c d)) = byte_val b"
    unfolding be32_def by (rule bit_word_eqI) (use bits in \<open>fastforce simp: bit_simps\<close>)
  moreover have "take_bit 8 (drop_bit 8 (be32 a b c d)) = byte_val c"
    unfolding be32_def by (rule bit_word_eqI) (use bits in \<open>fastforce simp: bit_simps\<close>)
  moreover have "take_bit 8 (drop_bit 0 (be32 a b c d)) = byte_val d"
    unfolding be32_def by (rule bit_word_eqI) (use bits in \<open>fastforce simp: bit_simps\<close>)
  ultimately show "byte_of (be32 a b c d) 24 = a" "byte_of (be32 a b c d) 16 = b"
    "byte_of (be32 a b c d) 8 = c" "byte_of (be32 a b c d) 0 = d"
    by (simp_all only: byte_of_take_bit byte_val_inverse)
qed

section \<open>Incremental decoders\<close>

text \<open>
  What a client of a decoder relies on: a message that is complete is not disturbed by what arrives
  after it, and what is not complete yet is decided by the bytes alone, however they were cut.
\<close>

locale stream_decoder =
  fixes step :: "'s \<Rightarrow> 'm option \<times> 's"
    and feed :: "'s \<Rightarrow> 'b list \<Rightarrow> 's"
    and drain :: "'s \<Rightarrow> 'm list \<times> 's"
  assumes drain_step: "drain s = (case step s of
        (None, s') \<Rightarrow> ([], s')
      | (Some m, s') \<Rightarrow> (case drain s' of (ms, s'') \<Rightarrow> (m # ms, s'')))"
    and drain_induct: "(\<And>s. (\<And>m s'. step s = (Some m, s') \<Longrightarrow> P s') \<Longrightarrow> P s) \<Longrightarrow> P s"
    and feed_some: "step s = (Some m, s') \<Longrightarrow> step (feed s x) = (Some m, feed s' x)"
    and feed_none: "step s = (None, s') \<Longrightarrow> step (feed s' x) = step (feed s x)"
    and feed_feed: "feed (feed s x) y = feed s (x @ y)"
    and feed_Nil: "feed s [] = s"
begin

text \<open>Draining early and feeding on is the same as feeding everything and draining once.\<close>

lemma drain_feed:
  "drain (feed s x) = (case drain s of (ms, s') \<Rightarrow> case drain (feed s' x) of (ms', s'') \<Rightarrow> (ms @ ms', s''))"
proof (induction s rule: drain_induct)
  case (1 s)
  show ?case
  proof (cases "step s")
    case (Pair r s')
    show ?thesis
    proof (cases r)
      case None
      with Pair have "step (feed s' x) = step (feed s x)" by (simp add: feed_none)
      then have "drain (feed s' x) = drain (feed s x)"
        by (subst (1 2) drain_step) simp
      moreover have "drain s = ([], s')" using Pair None by (subst drain_step) simp
      ultimately show ?thesis by (simp split: prod.splits)
    next
      case (Some m)
      with Pair have "step (feed s x) = (Some m, feed s' x)" by (simp add: feed_some)
      then have "drain (feed s x) = (case drain (feed s' x) of (ms, s'') \<Rightarrow> (m # ms, s''))"
        by (subst drain_step) simp
      moreover have "drain s = (case drain s' of (ms, s'') \<Rightarrow> (m # ms, s''))"
        using Pair Some by (subst drain_step) simp
      moreover note "1.IH" [of m s']
      ultimately show ?thesis using Pair Some by (simp split: prod.splits)
    qed
  qed
qed

lemma drain_idem: "drain s = (ms, s') \<Longrightarrow> drain s' = ([], s')"
proof (induction s arbitrary: ms rule: drain_induct)
  case (1 s)
  show ?case
  proof (cases "step s")
    case (Pair r s1)
    show ?thesis
    proof (cases r)
      case None
      with Pair have "step s1 = (None, s1)" using feed_none [of s s1 "[]"] by (simp add: feed_Nil)
      moreover have "s' = s1" using "1.prems" Pair None by (subst (asm) drain_step) simp
      ultimately show ?thesis by (subst drain_step) simp
    next
      case (Some m)
      with Pair "1.prems" obtain ms' where "drain s1 = (ms', s')"
        by (subst (asm) drain_step) (auto split: prod.splits)
      with "1.IH" Pair Some show ?thesis by blast
    qed
  qed
qed

end

text \<open>Bytes that arrive in chunks, with the decoder drained after each of them.\<close>

fun run_chunks :: "FrameDecoder \<Rightarrow> string list \<Rightarrow> string list \<times> FrameDecoder" where
  "run_chunks d [] = ([], d)"
| "run_chunks d (c # cs) = (case decode_all (feed d c) of (ps, d) \<Rightarrow>
     case run_chunks d cs of (ps', d) \<Rightarrow> (ps @ ps', d))"

section \<open>What the decoder does\<close>

text \<open>The two words of the header; bytes that arrive later do not change them.\<close>

definition frame_magic :: "string \<Rightarrow> u32" where
  "frame_magic buf = be32 (buf ! 0) (buf ! 1) (buf ! 2) (buf ! 3)"

definition frame_len :: "string \<Rightarrow> u32" where
  "frame_len buf = be32 (buf ! 4) (buf ! 5) (buf ! 6) (buf ! 7)"

lemma frame_header_append [simp]:
  "8 \<le> length buf \<Longrightarrow> frame_magic (buf @ x) = frame_magic buf"
  "8 \<le> length buf \<Longrightarrow> frame_len (buf @ x) = frame_len buf"
  by (auto simp: frame_magic_def frame_len_def nth_append)

lemma decoder_next_eq:
  "decoder_next d =
     (if fd_error d \<or> length (fd_buf d) < 8 then (None, d)
      else if frame_magic (fd_buf d) \<noteq> kFrameMagic \<or> kMaxPayloadBytes < frame_len (fd_buf d)
      then (None, d\<lparr>fd_error := True\<rparr>)
      else if length (fd_buf d) < 8 + unat (frame_len (fd_buf d)) then (None, d)
      else (Some (take (unat (frame_len (fd_buf d))) (drop 8 (fd_buf d))),
            d\<lparr>fd_buf := drop (8 + unat (frame_len (fd_buf d))) (fd_buf d)\<rparr>))"
  by (simp add: decoder_next_def Let_def kFrameHeaderBytes_def frame_magic_def frame_len_def)

lemma feed_fields [simp]: "fd_buf (feed d x) = fd_buf d @ x" "fd_error (feed d x) = fd_error d"
  "(feed d x)\<lparr>fd_error := e\<rparr> = feed (d\<lparr>fd_error := e\<rparr>) x"
  by (simp_all add: feed_def)

lemma decoder_next_feed_some:
  assumes "decoder_next d = (Some p, d')"
  shows "decoder_next (feed d x) = (Some p, feed d' x)"
proof -
  let ?n = "unat (frame_len (fd_buf d))"
  from assms have d: "\<not> fd_error d" "8 + ?n \<le> length (fd_buf d)" "frame_magic (fd_buf d) = kFrameMagic"
    "\<not> kMaxPayloadBytes < frame_len (fd_buf d)" "p = take ?n (drop 8 (fd_buf d))"
    "d' = d\<lparr>fd_buf := drop (8 + ?n) (fd_buf d)\<rparr>"
    by (auto simp: decoder_next_eq split: if_splits)
  then show ?thesis
    unfolding decoder_next_eq [of "feed d x"] feed_fields by (simp add: feed_def)
qed

lemma decoder_next_feed_none:
  assumes "decoder_next d = (None, d')"
  shows "decoder_next (feed d' x) = decoder_next (feed d x)"
proof -
  from assms consider "d' = d" | "\<not> fd_error d" "8 \<le> length (fd_buf d)" "d' = d\<lparr>fd_error := True\<rparr>"
    "frame_magic (fd_buf d) \<noteq> kFrameMagic \<or> kMaxPayloadBytes < frame_len (fd_buf d)"
    by (fastforce simp: decoder_next_eq split: if_splits)
  then show ?thesis
  proof cases
    case 2
    then show ?thesis by (auto simp: decoder_next_eq)
  qed simp
qed

interpretation decoder: stream_decoder decoder_next feed decode_all
proof
  show "decode_all s = (case decoder_next s of
        (None, s') \<Rightarrow> ([], s')
      | (Some m, s') \<Rightarrow> (case decode_all s' of (ms, s'') \<Rightarrow> (m # ms, s'')))" for s
    by (rule decode_all.simps)
  show "P s" if "\<And>s. (\<And>m s'. decoder_next s = (Some m, s') \<Longrightarrow> P s') \<Longrightarrow> P s" for P s
    using that decoder_next_less by (induction s rule: measure_induct_rule [of "\<lambda>d. length (fd_buf d)"]) blast
qed (blast intro: decoder_next_feed_some decoder_next_feed_none | simp add: feed_def)+

lemma run_chunks_drain:
  "(case run_chunks d cs of (ps, d') \<Rightarrow> case decode_all d' of (ps', d'') \<Rightarrow> (ps @ ps', d'')) =
     decode_all (feed d (concat cs))"
proof (induction cs arbitrary: d)
  case Nil
  then show ?case by (simp add: feed_def split: prod.splits)
next
  case (Cons c cs)
  obtain ps d1 where 1: "decode_all (feed d c) = (ps, d1)" by force
  have "decode_all (feed d (concat (c # cs))) = decode_all (feed (feed d c) (concat cs))"
    by (simp add: decoder.feed_feed)
  also have "\<dots> = (case decode_all (feed d1 (concat cs)) of (ps', d'') \<Rightarrow> (ps @ ps', d''))"
    unfolding decoder.drain_feed [of "feed d c"] 1 by simp
  finally show ?case using Cons.IH [of d1] 1 by (auto split: prod.splits)
qed

lemma run_chunks_settled:
  "decode_all d = ([], d) \<Longrightarrow> run_chunks d cs = (ps, d') \<Longrightarrow> decode_all d' = ([], d')"
proof (induction cs arbitrary: d ps)
  case (Cons c cs)
  obtain ps1 d1 where 1: "decode_all (feed d c) = (ps1, d1)" by force
  with Cons.prems(2) obtain ps2 where "run_chunks d1 cs = (ps2, d')"
    by (simp split: prod.splits)
  with Cons.IH [OF decoder.drain_idem [OF 1]] show ?case .
qed simp

lemma run_chunks_all:
  assumes "decode_all d = ([], d)"
  shows "run_chunks d cs = decode_all (feed d (concat cs))"
proof -
  obtain ps d' where r: "run_chunks d cs = (ps, d')" by force
  from run_chunks_settled [OF assms r] run_chunks_drain [of d cs] r show ?thesis by simp
qed

section \<open>Encoding and decoding\<close>

lemma length_8_split:
  assumes "8 \<le> length xs"
  shows "\<exists>b0 b1 b2 b3 b4 b5 b6 b7 ys. xs = [b0, b1, b2, b3, b4, b5, b6, b7] @ ys"
proof -
  have "length xs = Suc (Suc (Suc (Suc (Suc (Suc (Suc (Suc (length xs - 8))))))))" using assms by simp
  then show ?thesis by (auto simp: length_Suc_conv)
qed

lemma encodeFrame_header:
  "8 \<le> length (encodeFrame p)" "length (encodeFrame p) = 8 + length p" "drop 8 (encodeFrame p) = p"
  "frame_magic (encodeFrame p) = kFrameMagic" "frame_len (encodeFrame p) = of_nat (length p)"
  by (simp_all add: encodeFrame_def Let_def frame_magic_def frame_len_def be32_bytes)

lemma kMaxPayloadBytes_unat: "unat kMaxPayloadBytes = 1048576"
  by (simp add: kMaxPayloadBytes_def)

lemma decode_all_new: "decode_all FrameDecoder_new = ([], FrameDecoder_new)"
  by (subst decode_all.simps) (simp add: decoder_next_eq FrameDecoder_new_def)

lemma decode_encoded:
  assumes "\<not> fd_error d" and "fd_buf d = encodeFrame p @ rest" and "length p \<le> 1048576"
  shows "decoder_next d = (Some p, d\<lparr>fd_buf := rest\<rparr>)"
proof -
  have len: "unat (frame_len (fd_buf d)) = length p"
    using assms(2,3) by (simp add: encodeFrame_header unsigned_of_nat take_bit_nat_eq_self)
  moreover have "\<not> kMaxPayloadBytes < frame_len (fd_buf d)"
    using assms(3) unfolding word_less_nat_alt len kMaxPayloadBytes_unat by simp
  ultimately show ?thesis
    using assms by (simp add: decoder_next_eq encodeFrame_header)
qed

lemma decode_all_encoded:
  "\<not> fd_error d \<Longrightarrow> \<forall>p \<in> set ps. length p \<le> 1048576 \<Longrightarrow> fd_buf d = concat (map encodeFrame ps) @ rest \<Longrightarrow>
     decode_all d = (case decode_all (d\<lparr>fd_buf := rest\<rparr>) of (ps', d') \<Rightarrow> (ps @ ps', d'))"
proof (induction ps arbitrary: d)
  case Nil
  then have "d\<lparr>fd_buf := rest\<rparr> = d" by simp
  then show ?case by simp
next
  case (Cons p ps)
  have "decoder_next d = (Some p, d\<lparr>fd_buf := concat (map encodeFrame ps) @ rest\<rparr>)"
    using Cons.prems by (intro decode_encoded) auto
  then have "decode_all d = (case decode_all (d\<lparr>fd_buf := concat (map encodeFrame ps) @ rest\<rparr>) of
      (ps, d') \<Rightarrow> (p # ps, d'))"
    by (subst decode_all.simps) simp
  with Cons.IH [of "d\<lparr>fd_buf := concat (map encodeFrame ps) @ rest\<rparr>"] Cons.prems show ?case
    by (auto split: prod.splits)
qed

section \<open>The properties of the framing\<close>

text \<open>C18: Round trip. However the bytes of a sequence of frames are cut into chunks, a decoder that is
  drained after every chunk hands out exactly the payloads that were encoded, in their order, without
  an error and with nothing left in its buffer, provided none exceeds the limit of 1 MiB.\<close>

theorem framing_round_trip:
  assumes "concat chunks = concat (map encodeFrame payloads)"
    and "\<forall>p \<in> set payloads. length p \<le> unat kMaxPayloadBytes"
  shows "run_chunks FrameDecoder_new chunks = (payloads, FrameDecoder_new)"
proof -
  have empty: "decode_all FrameDecoder_new = ([], FrameDecoder_new)"
    by (rule decode_all_new)
  have "run_chunks FrameDecoder_new chunks = decode_all (feed FrameDecoder_new (concat (map encodeFrame payloads)))"
    using run_chunks_all [OF empty] assms(1) by simp
  also have "\<dots> = (case decode_all ((feed FrameDecoder_new (concat (map encodeFrame payloads)))\<lparr>fd_buf := []\<rparr>) of
      (ps', d') \<Rightarrow> (payloads @ ps', d'))"
    by (rule decode_all_encoded) (use assms(2) in \<open>simp_all add: FrameDecoder_new_def kMaxPayloadBytes_unat\<close>)
  also have "(feed FrameDecoder_new (concat (map encodeFrame payloads)))\<lparr>fd_buf := []\<rparr> = FrameDecoder_new"
    by (simp add: feed_def FrameDecoder_new_def)
  finally show ?thesis by (simp add: empty)
qed

theorem framing_round_trip_witness:
  "run_chunks FrameDecoder_new [take 3 (encodeFrame ''ab''), drop 3 (encodeFrame ''ab'') @ take 9 (encodeFrame ''xyz''),
      [], drop 9 (encodeFrame ''xyz'')] = ([''ab'', ''xyz''], FrameDecoder_new)"
  by (rule framing_round_trip) (code_simp, simp add: kMaxPayloadBytes_unat)

text \<open>C17: The cut of the stream never matters: also on bytes that are no frames at all, the payloads, the
  error flag and the bytes left are those of one decoder that gets everything at once.\<close>

theorem framing_chunk_independent:
  "run_chunks FrameDecoder_new chunks = decode_all (feed FrameDecoder_new (concat chunks))"
  by (rule run_chunks_all [OF decode_all_new])

text \<open>C29: What the decoder accepts is a frame: a payload it hands out is at most 1 MiB long, and the bytes
  it has taken from the buffer are the encoding of that payload.\<close>

theorem decoder_next_sound:
  assumes "decoder_next d = (Some p, d')"
  shows "fd_buf d = encodeFrame p @ fd_buf d' \<and> length p \<le> unat kMaxPayloadBytes \<and> \<not> fd_error d'"
proof -
  let ?buf = "fd_buf d" and ?n = "unat (frame_len (fd_buf d))"
  from assms have d: "\<not> fd_error d" "8 + ?n \<le> length ?buf" "frame_magic ?buf = kFrameMagic"
    "\<not> kMaxPayloadBytes < frame_len ?buf" "p = take ?n (drop 8 ?buf)" "d' = d\<lparr>fd_buf := drop (8 + ?n) ?buf\<rparr>"
    by (auto simp: decoder_next_eq split: if_splits)
  from d(2,5) have len: "length p = ?n" by simp
  obtain b0 b1 b2 b3 b4 b5 b6 b7 tl where buf: "?buf = [b0, b1, b2, b3, b4, b5, b6, b7] @ tl"
    using d(2) by (metis (no_types) add_leD1 length_8_split)
  have m: "be32 b0 b1 b2 b3 = kFrameMagic" and l: "be32 b4 b5 b6 b7 = of_nat (length p)"
    using d(3) len by (simp_all add: buf frame_magic_def frame_len_def)
  have "encodeFrame p = [b0, b1, b2, b3, b4, b5, b6, b7] @ p"
    unfolding encodeFrame_def Let_def m [symmetric] l [symmetric] be32_inverse ..
  moreover have "drop 8 ?buf = tl" by (simp add: buf)
  then have "?buf = [b0, b1, b2, b3, b4, b5, b6, b7] @ p @ drop (8 + ?n) ?buf"
    using d(5) by (metis append_take_drop_id buf drop_drop add.commute)
  ultimately show ?thesis
    using d len by (simp add: word_le_nat_alt not_less)
qed

theorem decoder_next_sound_witness:
  "fd_buf (feed FrameDecoder_new (encodeFrame ''ab'' @ ''VE'')) = encodeFrame ''ab'' @ fd_buf (feed FrameDecoder_new ''VE'') \<and>
    length ''ab'' \<le> unat kMaxPayloadBytes \<and> \<not> fd_error (feed FrameDecoder_new ''VE'')"
  by (rule decoder_next_sound) code_simp

lemma idle_bound:
  assumes "decoder_next d = (None, d)" and "\<not> fd_error d"
  shows "length (fd_buf d) < kFrameHeaderBytes + unat kMaxPayloadBytes"
proof -
  have "length (fd_buf d) < 8 \<or> (\<not> kMaxPayloadBytes < frame_len (fd_buf d) \<and>
      length (fd_buf d) < 8 + unat (frame_len (fd_buf d)))"
    using assms by (auto simp: decoder_next_eq split: if_splits dest: arg_cong [of _ _ fd_error])
  then show ?thesis
    by (auto simp: kFrameHeaderBytes_def word_less_nat_alt kMaxPayloadBytes_unat)
qed

text \<open>C30: Memory is bounded and garbage is refused: once drained, a decoder has either hit a framing error,
  which then sticks whatever arrives, or it holds less than one header and one largest payload.\<close>

theorem decoder_bounded:
  assumes "decode_all d = (ps, d')"
  shows "(fd_error d' \<and> (\<forall>x. decode_all (feed d' x) = ([], feed d' x))) \<or>
    (\<not> fd_error d' \<and> length (fd_buf d') < kFrameHeaderBytes + unat kMaxPayloadBytes)"
proof -
  have "decode_all d' = ([], d')" by (rule decoder.drain_idem [OF assms])
  then have none: "decoder_next d' = (None, d')"
    by (subst (asm) decode_all.simps) (auto split: prod.splits option.splits)
  show ?thesis
  proof (cases "fd_error d'")
    case True
    then have "decode_all (feed d' x) = ([], feed d' x)" for x
      by (subst decode_all.simps) (simp add: decoder_next_eq)
    with True show ?thesis by simp
  next
    case False
    with idle_bound [OF none] show ?thesis by simp
  qed
qed

theorem decoder_bounded_witness:
  "(fd_error (snd (decode_all (feed FrameDecoder_new ''VEN2----''))) \<and>
     (\<forall>x. decode_all (feed (snd (decode_all (feed FrameDecoder_new ''VEN2----''))) x) =
       ([], feed (snd (decode_all (feed FrameDecoder_new ''VEN2----''))) x))) \<or>
   (\<not> fd_error (snd (decode_all (feed FrameDecoder_new ''VEN2----''))) \<and>
     length (fd_buf (snd (decode_all (feed FrameDecoder_new ''VEN2----'')))) < kFrameHeaderBytes + unat kMaxPayloadBytes)"
  by (rule decoder_bounded [of "feed FrameDecoder_new ''VEN2----''" "[]"]) code_simp

text \<open>C31: The encoder does not check the limit that the decoder enforces: the frame of a payload of more
  than 1 MiB puts every decoder that meets it into the error state.\<close>

theorem oversized_frame_refused:
  assumes "\<not> fd_error d" and "fd_buf d = []" and "unat kMaxPayloadBytes < length p" and "length p < 2 ^ 32"
  shows "decoder_next (feed d (encodeFrame p)) = (None, (feed d (encodeFrame p))\<lparr>fd_error := True\<rparr>)"
proof -
  have "unat (of_nat (length p) :: u32) = length p"
    using assms(4) by (simp add: unsigned_of_nat take_bit_nat_eq_self)
  then have "kMaxPayloadBytes < of_nat (length p)"
    using assms(3) by (simp add: word_less_nat_alt)
  with assms(1,2) show ?thesis
    by (simp add: decoder_next_eq encodeFrame_header)
qed

theorem oversized_frame_refused_witness:
  "decoder_next (feed FrameDecoder_new (encodeFrame (replicate 1048577 CHR ''x''))) =
    (None, (feed FrameDecoder_new (encodeFrame (replicate 1048577 CHR ''x'')))\<lparr>fd_error := True\<rparr>)"
  by (rule oversized_frame_refused) (simp_all add: FrameDecoder_new_def kMaxPayloadBytes_unat)

end
