(* ===== verification/Json.thy ===== *)
theory Json
  imports UnorderedMap "HOL-Library.Char_ord"
begin

text \<open>
  The hand-written parser of flat JSON objects and the string quoting of \<open>venue/protocol.cpp\<close>. The
  parsing functions of the code take the text and an index that they advance; here the index is the
  rest of the text that it leaves, so advancing is dropping from the front. A result \<open>None\<close> is
  \<open>false\<close>: every caller then gives the whole text up, so what the output parameters hold at that
  point is never read.
\<close>

section \<open>Characters\<close>

definition quote :: char where "quote = CHR 0x22"
definition backslash :: char where "backslash = CHR 0x5C"

definition is_ws :: "char \<Rightarrow> bool" where
  "is_ws c \<longleftrightarrow> c = CHR '' '' \<or> c = CHR 0x09 \<or> c = CHR 0x0D \<or> c = CHR 0x0A"

text \<open>\<open>c >= '0' && c <= '9'\<close>, which for a \<open>signed\<close> and an \<open>unsigned\<close> \<open>char\<close> is the same test.\<close>

definition is_digit :: "char \<Rightarrow> bool" where
  "is_digit c \<longleftrightarrow> CHR ''0'' \<le> c \<and> c \<le> CHR ''9''"

section \<open>The parser\<close>

record JsonValue =
  jv_isString :: bool
  jv_str :: string
  jv_numRaw :: string

definition skipWs :: "string \<Rightarrow> string" where
  "skipWs s = dropWhile is_ws s"

definition unescape :: "char \<Rightarrow> char option" where
  "unescape e =
     (if e = quote then Some quote
      else if e = backslash then Some backslash
      else if e = CHR ''/'' then Some (CHR ''/'')
      else if e = CHR ''n'' then Some (CHR 0x0A)
      else if e = CHR ''t'' then Some (CHR 0x09)
      else if e = CHR ''r'' then Some (CHR 0x0D)
      else None)"

text \<open>The loop of \<open>parseString\<close>, after the opening quote.\<close>

fun string_loop :: "string \<Rightarrow> string \<Rightarrow> (string \<times> string) option" where
  "string_loop out [] = None"
| "string_loop out (c # s) =
     (if c = quote then Some (out, s)
      else if c = backslash
      then (case s of
              [] \<Rightarrow> None
            | e # s' \<Rightarrow> (case unescape e of
                None \<Rightarrow> None
              | Some x \<Rightarrow> string_loop (out @ [x]) s'))
      else string_loop (out @ [c]) s)"

definition parseString :: "string \<Rightarrow> (string \<times> string) option" where
  "parseString s = (case s of
       [] \<Rightarrow> None
     | c # s' \<Rightarrow> if c = quote then string_loop [] s' else None)"

text \<open>The raw token of a number: an optional minus sign, digits, and optionally a fraction.\<close>

definition parseNumber :: "string \<Rightarrow> (string \<times> string) option" where
  "parseNumber s =
     (let sign = (if s \<noteq> [] \<and> hd s = CHR ''-'' then [CHR ''-''] else []);
          s1 = drop (length sign) s;
          ints = takeWhile is_digit s1;
          s2 = dropWhile is_digit s1
      in if ints = [] then None
         else if s2 \<noteq> [] \<and> hd s2 = CHR ''.''
         then let frac = takeWhile is_digit (tl s2)
              in if frac = [] then None
                 else Some (sign @ ints @ CHR ''.'' # frac, dropWhile is_digit (tl s2))
         else Some (sign @ ints, s2))"

text \<open>The value of a member: a string, or else a number.\<close>

definition parse_value :: "string \<Rightarrow> (JsonValue \<times> string) option" where
  "parse_value s =
     (if s \<noteq> [] \<and> hd s = quote
      then (case parseString s of
              None \<Rightarrow> None
            | Some (str, s) \<Rightarrow> Some (\<lparr>jv_isString = True, jv_str = str, jv_numRaw = []\<rparr>, s))
      else (case parseNumber s of
              None \<Rightarrow> None
            | Some (raw, s) \<Rightarrow> Some (\<lparr>jv_isString = False, jv_str = [], jv_numRaw = raw\<rparr>, s)))"

lemma string_loop_length: "string_loop out s = Some (x, r) \<Longrightarrow> length r < length s"
proof (induction out s rule: string_loop.induct)
  case (2 out c s)
  show ?case
  proof (cases "c = backslash \<and> c \<noteq> quote")
    case True
    with 2 show ?thesis
      by (cases s) (fastforce split: option.splits)+
  next
    case False
    with 2 show ?thesis by (auto split: if_splits intro: less_SucI)
  qed
qed simp

lemma parseString_length: "parseString s = Some (x, r) \<Longrightarrow> length r < length s"
  by (auto simp: parseString_def dest: string_loop_length split: list.splits if_splits)

lemma parseNumber_length: "parseNumber s = Some (x, r) \<Longrightarrow> length r \<le> length s"
proof -
  have a: "length (dropWhile is_digit t) \<le> length s" if "length t \<le> length s" for t
    by (rule order_trans [OF length_dropWhile_le that])
  have b: "length (dropWhile is_digit (tl (dropWhile is_digit t))) \<le> length s" if "length t \<le> length s" for t
    by (rule a) (use a [OF that] in simp)
  show "parseNumber s = Some (x, r) \<Longrightarrow> length r \<le> length s"
    by (auto simp: parseNumber_def Let_def a b split: if_splits)
qed

lemma parse_value_length: "parse_value s = Some (x, r) \<Longrightarrow> length r \<le> length s"
  by (auto simp: parse_value_def dest!: parseString_length parseNumber_length split: if_splits option.splits)

lemma skipWs_length: "length (skipWs s) \<le> length s"
  by (simp add: skipWs_def length_dropWhile_le)

text \<open>One member, \<open>key : value\<close>, from the key to the character after the value.\<close>

definition parse_member :: "string \<Rightarrow> (string \<times> JsonValue \<times> string) option" where
  "parse_member s =
     (case parseString (skipWs s) of
        None \<Rightarrow> None
      | Some (key, s) \<Rightarrow>
          (let s = skipWs s in
           if s = [] \<or> hd s \<noteq> CHR '':'' then None
           else let s = skipWs (tl s) in
             if s = [] then None
             else (case parse_value s of
                     None \<Rightarrow> None
                   | Some (v, s) \<Rightarrow> Some (key, v, skipWs s))))"

lemma parse_member_length: "parse_member s = Some (k, v, r) \<Longrightarrow> length r < length s"
proof -
  assume "parse_member s = Some (k, v, r)"
  then obtain s1 s2 where "parseString (skipWs s) = Some (k, s1)" "skipWs s1 \<noteq> []"
    "parse_value (skipWs (tl (skipWs s1))) = Some (v, s2)" "r = skipWs s2"
    by (auto simp: parse_member_def Let_def split: option.splits if_splits)
  moreover note skipWs_length [of s] skipWs_length [of s1] skipWs_length [of s2] skipWs_length [of "tl (skipWs s1)"]
  ultimately show ?thesis
    by (auto dest!: parseString_length parse_value_length)
qed

text \<open>The loop over the members.\<close>

function members_loop :: "(string, JsonValue) umap \<Rightarrow> string \<Rightarrow> ((string, JsonValue) umap \<times> string) option" where
  "members_loop out s =
     (case parse_member s of
        None \<Rightarrow> None
      | Some (key, v, s) \<Rightarrow>
          (let out = um_assign out key v in
           if s = [] then None
           else if hd s = CHR '','' then members_loop out (tl s)
           else if hd s = CHR ''}'' then Some (out, tl s)
           else None))"
  by pat_completeness auto
termination
  by (relation "measure (\<lambda>(out, s). length s)") (auto dest!: sym [of "Some _"] parse_member_length)

declare members_loop.simps [simp del]

definition parseFlatObject :: "string \<Rightarrow> (string, JsonValue) umap option" where
  "parseFlatObject s =
     (let s = skipWs s in
      if s = [] \<or> hd s \<noteq> CHR ''{'' then None
      else let s = skipWs (tl s) in
        if s \<noteq> [] \<and> hd s = CHR ''}''
        then (if skipWs (tl s) = [] then Some [] else None)
        else (case members_loop [] s of
                None \<Rightarrow> None
              | Some (out, s) \<Rightarrow> if skipWs s = [] then Some out else None))"

section \<open>Quoting\<close>

definition hex_digit :: "nat \<Rightarrow> char" where
  "hex_digit n = (if n < 10 then char_of (48 + n) else char_of (87 + n))"

definition quote_char :: "char \<Rightarrow> string" where
  "quote_char c =
     (if c = quote then [backslash, quote]
      else if c = backslash then [backslash, backslash]
      else if c = CHR 0x0A then [backslash, CHR ''n'']
      else if c = CHR 0x0D then [backslash, CHR ''r'']
      else if c = CHR 0x09 then [backslash, CHR ''t'']
      else if c < CHR 0x20
      then [backslash, CHR ''u'', CHR ''0'', CHR ''0'', hex_digit (of_char c div 16), hex_digit (of_char c mod 16)]
      else [c])"

definition quoteJson :: "string \<Rightarrow> string" where
  "quoteJson s = [quote] @ concat (map quote_char s) @ [quote]"

text \<open>The characters the quoting writes as \<open>\u00XX\<close>.\<close>

definition is_control :: "char \<Rightarrow> bool" where
  "is_control c \<longleftrightarrow> c < CHR 0x20 \<and> c \<noteq> CHR 0x0A \<and> c \<noteq> CHR 0x0D \<and> c \<noteq> CHR 0x09"

lemma backslash_quote [simp]: "backslash \<noteq> quote" "quote \<noteq> backslash"
  by (simp_all add: backslash_def quote_def)

lemma unescape_table [simp]:
  "unescape quote = Some quote" "unescape backslash = Some backslash" "unescape (CHR ''n'') = Some (CHR 0x0A)"
  "unescape (CHR ''t'') = Some (CHR 0x09)" "unescape (CHR ''r'') = Some (CHR 0x0D)" "unescape (CHR ''u'') = None"
  by (simp_all add: unescape_def) (simp_all add: backslash_def quote_def)

text \<open>The three ways a character is written.\<close>

lemma quote_char_cases:
  obtains (escaped) e where "quote_char c = [backslash, e]" and "unescape e = Some c" and "\<not> is_control c"
  | (control) t where "quote_char c = backslash # CHR ''u'' # t" and "is_control c"
  | (plain) "quote_char c = [c]" and "c \<noteq> quote" and "c \<noteq> backslash" and "\<not> is_control c"
proof -
  consider "c = quote" | "c = backslash" | "c = CHR 0x0A" | "c = CHR 0x0D" | "c = CHR 0x09"
    | (other) "c \<noteq> quote" "c \<noteq> backslash" "c \<noteq> CHR 0x0A" "c \<noteq> CHR 0x0D" "c \<noteq> CHR 0x09"
    by blast
  then show thesis
  proof cases
    case other
    show thesis
    proof (cases "c < CHR 0x20")
      case True
      with other control show thesis by (simp add: quote_char_def is_control_def)
    next
      case False
      with other plain show thesis by (simp add: quote_char_def is_control_def)
    qed
  next
    case 1
    moreover have "\<not> is_control quote" by (simp add: is_control_def quote_def)
    ultimately show thesis using escaped [of quote] by (simp add: quote_char_def)
  next
    case 2
    moreover have "\<not> is_control backslash" by (simp add: is_control_def backslash_def)
    ultimately show thesis using escaped [of backslash] by (simp add: quote_char_def)
  next
    case 3
    then have "quote_char c = [backslash, CHR ''n'']" by (simp add: quote_char_def quote_def backslash_def)
    with 3 show thesis using escaped [of "CHR ''n''"] by (simp add: is_control_def)
  next
    case 4
    then have "quote_char c = [backslash, CHR ''r'']" by (simp add: quote_char_def quote_def backslash_def)
    with 4 show thesis using escaped [of "CHR ''r''"] by (simp add: is_control_def)
  next
    case 5
    then have "quote_char c = [backslash, CHR ''t'']" by (simp add: quote_char_def quote_def backslash_def)
    with 5 show thesis using escaped [of "CHR ''t''"] by (simp add: is_control_def)
  qed
qed

text \<open>Reading back what was quoted.\<close>

lemma string_loop_quote:
  "string_loop out (concat (map quote_char s) @ quote # rest) =
     (if \<exists>c \<in> set s. is_control c then None else Some (out @ s, rest))"
proof (induction s arbitrary: out)
  case (Cons c s)
  show ?case
    by (cases c rule: quote_char_cases) (use Cons in auto)
qed simp

lemma parseString_quoteJson:
  "parseString (quoteJson s @ rest) = (if \<exists>c \<in> set s. is_control c then None else Some (s, rest))"
  using string_loop_quote [of "[]" s rest] by (simp add: parseString_def quoteJson_def)

end
