(* ===== verification/Numbers.thy ===== *)
theory Numbers
  imports Json
begin

text \<open>
  Numbers on the wire (\<open>parseUint32\<close>, \<open>parseDecimalToTicks\<close>, \<open>ticksToDecimal\<close> and \<open>std::to_string\<close> in
  \<open>venue/protocol.cpp\<close>): prices travel as decimals with at most two places and are kept as a 32-bit
  number of cents.
\<close>

section \<open>The code\<close>

definition digit_val :: "char \<Rightarrow> u64" where
  "digit_val c = of_nat (of_char c - 48)"

fun uint32_loop :: "u64 \<Rightarrow> string \<Rightarrow> u64 option" where
  "uint32_loop v [] = Some v"
| "uint32_loop v (c # cs) =
     (if \<not> is_digit c then None
      else let v = v * 10 + digit_val c in
           if 0xFFFFFFFF < v then None else uint32_loop v cs)"

definition parseUint32 :: "string \<Rightarrow> u32 option" where
  "parseUint32 raw =
     (if raw = [] then None
      else (case uint32_loop 0 raw of None \<Rightarrow> None | Some v \<Rightarrow> Some (ucast v)))"

definition kPriceScale :: u32 where
  "kPriceScale = 100"

text \<open>The accumulation of the whole part, whose characters are known to be digits here.\<close>

fun whole_loop :: "u64 \<Rightarrow> string \<Rightarrow> u64 option" where
  "whole_loop v [] = Some v"
| "whole_loop v (c # cs) =
     (let v = v * 10 + digit_val c in
      if 0xFFFFFFFF < v then None else whole_loop v cs)"

definition parseDecimalToTicks :: "string \<Rightarrow> u32 option" where
  "parseDecimalToTicks raw =
     (if raw = [] \<or> hd raw = CHR ''-'' then None
      else let intPart = takeWhile (\<lambda>c. c \<noteq> CHR ''.'') raw;
               fracPart = tl (dropWhile (\<lambda>c. c \<noteq> CHR ''.'') raw)
      in if intPart = [] \<or> 2 < length fracPart then None
      else let fracPart = fracPart @ replicate (2 - length fracPart) (CHR ''0'')
      in if \<not> list_all is_digit intPart then None
      else if \<not> list_all is_digit fracPart then None
      else (case whole_loop 0 intPart of
              None \<Rightarrow> None
            | Some whole \<Rightarrow>
                let frac = digit_val (fracPart ! 0) * 10 + digit_val (fracPart ! 1);
                    ticks = whole * ucast kPriceScale + frac
                in if 0xFFFFFFFF < ticks then None else Some (ucast ticks)))"

definition digit_char :: "nat \<Rightarrow> char" where
  "digit_char n = char_of (48 + n)"

text \<open>\<open>std::to_string\<close> and \<open>%u\<close> of an unsigned integer.\<close>

fun to_string :: "nat \<Rightarrow> string" where
  "to_string n = (if n < 10 then [digit_char n] else to_string (n div 10) @ [digit_char (n mod 10)])"

declare to_string.simps [simp del]

text \<open>\<open>%02u\<close>, \<open>%04d\<close> and their like: at least \<open>w\<close> digits, filled with zeros.\<close>

definition zero_padded :: "nat \<Rightarrow> nat \<Rightarrow> string" where
  "zero_padded w n = replicate (w - length (to_string n)) (CHR ''0'') @ to_string n"

definition ticksToDecimal :: "u32 \<Rightarrow> string" where
  "ticksToDecimal ticks =
     to_string (unat (ticks div kPriceScale)) @ CHR ''.'' # zero_padded 2 (unat (ticks mod kPriceScale))"

section \<open>What a string of digits stands for\<close>

definition digit_nat :: "char \<Rightarrow> nat" where
  "digit_nat c = of_char c - 48"

fun dec_value :: "nat \<Rightarrow> string \<Rightarrow> nat" where
  "dec_value n [] = n"
| "dec_value n (c # cs) = dec_value (n * 10 + digit_nat c) cs"

lemma dec_value_append [simp]: "dec_value n (xs @ ys) = dec_value (dec_value n xs) ys"
  by (induction n xs rule: dec_value.induct) auto

lemma dec_value_mono: "n \<le> dec_value n xs"
proof (induction n xs rule: dec_value.induct)
  case (2 n c cs)
  then show ?case by simp
qed simp

lemma is_digit_iff: "is_digit c \<longleftrightarrow> 48 \<le> (of_char c :: nat) \<and> (of_char c :: nat) \<le> 57"
  by (simp add: is_digit_def less_eq_char_def)

lemma digit_nat_less: "is_digit c \<Longrightarrow> digit_nat c < 10"
  by (auto simp: is_digit_iff digit_nat_def)

lemma of_char_digit [simp]: "n < 10 \<Longrightarrow> of_char (digit_char n) = 48 + n"
  by (simp add: digit_char_def of_char_of)

lemma digit_char_digit [simp]: "n < 10 \<Longrightarrow> is_digit (digit_char n)" "n < 10 \<Longrightarrow> digit_nat (digit_char n) = n"
  by (simp_all add: is_digit_iff digit_nat_def)

lemma to_string_digits: "list_all is_digit (to_string n)"
  by (induction n rule: to_string.induct) (subst to_string.simps, auto)

lemma to_string_value: "dec_value 0 (to_string n) = n"
  by (induction n rule: to_string.induct) (subst to_string.simps, auto)

lemma to_string_nonempty [simp]: "to_string n \<noteq> []"
  by (subst to_string.simps) auto

section \<open>The loops compute it\<close>

lemma digit_step:
  assumes "v \<le> 0xFFFFFFFF" and "is_digit c"
  shows "unat (v * 10 + digit_val c) = unat v * 10 + digit_nat c"
proof -
  have v: "unat v \<le> 4294967295" using assms(1) by (simp add: word_le_nat_alt)
  have d: "digit_nat c < 10" using assms(2) by (rule digit_nat_less)
  have dv: "unat (digit_val c) = digit_nat c"
    using d by (simp add: digit_val_def digit_nat_def unsigned_of_nat take_bit_nat_eq_self)
  have "unat (v * 10) = unat v * 10"
    using v by (subst unat_mult_lem [THEN iffD1]) simp_all
  then show ?thesis
    using v d dv by (subst unat_add_lem [THEN iffD1]) simp_all
qed

lemma exceeds_iff: "(0xFFFFFFFF :: u64) < v \<longleftrightarrow> 2 ^ 32 \<le> unat v"
  by (simp add: word_less_nat_alt Suc_le_eq [symmetric])

lemma uint32_loop_value:
  "v \<le> 0xFFFFFFFF \<Longrightarrow> uint32_loop v s =
     (if list_all is_digit s \<and> dec_value (unat v) s < 2 ^ 32 then Some (of_nat (dec_value (unat v) s)) else None)"
proof (induction v s rule: uint32_loop.induct)
  case (1 v)
  then show ?case by (simp add: word_le_nat_alt)
next
  case (2 v c cs)
  show ?case
  proof (cases "is_digit c")
    case True
    note step = digit_step [OF "2.prems" True]
    show ?thesis
    proof (cases "0xFFFFFFFF < v * 10 + digit_val c")
      case big: True
      then have "2 ^ 32 \<le> dec_value (unat v * 10 + digit_nat c) cs"
        using dec_value_mono [of "unat v * 10 + digit_nat c" cs] unfolding exceeds_iff step by simp
      with True big show ?thesis by simp
    next
      case False
      with "2.IH" [OF _ refl] True step show ?thesis by (auto simp: not_less Let_def)
    qed
  qed simp
qed

lemma whole_loop_value:
  "v \<le> 0xFFFFFFFF \<Longrightarrow> list_all is_digit s \<Longrightarrow> whole_loop v s =
     (if dec_value (unat v) s < 2 ^ 32 then Some (of_nat (dec_value (unat v) s)) else None)"
proof (induction v s rule: whole_loop.induct)
  case (1 v)
  then show ?case by (simp add: word_le_nat_alt)
next
  case (2 v c cs)
  then have step: "unat (v * 10 + digit_val c) = unat v * 10 + digit_nat c" by (intro digit_step) simp_all
  show ?case
  proof (cases "0xFFFFFFFF < v * 10 + digit_val c")
    case big: True
    then have "2 ^ 32 \<le> dec_value (unat v * 10 + digit_nat c) cs"
      using dec_value_mono [of "unat v * 10 + digit_nat c" cs] unfolding exceeds_iff step by simp
    with big show ?thesis by simp
  next
    case False
    with "2.IH" [OF refl] "2.prems" step show ?thesis by (auto simp: not_less Let_def)
  qed
qed

lemma parseUint32_value:
  "parseUint32 raw =
     (if raw \<noteq> [] \<and> list_all is_digit raw \<and> dec_value 0 raw < 2 ^ 32 then Some (of_nat (dec_value 0 raw)) else None)"
proof -
  have u: "ucast (of_nat n :: u64) = (of_nat n :: u32)" if "n < 2 ^ 32" for n
    using that by (simp add: word_unat_eq_iff unsigned_of_nat unsigned_ucast_eq take_bit_nat_eq_self)
  show ?thesis
    by (auto simp: parseUint32_def uint32_loop_value u)
qed

lemma length_2_split: "length xs = 2 \<Longrightarrow> \<exists>a b. xs = [a, b]"
  by (auto simp: numeral_2_eq_2 length_Suc_conv)

text \<open>
  The number of cents a price text stands for: a whole part and at most two decimal places, which
  may also be missing together with the point.
\<close>

definition price_value :: "string \<Rightarrow> nat option" where
  "price_value raw =
     (let ints = takeWhile (\<lambda>c. c \<noteq> CHR ''.'') raw; frac = tl (dropWhile (\<lambda>c. c \<noteq> CHR ''.'') raw) in
      if ints \<noteq> [] \<and> list_all is_digit ints \<and> list_all is_digit frac \<and> length frac \<le> 2
      then Some (dec_value 0 (ints @ frac @ replicate (2 - length frac) (CHR ''0'')))
      else None)"

lemma ucast_small: "unat (x :: u64) < 2 ^ 32 \<Longrightarrow> (ucast x :: u32) = of_nat (unat x)"
  by (simp add: word_unat_eq_iff unsigned_ucast_eq unsigned_of_nat take_bit_nat_eq_self)

lemma digit_val_unat: "is_digit c \<Longrightarrow> unat (digit_val c) = digit_nat c"
  using digit_nat_less [of c] by (simp add: digit_val_def digit_nat_def unsigned_of_nat take_bit_nat_eq_self)

lemma zero_digit [simp]: "is_digit (CHR ''0'')" "digit_nat (CHR ''0'') = 0"
  by (simp_all add: is_digit_def digit_nat_def)

lemma scaled_ticks:
  assumes "w < 2 ^ 32" and "is_digit a" and "is_digit b"
  shows "unat ((of_nat w :: u64) * ucast kPriceScale + (digit_val a * 10 + digit_val b)) =
    w * 100 + (digit_nat a * 10 + digit_nat b)"
proof -
  have a: "unat (digit_val a) = digit_nat a" "digit_nat a < 10" and b: "unat (digit_val b) = digit_nat b" "digit_nat b < 10"
    using assms(2,3) digit_val_unat digit_nat_less by blast+
  have s: "unat (ucast kPriceScale :: u64) = 100" by (simp add: kPriceScale_def)
  have w: "unat (of_nat w :: u64) = w"
    using assms(1) by (simp add: unsigned_of_nat take_bit_nat_eq_self)
  have "unat ((of_nat w :: u64) * ucast kPriceScale) = w * 100"
    using assms(1) w s by (subst unat_mult_lem [THEN iffD1]) simp_all
  moreover have "unat (digit_val a * 10) = digit_nat a * 10"
    using a by (subst unat_mult_lem [THEN iffD1]) simp_all
  moreover from this have "unat (digit_val a * 10 + digit_val b) = digit_nat a * 10 + digit_nat b"
    using a b by (subst unat_add_lem [THEN iffD1]) simp_all
  ultimately show ?thesis
    using assms(1) a b by (subst unat_add_lem [THEN iffD1]) simp_all
qed

lemma parseDecimalToTicks_value:
  "parseDecimalToTicks raw =
     (case price_value raw of None \<Rightarrow> None | Some n \<Rightarrow> if n < 2 ^ 32 then Some (of_nat n) else None)"
proof -
  let ?ints = "takeWhile (\<lambda>c. c \<noteq> CHR ''.'') raw" and ?frac = "tl (dropWhile (\<lambda>c. c \<noteq> CHR ''.'') raw)"
  let ?frac2 = "?frac @ replicate (2 - length ?frac) (CHR ''0'')"
  let ?ok = "?ints \<noteq> [] \<and> list_all is_digit ?ints \<and> list_all is_digit ?frac \<and> length ?frac \<le> 2"
  have sign: "\<not> ?ok" if "raw = [] \<or> hd raw = CHR ''-''"
    using that by (cases raw) (auto simp: is_digit_def)
  have pad: "list_all is_digit ?frac2 \<longleftrightarrow> list_all is_digit ?frac" by (auto simp: list_all_iff)
  show ?thesis
  proof (cases ?ok)
    case False
    then have "price_value raw = None" by (auto simp: price_value_def Let_def)
    moreover have "parseDecimalToTicks raw = None"
      using False unfolding parseDecimalToTicks_def Let_def pad by (auto split: option.splits)
    ultimately show ?thesis by simp
  next
    case True
    with sign have head: "\<not> (raw = [] \<or> hd raw = CHR ''-'')" by blast
    have "length ?frac2 = 2" using True by simp
    from length_2_split [OF this] obtain a b where ab: "?frac2 = [a, b]" by blast
    have d: "is_digit a" "is_digit b" using True pad unfolding ab by simp_all
    let ?w = "dec_value 0 ?ints"
    have nth2: "[a, b] ! 0 = a" "[a, b] ! 1 = b" by simp_all
    have val: "price_value raw = Some (?w * 100 + (digit_nat a * 10 + digit_nat b))"
      using True ab by (simp add: price_value_def Let_def)
    have "parseDecimalToTicks raw = (case whole_loop 0 ?ints of
        None \<Rightarrow> None
      | Some whole \<Rightarrow> let ticks = whole * ucast kPriceScale + (digit_val a * 10 + digit_val b)
          in if 0xFFFFFFFF < ticks then None else Some (ucast ticks))"
      using True head d unfolding parseDecimalToTicks_def Let_def ab nth2 by simp
    also have "\<dots> = (if ?w * 100 + (digit_nat a * 10 + digit_nat b) < 2 ^ 32
        then Some (of_nat (?w * 100 + (digit_nat a * 10 + digit_nat b))) else None)"
    proof (cases "?w < 2 ^ 32")
      case small: True
      let ?t = "(of_nat ?w :: u64) * ucast kPriceScale + (digit_val a * 10 + digit_val b)"
      note t = scaled_ticks [OF small d]
      have "ucast ?t = (of_nat (?w * 100 + (digit_nat a * 10 + digit_nat b)) :: u32)"
        if "?w * 100 + (digit_nat a * 10 + digit_nat b) < 2 ^ 32"
        using ucast_small [of ?t] that unfolding t by simp
      then show ?thesis
        using True small t exceeds_iff [of ?t] by (auto simp: whole_loop_value Let_def not_less)
    next
      case False
      then show ?thesis using True by (auto simp: whole_loop_value)
    qed
    finally show ?thesis unfolding val by simp
  qed
qed

section \<open>Printing and reading back\<close>

lemma digit_not_dot: "is_digit c \<Longrightarrow> c \<noteq> CHR ''.''"
  by (auto simp: is_digit_def)

lemma takeWhile_digits:
  assumes "list_all is_digit ds"
  shows "takeWhile (\<lambda>c. c \<noteq> CHR ''.'') (ds @ CHR ''.'' # rest) = ds"
    and "dropWhile (\<lambda>c. c \<noteq> CHR ''.'') (ds @ CHR ''.'' # rest) = CHR ''.'' # rest"
  using assms by (induction ds) (auto simp: digit_not_dot)

lemma digit_char_0: "digit_char 0 = CHR ''0''"
  by code_simp

lemma zero_padded_2: "n < 100 \<Longrightarrow> zero_padded 2 n = [digit_char (n div 10), digit_char (n mod 10)]"
  by (cases "n < 10") (simp_all add: zero_padded_def to_string.simps [of n] to_string.simps [of "n div 10"] digit_char_0)

lemma zero_padded_digits: "list_all is_digit (zero_padded w n)"
proof -
  have "list_all is_digit (replicate k (CHR ''0''))" for k by (simp add: list_all_iff)
  then show ?thesis by (simp add: zero_padded_def to_string_digits)
qed

lemma to_string_length: "n < 10 ^ w \<Longrightarrow> 0 < w \<Longrightarrow> length (to_string n) \<le> w"
proof (induction n arbitrary: w rule: to_string.induct)
  case (1 n)
  show ?case
  proof (cases "n < 10")
    case True
    with "1.prems" show ?thesis by (subst to_string.simps) simp
  next
    case False
    then have "1 < w" using "1.prems" by (cases "w = 1") auto
    moreover have "n div 10 < 10 ^ (w - 1)"
      using "1.prems" by (cases w) (auto simp: less_mult_imp_div_less mult.commute)
    ultimately have "length (to_string (n div 10)) \<le> w - 1" using False by (intro "1.IH") auto
    with False \<open>1 < w\<close> show ?thesis by (subst to_string.simps) simp
  qed
qed

lemma dec_value_zeros: "dec_value 0 (replicate k (CHR ''0'') @ s) = dec_value 0 s"
  by (induction k) auto

lemma zero_padded_value: "dec_value 0 (zero_padded w n) = n"
  unfolding zero_padded_def dec_value_zeros by (rule to_string_value)

lemma zero_padded_length: "n < 10 ^ w \<Longrightarrow> 0 < w \<Longrightarrow> length (zero_padded w n) = w"
  using to_string_length [of n w] by (simp add: zero_padded_def)

lemma ticks_div_mod:
  "unat (t div kPriceScale) * 100 + unat (t mod kPriceScale) = unat t" "unat (t mod kPriceScale) < 100"
  by (simp_all add: kPriceScale_def unat_div unat_mod)

lemma price_value_ticks: "price_value (ticksToDecimal t) = Some (unat t)"
proof -
  let ?w = "unat (t div kPriceScale)" and ?f = "unat (t mod kPriceScale)"
  have "dec_value 0 (to_string ?w @ zero_padded 2 ?f) = ?w * 100 + ?f"
    using ticks_div_mod(2) [of t] by (simp add: to_string_value zero_padded_2)
  then show ?thesis
    using ticks_div_mod [of t]
    by (simp add: price_value_def ticksToDecimal_def takeWhile_digits [OF to_string_digits] Let_def
        to_string_digits zero_padded_digits zero_padded_2)
qed

lemma parseUint32_run:
  "parseUint32 raw = Some v \<longleftrightarrow>
     raw \<noteq> [] \<and> list_all is_digit raw \<and> dec_value 0 raw < 2 ^ 32 \<and> unat v = dec_value 0 raw"
  by (auto simp: parseUint32_value unsigned_of_nat take_bit_nat_eq_self word_unat_eq_iff split: if_splits)

lemma parseDecimalToTicks_run: "parseDecimalToTicks raw = Some t \<longleftrightarrow> price_value raw = Some (unat t)"
proof -
  have "unat t < 2 ^ 32" using unsigned_less [of t] by simp
  then show ?thesis
    by (auto simp: parseDecimalToTicks_value unsigned_of_nat take_bit_nat_eq_self word_unat_eq_iff
        split: option.splits if_splits)
qed

section \<open>The properties of the numbers\<close>

text \<open>C28: \<open>parseUint32\<close> accepts exactly the nonempty strings of decimal digits whose value fits 32 bits, and
  returns that value; in particular nothing wraps around on the way, and signs and points are refused.\<close>

theorem parseUint32_correct:
  "parseUint32 raw = Some v \<longleftrightarrow>
     raw \<noteq> [] \<and> list_all is_digit raw \<and> dec_value 0 raw < 2 ^ 32 \<and> unat v = dec_value 0 raw"
  by (rule parseUint32_run)

text \<open>Quantities survive the wire: reading back what \<open>std::to_string\<close> prints gives the number.\<close>

lemma uint32_round_trip: "parseUint32 (to_string (unat (v :: u32))) = Some v"
proof -
  have "unat v < 2 ^ 32" using unsigned_less [of v] by simp
  then show ?thesis by (simp add: parseUint32_value to_string_digits to_string_value)
qed

text \<open>C19: \<open>parseDecimalToTicks\<close> is exact: it accepts a text if and only if it is a whole part of digits with
  at most two decimal places whose value in cents fits 32 bits, and returns that value. A sign, a
  third decimal place, an empty whole part and a price that would overflow are refused.\<close>

theorem parseDecimalToTicks_correct:
  "parseDecimalToTicks raw = Some t \<longleftrightarrow> price_value raw = Some (unat t)"
  by (rule parseDecimalToTicks_run)

text \<open>C27: Prices survive the wire: every 32-bit price is printed with two decimal places and reads back as
  itself.\<close>

theorem ticks_round_trip: "parseDecimalToTicks (ticksToDecimal t) = Some t"
proof -
  have "unat t < 2 ^ 32" using unsigned_less [of t] by simp
  then show ?thesis by (simp add: parseDecimalToTicks_value price_value_ticks)
qed

end
