(* ===== verification/JsonGrammar.thy ===== *)
theory JsonGrammar
  imports Json
begin

text \<open>
  The language of flat JSON objects that \<open>venue/protocol.cpp\<close> reads, as a grammar without any parser in
  it, and the theorem that \<open>parseFlatObject\<close> accepts exactly this language and gives each key its last
  value. A second group of lemmas is about texts that are printed member by member.
\<close>

section \<open>The grammar\<close>

definition json_string :: "string \<Rightarrow> JsonValue" where
  "json_string s = \<lparr>jv_isString = True, jv_str = s, jv_numRaw = []\<rparr>"

definition json_number :: "string \<Rightarrow> JsonValue" where
  "json_number raw = \<lparr>jv_isString = False, jv_str = [], jv_numRaw = raw\<rparr>"

definition blank :: "string \<Rightarrow> bool" where
  "blank w \<longleftrightarrow> list_all is_ws w"

text \<open>The text between the quotes of a string, and the string it stands for.\<close>

inductive string_body :: "string \<Rightarrow> string \<Rightarrow> bool" where
  empty: "string_body [] []"
| plain: "c \<noteq> quote \<Longrightarrow> c \<noteq> backslash \<Longrightarrow> string_body t s \<Longrightarrow> string_body (c # t) (c # s)"
| escaped: "unescape e = Some x \<Longrightarrow> string_body t s \<Longrightarrow> string_body (backslash # e # t) (x # s)"

definition string_form :: "string \<Rightarrow> string \<Rightarrow> bool" where
  "string_form tx s \<longleftrightarrow> (\<exists>b. tx = quote # b @ [quote] \<and> string_body b s)"

text \<open>An optional minus sign, digits, and optionally a point with digits behind it.\<close>

definition number_token :: "string \<Rightarrow> bool" where
  "number_token raw \<longleftrightarrow> (\<exists>sign ints frac. raw = sign @ ints @ frac \<and> sign \<in> {[], ''-''} \<and>
     ints \<noteq> [] \<and> list_all is_digit ints \<and>
     (frac = [] \<or> (\<exists>ds. frac = CHR ''.'' # ds \<and> ds \<noteq> [] \<and> list_all is_digit ds)))"

definition value_form :: "string \<Rightarrow> JsonValue \<Rightarrow> bool" where
  "value_form tx v \<longleftrightarrow> (\<exists>s. string_form tx s \<and> v = json_string s) \<or> number_token tx \<and> v = json_number tx"

definition member_form :: "string \<Rightarrow> string \<Rightarrow> JsonValue \<Rightarrow> bool" where
  "member_form tx k v \<longleftrightarrow> (\<exists>w1 kt w2 w3 vt w4. tx = w1 @ kt @ w2 @ '':'' @ w3 @ vt @ w4 \<and>
     blank w1 \<and> string_form kt k \<and> blank w2 \<and> blank w3 \<and> value_form vt v \<and> blank w4)"

inductive members_form :: "string \<Rightarrow> (string \<times> JsonValue) list \<Rightarrow> bool" where
  one: "member_form t k v \<Longrightarrow> members_form t [(k, v)]"
| more: "member_form t k v \<Longrightarrow> members_form ts kvs \<Longrightarrow> members_form (t @ '','' @ ts) ((k, v) # kvs)"

definition object_form :: "string \<Rightarrow> (string \<times> JsonValue) list \<Rightarrow> bool" where
  "object_form line kvs \<longleftrightarrow> (\<exists>w1 body w2. line = w1 @ ''{'' @ body @ ''}'' @ w2 \<and> blank w1 \<and> blank w2 \<and>
     (blank body \<and> kvs = [] \<or> members_form body kvs))"

text \<open>The map that the members make, each key with its last value.\<close>

definition assign_all :: "(string, JsonValue) umap \<Rightarrow> (string \<times> JsonValue) list \<Rightarrow> (string, JsonValue) umap" where
  "assign_all m kvs = foldl (\<lambda>m (k, v). um_assign m k v) m kvs"

inductive_cases string_body_NilE: "string_body [] s"
inductive_cases members_formE: "members_form t kvs"

lemma assign_all_simps [simp]: "assign_all m [] = m" "assign_all m ((k, v) # kvs) = assign_all (um_assign m k v) kvs"
  by (simp_all add: assign_all_def)

lemma assign_all_ok: "um_ok m \<Longrightarrow> um_ok (assign_all m kvs) \<and>
    um_find (assign_all m kvs) k = (case map_of (rev kvs) k of None \<Rightarrow> um_find m k | Some v \<Rightarrow> Some v)"
proof (induction kvs arbitrary: m)
  case (Cons kv kvs)
  then show ?case
    by (cases kv) (auto simp: um_simps map_add_def split: option.split)
qed simp

lemma assign_all_find: "um_find (assign_all [] kvs) k = map_of (rev kvs) k"
  using assign_all_ok [of "[]" kvs k] by (simp split: option.split)

lemma assign_all_distinct:
  "distinct (map fst m @ map fst kvs) \<Longrightarrow> assign_all m kvs = m @ kvs"
proof (induction kvs arbitrary: m)
  case (Cons kv kvs)
  obtain k v where kv: "kv = (k, v)" by (cases kv)
  have "k \<notin> fst ` set m" using Cons.prems kv by auto
  then have "AList.update k v m = m @ [(k, v)]" by (induction m) auto
  with Cons kv show ?case by (simp add: um_assign_def)
qed simp

section \<open>Every text of the grammar is read\<close>

lemma quote_not_ws [simp]: "\<not> is_ws quote" "\<not> is_ws (CHR '':'')" "\<not> is_ws (CHR '','')" "\<not> is_ws (CHR ''}'')" "\<not> is_ws (CHR ''{'')"
  by (simp_all add: is_ws_def quote_def)

lemma digit_not_ws: "is_digit c \<Longrightarrow> \<not> is_ws c \<and> c \<noteq> quote \<and> c \<noteq> CHR ''-'' \<and> c \<noteq> CHR ''.''"
  by (auto simp: is_ws_def is_digit_def quote_def)

text \<open>What may follow a value.\<close>

definition stops :: "string \<Rightarrow> bool" where
  "stops rest \<longleftrightarrow> rest \<noteq> [] \<longrightarrow> is_ws (hd rest) \<or> hd rest \<in> {CHR '','', CHR ''}''}"

lemma stops_digit: "stops rest \<Longrightarrow> rest \<noteq> [] \<Longrightarrow> \<not> is_digit (hd rest) \<and> hd rest \<noteq> CHR ''.''"
  by (auto simp: stops_def is_digit_def is_ws_def)

lemma stops_simps [simp]: "stops []" "stops (CHR '','' # s)" "stops (CHR ''}'' # s)"
  by (simp_all add: stops_def)

lemma stops_blank: "blank w \<Longrightarrow> stops rest \<Longrightarrow> stops (w @ rest)"
  by (cases w) (auto simp: stops_def blank_def)

lemma skipWs_app: "blank w \<Longrightarrow> skipWs (w @ s) = skipWs s"
  unfolding skipWs_def blank_def by (induction w) auto

lemma skipWs_id: "s \<noteq> [] \<Longrightarrow> \<not> is_ws (hd s) \<Longrightarrow> skipWs s = s"
  unfolding skipWs_def by (cases s) auto

lemma skipWs_split: "\<exists>w. blank w \<and> s = w @ skipWs s"
  unfolding skipWs_def blank_def
  by (rule exI [of _ "takeWhile is_ws s"]) (auto simp: list_all_iff dest: set_takeWhileD)

lemma skipWs_blank: "skipWs s = [] \<longleftrightarrow> blank s"
  by (simp add: skipWs_def blank_def list_all_iff dropWhile_eq_Nil_conv)

lemma string_body_loop: "string_body b s \<Longrightarrow> string_loop out (b @ quote # rest) = Some (out @ s, rest)"
  by (induction arbitrary: out rule: string_body.induct) simp_all

lemma string_form_parse: "string_form tx s \<Longrightarrow> parseString (tx @ rest) = Some (s, rest)"
  by (auto simp: string_form_def parseString_def string_body_loop)

lemma takeWhile_stop:
  "list_all P ds \<Longrightarrow> rest = [] \<or> \<not> P (hd rest) \<Longrightarrow> takeWhile P (ds @ rest) = ds \<and> dropWhile P (ds @ rest) = rest"
  by (induction ds) (cases rest; auto)+

lemma number_token_parse:
  assumes "number_token raw" and "stops rest"
  shows "parseNumber (raw @ rest) = Some (raw, rest)"
proof -
  obtain sign ints frac where raw: "raw = sign @ ints @ frac" "sign \<in> {[], ''-''}" and ints: "ints \<noteq> []" "list_all is_digit ints"
    and frac: "frac = [] \<or> (\<exists>ds. frac = CHR ''.'' # ds \<and> ds \<noteq> [] \<and> list_all is_digit ds)"
    using assms(1) unfolding number_token_def by blast
  have dot: "\<not> is_digit (CHR ''.'')" by (simp add: is_digit_def)
  have rest: "rest = [] \<or> \<not> is_digit (hd rest)" using stops_digit [OF assms(2)] by blast
  have "frac @ rest = [] \<or> \<not> is_digit (hd (frac @ rest))"
    using frac dot rest by auto
  note t = takeWhile_stop [OF ints(2) this]
  have head: "hd (ints @ frac @ rest) \<noteq> CHR ''-''" using ints digit_not_ws by (cases ints) auto
  have sign: "(if raw @ rest \<noteq> [] \<and> hd (raw @ rest) = CHR ''-'' then [CHR ''-''] else []) = sign"
    using raw(2) head by (auto simp: raw(1))
  show ?thesis
  proof (cases "frac = []")
    case True
    have "rest = [] \<or> hd rest \<noteq> CHR ''.''" using stops_digit [OF assms(2)] by blast
    with True t ints show ?thesis
      unfolding parseNumber_def Let_def sign by (simp add: raw(1))
  next
    case False
    then obtain ds where ds: "frac = CHR ''.'' # ds" "ds \<noteq> []" "list_all is_digit ds" using frac by blast
    from takeWhile_stop [OF ds(3) rest] t ints ds(1,2) show ?thesis
      unfolding parseNumber_def Let_def sign by (simp add: raw(1))
  qed
qed

lemma number_token_head: "number_token raw \<Longrightarrow> raw \<noteq> [] \<and> hd raw \<noteq> quote \<and> \<not> is_ws (hd raw)"
proof -
  assume "number_token raw"
  then obtain sign ints frac where "raw = sign @ ints @ frac" "sign \<in> {[], ''-''}" "ints \<noteq> []" "list_all is_digit ints"
    unfolding number_token_def by blast
  then obtain d ds where "raw = sign @ d # ds" "sign \<in> {[], ''-''}" "is_digit d" by (cases ints) auto
  with digit_not_ws [of d] show ?thesis by (auto simp: is_ws_def quote_def)
qed

lemma value_form_parse:
  assumes "value_form tx v"
  shows "tx \<noteq> []" and "\<not> is_ws (hd tx)" and "stops rest \<Longrightarrow> parse_value (tx @ rest) = Some (v, rest)"
proof -
  consider (str) s where "string_form tx s" "v = json_string s" | (num) "number_token tx" "v = json_number tx"
    using assms by (auto simp: value_form_def)
  then have "tx \<noteq> [] \<and> \<not> is_ws (hd tx) \<and> (stops rest \<longrightarrow> parse_value (tx @ rest) = Some (v, rest))"
  proof cases
    case str
    then have "tx \<noteq> []" "hd tx = quote" by (auto simp: string_form_def)
    with string_form_parse [OF str(1)] str(2) show ?thesis by (simp add: parse_value_def json_string_def)
  next
    case num
    with number_token_head [OF num(1)] number_token_parse [OF num(1)] show ?thesis
      by (simp add: parse_value_def json_number_def)
  qed
  then show "tx \<noteq> []" "\<not> is_ws (hd tx)" "stops rest \<Longrightarrow> parse_value (tx @ rest) = Some (v, rest)" by simp_all
qed

lemma member_key:
  assumes "blank w1" and "string_form kt k" and "blank w2" and "blank w3" and "vt \<noteq> []" and "\<not> is_ws (hd vt)"
  shows "parse_member (w1 @ kt @ w2 @ '':'' @ w3 @ vt) =
    (case parse_value vt of None \<Rightarrow> None | Some (v, s) \<Rightarrow> Some (k, v, skipWs s))"
proof -
  have "kt \<noteq> []" "hd kt = quote" using assms(2) by (auto simp: string_form_def)
  then have "skipWs (w1 @ kt @ w2 @ '':'' @ w3 @ vt) = kt @ w2 @ '':'' @ w3 @ vt"
    by (simp add: skipWs_app [OF assms(1)] skipWs_id)
  moreover have "skipWs (w2 @ CHR '':'' # w3 @ vt) = CHR '':'' # w3 @ vt"
    by (simp add: skipWs_app [OF assms(3)] skipWs_id)
  moreover have "skipWs (w3 @ vt) = vt" using assms(5,6) by (simp add: skipWs_app [OF assms(4)] skipWs_id)
  ultimately show ?thesis
    using string_form_parse [OF assms(2)] assms(5) by (simp add: parse_member_def)
qed

lemma member_form_parse:
  assumes "member_form tx k v" and "c \<in> {CHR '','', CHR ''}''}"
  shows "parse_member (tx @ c # rest) = Some (k, v, c # rest)"
proof -
  obtain w1 kt w2 w3 vt w4 where tx: "tx = w1 @ kt @ w2 @ '':'' @ w3 @ vt @ w4" and w: "blank w1" "string_form kt k" "blank w2" "blank w3"
    and vt: "value_form vt v" and w4: "blank w4"
    using assms(1) unfolding member_form_def by blast
  note f = value_form_parse [OF vt]
  have "stops (w4 @ c # rest)" "skipWs (w4 @ c # rest) = c # rest"
    using assms(2) by (auto intro!: stops_blank [OF w4] simp: skipWs_app [OF w4] skipWs_id)
  with f(1,2) f(3) [of "w4 @ c # rest"] member_key [OF w, of "vt @ w4 @ c # rest"] show ?thesis
    by (simp add: tx)
qed

lemma members_form_loop:
  "members_form body kvs \<Longrightarrow> members_loop out (body @ CHR ''}'' # rest) = Some (assign_all out kvs, rest)"
proof (induction arbitrary: out rule: members_form.induct)
  case (one t k v)
  then show ?case by (subst members_loop.simps) (simp add: member_form_parse)
next
  case (more t k v ts kvs)
  then show ?case by (subst members_loop.simps) (simp add: member_form_parse)
qed

lemma members_form_head: "members_form body kvs \<Longrightarrow> skipWs (body @ rest) \<noteq> [] \<and> hd (skipWs (body @ rest)) = quote"
proof -
  have m: "skipWs (t @ u) \<noteq> [] \<and> hd (skipWs (t @ u)) = quote" if m: "member_form t k v" for t k v u
  proof -
    from m obtain w1 kt w2 w3 vt w4 where "t = w1 @ kt @ w2 @ '':'' @ w3 @ vt @ w4" "blank w1" "string_form kt k"
      unfolding member_form_def by (elim exE conjE) metis
    then obtain u1 where t: "t = w1 @ quote # u1" "blank w1" by (auto simp: string_form_def)
    show ?thesis by (simp add: t skipWs_app skipWs_id)
  qed
  assume "members_form body kvs"
  then show ?thesis by cases (use m in auto)
qed

lemma parse_member_skip: "parse_member (skipWs s) = parse_member s"
  by (simp add: parse_member_def skipWs_def dropWhile_idem)

lemma members_loop_skip: "members_loop out (skipWs s) = members_loop out s"
  by (subst (1 2) members_loop.simps) (simp add: parse_member_skip)

lemma object_form_parse:
  assumes "object_form line kvs"
  shows "parseFlatObject line = Some (assign_all [] kvs)"
proof -
  obtain w1 body w2 where line: "line = w1 @ ''{'' @ body @ ''}'' @ w2" and w: "blank w1" "blank w2"
    and body: "blank body \<and> kvs = [] \<or> members_form body kvs"
    using assms unfolding object_form_def by blast
  have s: "skipWs line = CHR ''{'' # body @ CHR ''}'' # w2" by (simp add: line skipWs_app [OF w(1)] skipWs_id)
  have w2: "skipWs w2 = []" using w(2) by (simp add: skipWs_blank)
  from body show ?thesis
  proof (elim disjE conjE)
    assume "blank body" "kvs = []"
    then have "skipWs (body @ CHR ''}'' # w2) = CHR ''}'' # w2" by (simp add: skipWs_app skipWs_id)
    with s w2 \<open>kvs = []\<close> show ?thesis by (simp add: parseFlatObject_def)
  next
    assume m: "members_form body kvs"
    have "hd (skipWs (body @ CHR ''}'' # w2)) \<noteq> CHR ''}''"
      using members_form_head [OF m, of "CHR ''}'' # w2"] by (simp add: quote_def)
    with s w2 members_form_loop [OF m, of "[]" w2] show ?thesis
      by (simp add: parseFlatObject_def Let_def members_loop_skip)
  qed
qed

section \<open>Nothing else is read\<close>

lemma string_loop_body:
  "string_loop out t = Some (o', r) \<Longrightarrow> \<exists>b s. t = b @ quote # r \<and> string_body b s \<and> o' = out @ s"
proof (induction out t rule: string_loop.induct)
  case (2 out c t)
  consider "c = quote" | "c = backslash" | "c \<noteq> quote" "c \<noteq> backslash" by blast
  then show ?case
  proof cases
    case 1
    with "2.prems" show ?thesis by (auto intro: exI [of _ "[]"] string_body.empty)
  next
    case 2
    with "2.prems" obtain e t' x where e: "t = e # t'" "unescape e = Some x" "string_loop (out @ [x]) t' = Some (o', r)"
      by (auto split: list.splits option.splits)
    with "2.IH"(1) 2 obtain b s where "t' = b @ quote # r" "string_body b s" "o' = (out @ [x]) @ s" by fastforce
    with e 2 show ?thesis
      by (intro exI [of _ "backslash # e # b"] exI [of _ "x # s"]) (simp add: string_body.escaped)
  next
    case 3
    with 2 obtain b s where "t = b @ quote # r" "string_body b s" "o' = (out @ [c]) @ s" by auto
    with 3 show ?thesis by (intro exI [of _ "c # b"] exI [of _ "c # s"]) (simp add: string_body.plain)
  qed
qed simp

lemma parseString_form:
  assumes "parseString t = Some (s, r)"
  obtains kt where "t = kt @ r" and "string_form kt s"
proof -
  obtain t' where t: "t = quote # t'" "string_loop [] t' = Some (s, r)"
    using assms by (auto simp: parseString_def split: list.splits if_splits)
  then obtain b where "t' = b @ quote # r" "string_body b s" using string_loop_body by fastforce
  with t(1) show thesis by (intro that [of "quote # b @ [quote]"]) (auto simp: string_form_def)
qed

lemma all_takeWhile: "list_all P (takeWhile P xs)"
  by (auto simp: list_all_iff dest: set_takeWhileD)

lemma parseNumber_form:
  assumes "parseNumber t = Some (raw, r)"
  shows "t = raw @ r" and "number_token raw"
proof -
  define sign where "sign = (if t \<noteq> [] \<and> hd t = CHR ''-'' then [CHR ''-''] else [])"
  define u where "u = drop (length sign) t"
  have t: "t = sign @ u" and sign: "sign \<in> {[], ''-''}" by (cases t; auto simp: sign_def u_def)+
  let ?ints = "takeWhile is_digit u" and ?s2 = "dropWhile is_digit u"
  have p: "parseNumber t = (if ?ints = [] then None
      else if ?s2 \<noteq> [] \<and> hd ?s2 = CHR ''.''
      then let frac = takeWhile is_digit (tl ?s2)
           in if frac = [] then None else Some (sign @ ?ints @ CHR ''.'' # frac, dropWhile is_digit (tl ?s2))
      else Some (sign @ ?ints, ?s2))"
    by (simp only: parseNumber_def sign_def u_def Let_def)
  have ints: "?ints \<noteq> []" using assms p by (auto split: if_splits)
  have "t = raw @ r \<and> number_token raw"
  proof (cases "?s2 \<noteq> [] \<and> hd ?s2 = CHR ''.''")
    case True
    then have s2: "?s2 = CHR ''.'' # tl ?s2" by (cases ?s2) auto
    let ?frac = "takeWhile is_digit (tl ?s2)"
    have f: "?frac \<noteq> []" "raw = sign @ ?ints @ CHR ''.'' # ?frac" "r = dropWhile is_digit (tl ?s2)"
      using assms p ints True by (auto simp: Let_def split: if_splits)
    have "u = ?ints @ CHR ''.'' # ?frac @ r" unfolding f(3) by (metis s2 takeWhile_dropWhile_id append_Cons)
    moreover have "number_token raw"
      unfolding number_token_def f(2)
      by (intro exI [of _ sign] exI [of _ ?ints] exI [of _ "CHR ''.'' # ?frac"]) (use sign ints f(1) all_takeWhile in auto)
    ultimately show ?thesis by (simp add: t f(2))
  next
    case False
    then have f: "raw = sign @ ?ints" "r = ?s2" using assms p ints by (auto split: if_splits)
    moreover have "number_token raw"
      unfolding number_token_def f(1)
      by (intro exI [of _ sign] exI [of _ ?ints] exI [of _ "[]"]) (use sign ints all_takeWhile in auto)
    ultimately show ?thesis by (simp add: t)
  qed
  then show "t = raw @ r" "number_token raw" by simp_all
qed

lemma parse_value_form:
  assumes "parse_value t = Some (v, r)"
  obtains vt where "t = vt @ r" and "value_form vt v"
proof (cases "t \<noteq> [] \<and> hd t = quote")
  case True
  with assms obtain s where "parseString t = Some (s, r)" "v = json_string s"
    by (auto simp: parse_value_def json_string_def split: option.splits)
  with parseString_form that show thesis unfolding value_form_def by metis
next
  case False
  with assms obtain raw where "parseNumber t = Some (raw, r)" "v = json_number raw"
    by (auto simp: parse_value_def json_number_def split: option.splits if_splits)
  with parseNumber_form that show thesis unfolding value_form_def by metis
qed

lemma parse_member_form:
  assumes "parse_member t = Some (k, v, r)"
  obtains tx where "t = tx @ r" and "member_form tx k v"
proof -
  obtain s1 s2 where s1: "parseString (skipWs t) = Some (k, s1)" and colon: "skipWs s1 \<noteq> []" "hd (skipWs s1) = CHR '':''"
    and v: "parse_value (skipWs (tl (skipWs s1))) = Some (v, s2)" and r: "r = skipWs s2"
    using assms by (auto simp: parse_member_def Let_def split: option.splits if_splits)
  obtain kt where kt: "skipWs t = kt @ s1" "string_form kt k" by (rule parseString_form [OF s1])
  obtain vt where vt: "skipWs (tl (skipWs s1)) = vt @ s2" "value_form vt v" by (rule parse_value_form [OF v])
  obtain w1 w2 w3 w4 where w: "blank w1" "t = w1 @ skipWs t" "blank w2" "s1 = w2 @ skipWs s1"
    "blank w3" "tl (skipWs s1) = w3 @ skipWs (tl (skipWs s1))" "blank w4" "s2 = w4 @ skipWs s2"
    using skipWs_split [of t] skipWs_split [of s1] skipWs_split [of "tl (skipWs s1)"] skipWs_split [of s2] by blast
  have "skipWs s1 = '':'' @ w3 @ vt @ w4 @ r" using colon w(6,8) vt(1) r by (cases "skipWs s1") simp_all
  then have "t = w1 @ kt @ w2 @ '':'' @ w3 @ vt @ w4 @ r" using w(2,4) kt(1) by (metis append_assoc)
  then have "t = (w1 @ kt @ w2 @ '':'' @ w3 @ vt @ w4) @ r" by simp
  moreover have "member_form (w1 @ kt @ w2 @ '':'' @ w3 @ vt @ w4) k v"
    unfolding member_form_def using w(1,3,5,7) kt(2) vt(2) by blast
  ultimately show thesis by (rule that)
qed

lemma members_loop_form:
  "members_loop out t = Some (o', r) \<Longrightarrow> \<exists>body kvs. t = body @ CHR ''}'' # r \<and> members_form body kvs \<and> o' = assign_all out kvs"
proof (induction out t rule: members_loop.induct)
  case (1 out t)
  obtain k v s where m: "parse_member t = Some (k, v, s)" and ne: "s \<noteq> []"
    and next': "hd s = CHR '','' \<and> members_loop (um_assign out k v) (tl s) = Some (o', r) \<or>
      hd s \<noteq> CHR '','' \<and> hd s = CHR ''}'' \<and> o' = um_assign out k v \<and> r = tl s"
    using "1.prems" by (subst (asm) members_loop.simps) (auto simp: Let_def split: option.splits if_splits)
  obtain tx where tx: "t = tx @ s" "member_form tx k v" by (rule parse_member_form [OF m])
  from next' show ?case
  proof (elim disjE conjE)
    assume comma: "hd s = CHR '',''" "members_loop (um_assign out k v) (tl s) = Some (o', r)"
    with "1.IH" [OF m refl refl refl ne] obtain body kvs where
      "tl s = body @ CHR ''}'' # r" "members_form body kvs" "o' = assign_all (um_assign out k v) kvs" by auto
    moreover have "s = CHR '','' # tl s" using ne comma(1) by (cases s) auto
    ultimately show ?thesis
      using tx by (intro exI [of _ "tx @ '','' @ body"] exI [of _ "(k, v) # kvs"]) (use members_form.more in auto)
  next
    assume "hd s = CHR ''}''" "o' = um_assign out k v" "r = tl s"
    with tx ne show ?thesis
      by (intro exI [of _ tx] exI [of _ "[(k, v)]"]) (cases s; auto intro: members_form.one)
  qed
qed

lemma parseFlatObject_form:
  assumes "parseFlatObject line = Some obj"
  shows "\<exists>kvs. object_form line kvs \<and> obj = assign_all [] kvs"
proof -
  let ?s = "skipWs line"
  have open': "?s \<noteq> []" "hd ?s = CHR ''{''"
    using assms by (auto simp: parseFlatObject_def Let_def split: if_splits)
  obtain w1 where w1: "blank w1" "line = w1 @ ?s" using skipWs_split by blast
  have line: "line = w1 @ ''{'' @ tl ?s" using w1(2) open' by (cases ?s) auto
  obtain w where w: "blank w" "tl ?s = w @ skipWs (tl ?s)" using skipWs_split by blast
  show ?thesis
  proof (cases "skipWs (tl ?s) \<noteq> [] \<and> hd (skipWs (tl ?s)) = CHR ''}''")
    case True
    with assms open' have o: "obj = []" "blank (tl (skipWs (tl ?s)))"
      by (auto simp: parseFlatObject_def Let_def skipWs_blank split: if_splits)
    have "skipWs (tl ?s) = ''}'' @ tl (skipWs (tl ?s))" using True by (cases "skipWs (tl ?s)") auto
    with line w(2) have "line = w1 @ ''{'' @ w @ ''}'' @ tl (skipWs (tl ?s))" by (metis append_assoc)
    with w1(1) w(1) o show ?thesis unfolding object_form_def by (intro exI [of _ "[]"]) auto
  next
    case False
    with assms open' obtain r where m: "members_loop [] (tl ?s) = Some (obj, r)" "blank r"
      by (auto simp: parseFlatObject_def Let_def skipWs_blank members_loop_skip split: if_splits option.splits)
    then obtain body kvs where "tl ?s = body @ CHR ''}'' # r" "members_form body kvs" "obj = assign_all [] kvs"
      using members_loop_form by blast
    with line w1(1) m(2) show ?thesis unfolding object_form_def by (intro exI [of _ kvs]) auto
  qed
qed

text \<open>The values of an object are strings and numbers with digits in them.\<close>

lemma members_form_value: "members_form body kvs \<Longrightarrow> (k, v) \<in> set kvs \<Longrightarrow> \<exists>tx. value_form tx v"
  by (induction rule: members_form.induct) (auto simp: member_form_def)

lemma object_form_value:
  assumes "object_form line kvs" and "map_of (rev kvs) k = Some v"
  obtains (str) s where "v = json_string s" | (num) raw where "v = json_number raw" and "number_token raw"
proof -
  have "(k, v) \<in> set kvs" using map_of_SomeD [OF assms(2)] by simp
  with assms(1) obtain tx where "value_form tx v"
    unfolding object_form_def using members_form_value by fastforce
  with str num show thesis by (auto simp: value_form_def)
qed

lemma json_inject [simp]:
  "json_string s = json_string t \<longleftrightarrow> s = t" "json_number s = json_number t \<longleftrightarrow> s = t"
  "json_string s \<noteq> json_number t" "json_number s \<noteq> json_string t"
  by (simp_all add: json_string_def json_number_def)

section \<open>Printed objects\<close>

text \<open>
  The text of a flat object with the given members, each value as its raw text, and with white space
  \<open>w\<close> after every colon and comma (none in the venue's own messages, a blank in those of clients that
  print as Python does).
\<close>

definition member_text :: "string \<Rightarrow> string \<times> string \<Rightarrow> string" where
  "member_text w = (\<lambda>(k, raw). quoteJson k @ '':'' @ w @ raw)"

fun members_text :: "string \<Rightarrow> (string \<times> string) list \<Rightarrow> string" where
  "members_text w [] = ''}''"
| "members_text w (f # fs) = '','' @ w @ member_text w f @ members_text w fs"

definition object_text :: "string \<Rightarrow> (string \<times> string) list \<Rightarrow> string" where
  "object_text w fs = (case fs of [] \<Rightarrow> ''{}'' | f # fs \<Rightarrow> ''{'' @ member_text w f @ members_text w fs)"

text \<open>The strings that quoting does not spoil.\<close>

definition plain_text :: "string \<Rightarrow> bool" where
  "plain_text s \<longleftrightarrow> list_all (\<lambda>c. \<not> is_control c) s"

lemma plain_text_simps [simp]: "plain_text []" "plain_text (s @ t) \<longleftrightarrow> plain_text s \<and> plain_text t"
  by (simp_all add: plain_text_def)

lemma plain_text_Cons: "plain_text (c # s) \<longleftrightarrow> \<not> is_control c \<and> plain_text s"
  by (simp add: plain_text_def)

lemma plain_text_iff: "plain_text s \<longleftrightarrow> \<not> (\<exists>c \<in> set s. is_control c)"
  by (auto simp: plain_text_def list_all_iff)

text \<open>\<open>raw\<close> reads as the value \<open>vo\<close>, or the parser gives up on it.\<close>

definition reads_as :: "string \<Rightarrow> JsonValue option \<Rightarrow> bool" where
  "reads_as raw vo \<longleftrightarrow> (case vo of
       Some v \<Rightarrow> value_form raw v
     | None \<Rightarrow> raw \<noteq> [] \<and> \<not> is_ws (hd raw) \<and> (\<forall>rest. parse_value (raw @ rest) = None))"

definition reads_field :: "string \<times> string \<Rightarrow> string \<times> JsonValue option \<Rightarrow> bool" where
  "reads_field = (\<lambda>(k, raw) (k', vo). k' = k \<and> plain_text k \<and> reads_as raw vo)"

lemma string_body_quote: "plain_text s \<Longrightarrow> string_body (concat (map quote_char s)) s"
proof (induction s)
  case (Cons c s)
  then show ?case
    by (cases c rule: quote_char_cases) (auto simp: plain_text_Cons intro: string_body.intros)
qed (simp add: string_body.empty)

lemma string_form_quote: "plain_text s \<Longrightarrow> string_form (quoteJson s) s"
  by (auto simp: string_form_def quoteJson_def string_body_quote)

lemma reads_string: "reads_as (quoteJson s) (if plain_text s then Some (json_string s) else None)"
proof (cases "plain_text s")
  case True
  with string_form_quote [OF True] show ?thesis by (auto simp: reads_as_def value_form_def)
next
  case False
  have "quoteJson s @ rest \<noteq> [] \<and> hd (quoteJson s @ rest) = quote" for rest by (simp add: quoteJson_def)
  with False show ?thesis
    by (auto simp: reads_as_def parse_value_def parseString_quoteJson plain_text_iff) (auto simp: quoteJson_def)
qed

lemma reads_number: "number_token raw \<Longrightarrow> reads_as raw (Some (json_number raw))"
  by (simp add: reads_as_def value_form_def)

lemma reads_null: "reads_as ''null'' None"
  by (simp add: reads_as_def parse_value_def parseNumber_def is_digit_def is_ws_def quote_def)

lemma member_text_form:
  assumes "blank w" and "plain_text k" and "value_form raw v" and "blank u"
  shows "member_form (u @ member_text w (k, raw)) k v"
  unfolding member_form_def
  by (intro exI [of _ u] exI [of _ "quoteJson k"] exI [of _ "[]"] exI [of _ w] exI [of _ raw])
    (use assms string_form_quote in \<open>simp add: member_text_def blank_def\<close>)

lemma members_text_form:
  assumes "blank w" and "list_all2 reads_field (f # fs) (map (\<lambda>(k, v). (k, Some v)) (kv # kvs))" and "blank u"
  shows "\<exists>body. u @ member_text w f @ members_text w fs = body @ ''}'' \<and> members_form body (kv # kvs)"
  using assms(2,3)
proof (induction fs arbitrary: f kv kvs u)
  case Nil
  obtain k raw v where f: "f = (k, raw)" "kv = (k, v)" "kvs = []" "plain_text k" "value_form raw v"
    using Nil by (cases f; cases kv) (auto simp: reads_field_def reads_as_def)
  then have "members_form (u @ member_text w f) (kv # kvs)"
    using member_text_form [OF assms(1) f(4,5) Nil(2)] by (simp add: members_form.one)
  then show ?case by (intro exI [of _ "u @ member_text w f"]) simp
next
  case (Cons f' fs)
  obtain k raw v where f: "f = (k, raw)" "kv = (k, v)" "plain_text k" "value_form raw v"
    using Cons.prems by (cases f; cases kv) (auto simp: reads_field_def reads_as_def)
  obtain kv' kvs' where kvs: "kvs = kv' # kvs'" using Cons.prems by (cases kvs) auto
  obtain body where body: "w @ member_text w f' @ members_text w fs = body @ ''}''" "members_form body (kv' # kvs')"
    using Cons.IH [of f' kv' kvs' w] Cons.prems assms(1) kvs by auto
  have "members_form ((u @ member_text w f) @ '','' @ body) (kv # kvs)"
    unfolding f kvs by (rule members_form.more [OF member_text_form [OF assms(1) f(3,4) Cons.prems(2)] body(2)])
  with body(1) show ?case by (intro exI [of _ "(u @ member_text w f) @ '','' @ body"]) simp
qed

lemma object_text_form:
  assumes "blank w" and "list_all2 reads_field fs (map (\<lambda>(k, v). (k, Some v)) kvs)"
  shows "object_form (object_text w fs) kvs"
proof (cases fs)
  case Nil
  with assms(2) show ?thesis by (auto simp: object_text_def object_form_def blank_def intro!: exI [of _ "[]"])
next
  case (Cons f fs')
  then obtain kv kvs' where kvs: "kvs = kv # kvs'" using assms(2) by (cases kvs) auto
  obtain body where "member_text w f @ members_text w fs' = body @ ''}''" "members_form body kvs"
    using members_text_form [OF assms(1), of f fs' kv kvs' "[]"] assms(2) by (auto simp: Cons kvs blank_def)
  then show ?thesis
    unfolding object_form_def by (intro exI [of _ "[]"] exI [of _ body]) (simp add: Cons object_text_def blank_def)
qed

lemma members_text_head:
  obtains c t where "members_text w fs @ rest = c # t" and "c \<in> {CHR '','', CHR ''}''}"
  by (cases fs) auto

lemma members_text_bad:
  assumes "blank w" and "list_all2 reads_field (f # fs) kvos" and "None \<in> snd ` set kvos" and "blank u"
  shows "members_loop out (u @ member_text w f @ members_text w fs @ rest) = None"
  using assms(2-4)
proof (induction fs arbitrary: f kvos out u)
  case Nil
  obtain k raw where f: "f = (k, raw)" "plain_text k" "reads_as raw None"
    using Nil by (cases f) (auto simp: list_all2_Cons1 reads_field_def)
  have "parse_member (u @ member_text w f @ members_text w [] @ rest) = None"
    using f(3) member_key [OF Nil(3) string_form_quote [OF f(2)] _ assms(1), of "[]" "raw @ ''}'' @ rest"]
    by (simp add: f(1) member_text_def reads_as_def blank_def)
  then show ?case by (subst members_loop.simps) simp
next
  case (Cons f' fs)
  obtain k raw vo kvos' where f: "f = (k, raw)" "plain_text k" "reads_as raw vo" and kvos: "kvos = (k, vo) # kvos'"
    "list_all2 reads_field (f' # fs) kvos'"
    using Cons.prems(1) by (cases f) (auto simp: list_all2_Cons1 reads_field_def)
  let ?t = "CHR '','' # w @ member_text w f' @ members_text w fs @ rest"
  show ?case
  proof (cases vo)
    case None
    have "parse_member (u @ member_text w f @ ?t) = None"
      using f(3) None member_key [OF Cons.prems(3) string_form_quote [OF f(2)] _ assms(1), of "[]" "raw @ ?t"]
      by (simp add: f(1) member_text_def reads_as_def blank_def)
    then show ?thesis by (subst members_loop.simps) simp
  next
    case (Some v)
    have "member_form (u @ member_text w f) k v"
      unfolding f(1) using f(3) Some by (intro member_text_form [OF assms(1) f(2) _ Cons.prems(3)]) (simp add: reads_as_def)
    from member_form_parse [OF this, of "CHR '',''" "w @ member_text w f' @ members_text w fs @ rest"]
    have "parse_member (u @ member_text w f @ ?t) = Some (k, v, ?t)" by simp
    moreover have "members_loop (um_assign out k v) (w @ member_text w f' @ members_text w fs @ rest) = None"
      using Cons.prems(2) Some kvos assms(1) by (intro Cons.IH) auto
    ultimately show ?thesis by (subst members_loop.simps) simp
  qed
qed

text \<open>What the parser makes of a printed object: all members, or nothing if it gives up on one.\<close>

lemma parse_fields:
  assumes "list_all2 reads_field fs kvos" and "blank w" and "distinct (map fst kvos)"
  shows "parseFlatObject (object_text w fs) =
    (if None \<in> snd ` set kvos then None else Some (map (\<lambda>(k, vo). (k, the vo)) kvos))"
proof (cases "None \<in> snd ` set kvos")
  case True
  then obtain f fs' where fs: "fs = f # fs'" using assms(1) by (cases fs) auto
  let ?s = "member_text w f @ members_text w fs'"
  have "?s \<noteq> []" "hd ?s = quote" by (cases f; simp add: member_text_def quoteJson_def)+
  then have s: "?s \<noteq> []" "hd ?s \<noteq> CHR ''}''" "skipWs ?s = ?s"
    by (simp_all add: skipWs_id) (simp add: quote_def)
  have "members_loop [] ?s = None"
    using members_text_bad [OF assms(2) assms(1) [unfolded fs] True, of "[]" "[]" "[]"] by (simp add: blank_def)
  with s True show ?thesis by (simp add: parseFlatObject_def object_text_def fs skipWs_id Let_def)
next
  case False
  let ?kvs = "map (\<lambda>(k, vo). (k, the vo)) kvos"
  have "map (\<lambda>(k, v). (k, Some v)) ?kvs = kvos"
    using False by (auto simp: image_iff intro!: map_idI)
  with object_text_form [OF assms(2), of fs ?kvs] assms(1) have "object_form (object_text w fs) ?kvs" by simp
  moreover have "distinct (map fst ?kvs)" using assms(3) by (simp add: comp_def case_prod_unfold)
  ultimately show ?thesis using False by (simp add: object_form_parse assign_all_distinct del: map_map)
qed

end
