(* ===== verification/Protocol.thy ===== *)
theory Protocol
  imports Numbers JsonGrammar
begin

text \<open>
  The messages of the venue (\<open>venue/protocol.h\<close>, \<open>venue/protocol.cpp\<close>): what an inbound line says, and
  the texts of the outbound messages. The clock is outside: \<open>isoTimestampNow\<close> takes the broken-down
  time of \<open>gmtime_r\<close> and the milliseconds, and the encoders take a timestamp, as in the code.
\<close>

section \<open>Inbound\<close>

datatype MsgType = NewOrder | Cancel | Heartbeat | Unknown

datatype OrderSide = OBuy | OSell

record InboundMessage =
  im_type :: MsgType
  im_clientOrderId :: string
  im_symbol :: string
  im_side :: OrderSide
  im_priceTicks :: u32
  im_qty :: u32
  im_hasClientOrderId :: bool
  im_hasSymbol :: bool
  im_hasSide :: bool
  im_hasPrice :: bool
  im_hasQty :: bool
  im_parseError :: bool
  im_errorDetail :: string

definition InboundMessage_new :: InboundMessage where
  "InboundMessage_new =
     \<lparr>im_type = Unknown, im_clientOrderId = [], im_symbol = [], im_side = OBuy, im_priceTicks = 0, im_qty = 0,
      im_hasClientOrderId = False, im_hasSymbol = False, im_hasSide = False, im_hasPrice = False,
      im_hasQty = False, im_parseError = False, im_errorDetail = []\<rparr>"

text \<open>The string, or the number token, of a member, if it is there with that type.\<close>

definition string_member :: "(string, JsonValue) umap \<Rightarrow> string \<Rightarrow> string option" where
  "string_member obj k = (case um_find obj k of
       None \<Rightarrow> None
     | Some v \<Rightarrow> if jv_isString v then Some (jv_str v) else None)"

definition number_member :: "(string, JsonValue) umap \<Rightarrow> string \<Rightarrow> string option" where
  "number_member obj k = (case um_find obj k of
       None \<Rightarrow> None
     | Some v \<Rightarrow> if \<not> jv_isString v then Some (jv_numRaw v) else None)"

definition msg_type :: "string \<Rightarrow> MsgType" where
  "msg_type t =
     (if t = ''NEW_ORDER'' then NewOrder
      else if t = ''CANCEL'' then Cancel
      else if t = ''HEARTBEAT'' then Heartbeat
      else Unknown)"

definition parseInbound :: "string \<Rightarrow> InboundMessage" where
  "parseInbound line =
     (let m = InboundMessage_new in
      case parseFlatObject line of
        None \<Rightarrow> m\<lparr>im_parseError := True, im_errorDetail := ''json''\<rparr>
      | Some obj \<Rightarrow>
      (case string_member obj ''type'' of
        None \<Rightarrow> m\<lparr>im_parseError := True, im_errorDetail := ''type''\<rparr>
      | Some t \<Rightarrow>
        let m = m\<lparr>im_type := msg_type t\<rparr>;
            m = (case string_member obj ''client_order_id'' of
                   None \<Rightarrow> m | Some s \<Rightarrow> m\<lparr>im_clientOrderId := s, im_hasClientOrderId := True\<rparr>);
            m = (case string_member obj ''symbol'' of
                   None \<Rightarrow> m | Some s \<Rightarrow> m\<lparr>im_symbol := s, im_hasSymbol := True\<rparr>);
            m = (case string_member obj ''side'' of
                   None \<Rightarrow> m
                 | Some s \<Rightarrow> if s = ''BUY'' then m\<lparr>im_side := OBuy, im_hasSide := True\<rparr>
                             else if s = ''SELL'' then m\<lparr>im_side := OSell, im_hasSide := True\<rparr>
                             else m);
            m = (case number_member obj ''price'' of
                   None \<Rightarrow> m
                 | Some raw \<Rightarrow> (case parseDecimalToTicks raw of
                     None \<Rightarrow> m | Some ticks \<Rightarrow> m\<lparr>im_priceTicks := ticks, im_hasPrice := True\<rparr>));
            m = (case number_member obj ''qty'' of
                   None \<Rightarrow> m
                 | Some raw \<Rightarrow> (case parseUint32 raw of
                     None \<Rightarrow> m | Some q \<Rightarrow> m\<lparr>im_qty := q, im_hasQty := True\<rparr>))
        in m))"

section \<open>Outbound\<close>

definition sideToString :: "OrderSide \<Rightarrow> string" where
  "sideToString side = (case side of OBuy \<Rightarrow> ''BUY'' | OSell \<Rightarrow> ''SELL'')"

text \<open>The fields of \<open>struct tm\<close> that are printed.\<close>

record Tm =
  tm_year :: int
  tm_mon :: int
  tm_mday :: int
  tm_hour :: int
  tm_min :: int
  tm_sec :: int

text \<open>\<open>%0wd\<close>.\<close>

definition fmt_int :: "nat \<Rightarrow> int \<Rightarrow> string" where
  "fmt_int w n = (if n < 0 then CHR ''-'' # zero_padded (w - 1) (nat (- n)) else zero_padded w (nat n))"

text \<open>\<open>snprintf\<close> into a buffer of 40 bytes keeps at most 39 characters.\<close>

definition isoTimestampNow :: "Tm \<Rightarrow> int \<Rightarrow> string" where
  "isoTimestampNow tm ms = take 39
     (fmt_int 4 (tm_year tm + 1900) @ ''-'' @ fmt_int 2 (tm_mon tm + 1) @ ''-'' @ fmt_int 2 (tm_mday tm) @ ''T'' @
      fmt_int 2 (tm_hour tm) @ '':'' @ fmt_int 2 (tm_min tm) @ '':'' @ fmt_int 2 (tm_sec tm) @ ''.'' @
      fmt_int 3 ms @ ''Z'')"

definition encodeAck :: "string \<Rightarrow> string \<Rightarrow> string \<Rightarrow> string" where
  "encodeAck clientOrderId exchangeOrderId ts =
     ''{\"type\":\"ACK\",\"client_order_id\":'' @ quoteJson clientOrderId @
     '',\"exchange_order_id\":'' @ quoteJson exchangeOrderId @
     '',\"ts\":'' @ quoteJson ts @ ''}''"

definition encodeReject :: "string \<Rightarrow> string \<Rightarrow> string \<Rightarrow> string" where
  "encodeReject clientOrderId reason ts =
     ''{\"type\":\"REJECT\",\"client_order_id\":'' @ quoteJson clientOrderId @
     '',\"reason\":'' @ quoteJson reason @ '',\"ts\":'' @ quoteJson ts @ ''}''"

definition encodeCancelAck :: "string \<Rightarrow> string \<Rightarrow> string \<Rightarrow> string" where
  "encodeCancelAck clientOrderId exchangeOrderId ts =
     ''{\"type\":\"CANCEL_ACK\",\"client_order_id\":'' @ quoteJson clientOrderId @
     '',\"exchange_order_id\":'' @ quoteJson exchangeOrderId @
     '',\"ts\":'' @ quoteJson ts @ ''}''"

definition encodeCancelReject :: "string \<Rightarrow> string \<Rightarrow> string \<Rightarrow> string" where
  "encodeCancelReject clientOrderId reason ts =
     ''{\"type\":\"CANCEL_REJECT\",\"client_order_id\":'' @ quoteJson clientOrderId @
     '',\"reason\":'' @ quoteJson reason @ '',\"ts\":'' @ quoteJson ts @ ''}''"

definition encodeFill :: "string \<Rightarrow> string \<Rightarrow> u32 \<Rightarrow> u32 \<Rightarrow> u32 \<Rightarrow> string \<Rightarrow> string" where
  "encodeFill exchangeOrderId clientOrderId fillQty fillPriceTicks remainingQty ts =
     ''{\"type\":\"FILL\",\"exchange_order_id\":'' @ quoteJson exchangeOrderId @
     '',\"client_order_id\":'' @ quoteJson clientOrderId @
     '',\"fill_qty\":'' @ to_string (unat fillQty) @
     '',\"fill_price\":'' @ ticksToDecimal fillPriceTicks @
     '',\"remaining_qty\":'' @ to_string (unat remainingQty) @
     '',\"ts\":'' @ quoteJson ts @ ''}''"

definition encodeHeartbeat :: "u64 \<Rightarrow> string \<Rightarrow> string" where
  "encodeHeartbeat seq ts =
     ''{\"type\":\"HEARTBEAT\",\"seq\":'' @ to_string (unat seq) @
     '',\"ts\":'' @ quoteJson ts @ ''}''"

definition encodeMarketData :: "string \<Rightarrow> bool \<Rightarrow> u32 \<Rightarrow> bool \<Rightarrow> u32 \<Rightarrow> bool \<Rightarrow> u32 \<Rightarrow> string \<Rightarrow> string" where
  "encodeMarketData symbol hasBid bidTicks hasAsk askTicks hasLast lastTicks ts =
     ''{\"type\":\"MARKET_DATA\",\"symbol\":'' @ quoteJson symbol @
     '',\"best_bid\":'' @ (if hasBid then ticksToDecimal bidTicks else ''null'') @
     '',\"best_ask\":'' @ (if hasAsk then ticksToDecimal askTicks else ''null'') @
     '',\"last_trade\":'' @ (if hasLast then ticksToDecimal lastTicks else ''null'') @
     '',\"ts\":'' @ quoteJson ts @ ''}''"

section \<open>Printed messages\<close>

lemma number_token_digits: "ds \<noteq> [] \<Longrightarrow> list_all is_digit ds \<Longrightarrow> number_token ds"
  unfolding number_token_def by (intro exI [of _ "[]"] exI [of _ ds]) simp

lemma number_token_decimal:
  assumes "ds \<noteq> []" and "list_all is_digit ds" and "fs \<noteq> []" and "list_all is_digit fs"
  shows "number_token (ds @ CHR ''.'' # fs)"
  unfolding number_token_def
  by (intro exI [of _ "[]"] exI [of _ ds] exI [of _ "CHR ''.'' # fs"]) (use assms in simp)

lemma zero_padded_nonempty [simp]: "zero_padded w n \<noteq> []"
  by (simp add: zero_padded_def)

lemma reads_to_string: "reads_as (to_string n) (Some (json_number (to_string n)))"
  by (intro reads_number number_token_digits) (simp_all add: to_string_digits)

lemma reads_ticks: "reads_as (ticksToDecimal t) (Some (json_number (ticksToDecimal t)))"
  unfolding ticksToDecimal_def
  by (intro reads_number number_token_decimal) (simp_all add: to_string_digits zero_padded_digits)

text \<open>The encoders write flat objects.\<close>

lemma quoteJson_literals:
  "quoteJson ''type'' = ''\"type\"''" "quoteJson ''client_order_id'' = ''\"client_order_id\"''"
  "quoteJson ''exchange_order_id'' = ''\"exchange_order_id\"''" "quoteJson ''reason'' = ''\"reason\"''"
  "quoteJson ''ts'' = ''\"ts\"''" "quoteJson ''fill_qty'' = ''\"fill_qty\"''"
  "quoteJson ''fill_price'' = ''\"fill_price\"''" "quoteJson ''remaining_qty'' = ''\"remaining_qty\"''"
  "quoteJson ''seq'' = ''\"seq\"''" "quoteJson ''ACK'' = ''\"ACK\"''" "quoteJson ''REJECT'' = ''\"REJECT\"''"
  "quoteJson ''CANCEL_ACK'' = ''\"CANCEL_ACK\"''" "quoteJson ''CANCEL_REJECT'' = ''\"CANCEL_REJECT\"''"
  "quoteJson ''FILL'' = ''\"FILL\"''" "quoteJson ''HEARTBEAT'' = ''\"HEARTBEAT\"''"
  "quoteJson ''MARKET_DATA'' = ''\"MARKET_DATA\"''" "quoteJson ''symbol'' = ''\"symbol\"''"
  "quoteJson ''best_bid'' = ''\"best_bid\"''" "quoteJson ''best_ask'' = ''\"best_ask\"''"
  "quoteJson ''last_trade'' = ''\"last_trade\"''"
  by code_simp+

lemma plain_literals:
  "plain_text ''type''" "plain_text ''client_order_id''" "plain_text ''exchange_order_id''" "plain_text ''reason''"
  "plain_text ''ts''" "plain_text ''fill_qty''" "plain_text ''fill_price''" "plain_text ''remaining_qty''"
  "plain_text ''seq''" "plain_text ''symbol''" "plain_text ''side''" "plain_text ''price''"
  "plain_text ''qty''" "plain_text ''best_bid''" "plain_text ''best_ask''" "plain_text ''last_trade''"
  "plain_text ''ACK''" "plain_text ''REJECT''" "plain_text ''CANCEL_ACK''" "plain_text ''CANCEL_REJECT''"
  "plain_text ''FILL''" "plain_text ''HEARTBEAT''" "plain_text ''MARKET_DATA''" "plain_text ''NEW_ORDER''"
  "plain_text ''CANCEL''" "plain_text ''BUY''" "plain_text ''SELL''"
  by code_simp+

lemma reads_literal: "plain_text s \<Longrightarrow> reads_as (quoteJson s) (Some (json_string s))"
  using reads_string [of s] by simp

text \<open>The members of the messages, and what each reads as.\<close>

lemma reads_fields:
  "reads_field (k, quoteJson s) (k, if plain_text s then Some (json_string s) else None) \<longleftrightarrow> plain_text k"
  "reads_field (k, to_string n) (k, Some (json_number (to_string n))) \<longleftrightarrow> plain_text k"
  "reads_field (k, ticksToDecimal t) (k, Some (json_number (ticksToDecimal t))) \<longleftrightarrow> plain_text k"
  "reads_field (k, if h then ticksToDecimal t else ''null'') (k, if h then Some (json_number (ticksToDecimal t)) else None) \<longleftrightarrow> plain_text k"
  "plain_text s \<Longrightarrow> reads_field (k, quoteJson s) (k, Some (json_string s)) \<longleftrightarrow> plain_text k"
  using reads_string [of s] reads_to_string [of n] reads_ticks [of t] reads_null by (auto simp: reads_field_def)

lemma encode_objects:
  "encodeAck c e ts = object_text [] [(''type'', quoteJson ''ACK''), (''client_order_id'', quoteJson c),
     (''exchange_order_id'', quoteJson e), (''ts'', quoteJson ts)]"
  "encodeReject c r ts = object_text [] [(''type'', quoteJson ''REJECT''), (''client_order_id'', quoteJson c),
     (''reason'', quoteJson r), (''ts'', quoteJson ts)]"
  "encodeCancelAck c e ts = object_text [] [(''type'', quoteJson ''CANCEL_ACK''), (''client_order_id'', quoteJson c),
     (''exchange_order_id'', quoteJson e), (''ts'', quoteJson ts)]"
  "encodeCancelReject c r ts = object_text [] [(''type'', quoteJson ''CANCEL_REJECT''), (''client_order_id'', quoteJson c),
     (''reason'', quoteJson r), (''ts'', quoteJson ts)]"
  "encodeFill e c q p m ts = object_text [] [(''type'', quoteJson ''FILL''), (''exchange_order_id'', quoteJson e),
     (''client_order_id'', quoteJson c), (''fill_qty'', to_string (unat q)), (''fill_price'', ticksToDecimal p),
     (''remaining_qty'', to_string (unat m)), (''ts'', quoteJson ts)]"
  "encodeHeartbeat n ts = object_text [] [(''type'', quoteJson ''HEARTBEAT''), (''seq'', to_string (unat n)),
     (''ts'', quoteJson ts)]"
  "encodeMarketData sy hb bid ha ask hl l ts = object_text [] [(''type'', quoteJson ''MARKET_DATA''), (''symbol'', quoteJson sy),
     (''best_bid'', if hb then ticksToDecimal bid else ''null''), (''best_ask'', if ha then ticksToDecimal ask else ''null''),
     (''last_trade'', if hl then ticksToDecimal l else ''null''), (''ts'', quoteJson ts)]"
  by (simp_all add: object_text_def member_text_def quoteJson_literals encodeAck_def encodeReject_def
      encodeCancelAck_def encodeCancelReject_def encodeFill_def encodeHeartbeat_def encodeMarketData_def)

section \<open>What a request says\<close>

text \<open>Whether a field is set, and to what, by a member \<open>v\<close> whose value has a meaning for this field.\<close>

definition field_read :: "(JsonValue \<Rightarrow> 'a \<Rightarrow> bool) \<Rightarrow> JsonValue option \<Rightarrow> bool \<Rightarrow> 'a \<Rightarrow> bool" where
  "field_read means v has x \<longleftrightarrow> (has \<longleftrightarrow> (\<exists>w y. v = Some w \<and> means w y)) \<and> (has \<longrightarrow> means (the v) x)"

lemma field_readI:
  "(has \<longleftrightarrow> (\<exists>w y. v = Some w \<and> means w y)) \<Longrightarrow> (\<And>w y. v = Some w \<Longrightarrow> means w y \<Longrightarrow> x = y) \<Longrightarrow>
     field_read means v has x"
  by (auto simp: field_read_def)

lemma field_readD:
  "field_read means (Some w) has x \<Longrightarrow> means w y \<Longrightarrow> has \<and> means w x" "field_read means None has x \<Longrightarrow> \<not> has"
  by (auto simp: field_read_def)

definition means_text :: "JsonValue \<Rightarrow> string \<Rightarrow> bool" where
  "means_text v s \<longleftrightarrow> v = json_string s"

definition means_side :: "JsonValue \<Rightarrow> OrderSide \<Rightarrow> bool" where
  "means_side v sd \<longleftrightarrow> v = json_string ''BUY'' \<and> sd = OBuy \<or> v = json_string ''SELL'' \<and> sd = OSell"

definition means_price :: "JsonValue \<Rightarrow> u32 \<Rightarrow> bool" where
  "means_price v t \<longleftrightarrow> (\<exists>raw. v = json_number raw \<and> price_value raw = Some (unat t))"

definition means_quantity :: "JsonValue \<Rightarrow> u32 \<Rightarrow> bool" where
  "means_quantity v q \<longleftrightarrow> (\<exists>raw. v = json_number raw \<and> list_all is_digit raw \<and> dec_value 0 raw = unat q)"

lemma member_cases:
  assumes "object_form line kvs"
  shows "(case map_of (rev kvs) k of None \<Rightarrow> True
    | Some v \<Rightarrow> (\<exists>s. v = json_string s) \<or> (\<exists>raw. v = json_number raw \<and> raw \<noteq> []))"
  using object_form_value [OF assms, of k] number_token_head by (auto split: option.split) metis

lemma members_of:
  assumes "object_form line kvs" and "map_of (rev kvs) k = v"
  shows "(string_member (assign_all [] kvs) k = Some s) = (v = Some (json_string s))"
    and "(string_member (assign_all [] kvs) k = None) = (\<nexists>s. v = Some (json_string s))"
    and "(number_member (assign_all [] kvs) k = Some raw) = (v = Some (json_number raw))"
    and "(number_member (assign_all [] kvs) k = None) = (\<nexists>raw. v = Some (json_number raw))"
  using member_cases [OF assms(1), of k]
  by (auto simp: string_member_def number_member_def assign_all_find assms(2) json_string_def json_number_def split: option.splits)

section \<open>The properties of the protocol\<close>

text \<open>C34: Quoting and parsing strings: \<open>parseString\<close> reads back exactly what \<open>quoteJson\<close> wrote, and leaves
  what follows it, for all strings without control characters other than newline, carriage return and
  tab; a string with any other control character is written in a form that \<open>parseString\<close> refuses.\<close>

theorem quote_round_trip:
  "parseString (quoteJson s @ rest) = (if list_all (\<lambda>c. \<not> is_control c) s then Some (s, rest) else None)"
  by (auto simp: parseString_quoteJson list_all_iff)

text \<open>C21: Every message the venue sends, read by the parser of the venue itself: when its strings have no control
  character other than newline, carriage return and tab, the parser reads exactly the members that
  were put in, so that no client id, order id or reason can break out of its quotes, and quantities
  and prices are number tokens; with any other control character in a string the parser refuses the
  whole message. Market data are refused as well while one of their three prices is missing, since
  the parser does not know \<open>null\<close>.\<close>

theorem encoded_messages_parse:
  "parseFlatObject (encodeAck cid eid ts) = (if plain_text (cid @ eid @ ts) then
      Some [(''type'', json_string ''ACK''), (''client_order_id'', json_string cid),
        (''exchange_order_id'', json_string eid), (''ts'', json_string ts)] else None) \<and>
    parseFlatObject (encodeReject cid reason ts) = (if plain_text (cid @ reason @ ts) then
      Some [(''type'', json_string ''REJECT''), (''client_order_id'', json_string cid),
        (''reason'', json_string reason), (''ts'', json_string ts)] else None) \<and>
    parseFlatObject (encodeCancelAck cid eid ts) = (if plain_text (cid @ eid @ ts) then
      Some [(''type'', json_string ''CANCEL_ACK''), (''client_order_id'', json_string cid),
        (''exchange_order_id'', json_string eid), (''ts'', json_string ts)] else None) \<and>
    parseFlatObject (encodeCancelReject cid reason ts) = (if plain_text (cid @ reason @ ts) then
      Some [(''type'', json_string ''CANCEL_REJECT''), (''client_order_id'', json_string cid),
        (''reason'', json_string reason), (''ts'', json_string ts)] else None) \<and>
    parseFlatObject (encodeFill eid cid q p m ts) = (if plain_text (eid @ cid @ ts) then
      Some [(''type'', json_string ''FILL''), (''exchange_order_id'', json_string eid),
        (''client_order_id'', json_string cid), (''fill_qty'', json_number (to_string (unat q))),
        (''fill_price'', json_number (ticksToDecimal p)), (''remaining_qty'', json_number (to_string (unat m))),
        (''ts'', json_string ts)] else None) \<and>
    parseFlatObject (encodeHeartbeat n ts) = (if plain_text ts then
      Some [(''type'', json_string ''HEARTBEAT''), (''seq'', json_number (to_string (unat n))),
        (''ts'', json_string ts)] else None) \<and>
    parseFlatObject (encodeMarketData sy hasBid bid hasAsk ask hasLast lst ts) =
      (if plain_text (sy @ ts) \<and> hasBid \<and> hasAsk \<and> hasLast then
        Some [(''type'', json_string ''MARKET_DATA''), (''symbol'', json_string sy),
          (''best_bid'', json_number (ticksToDecimal bid)), (''best_ask'', json_number (ticksToDecimal ask)),
          (''last_trade'', json_number (ticksToDecimal lst)), (''ts'', json_string ts)] else None)"
proof -
  let ?s = "\<lambda>s. if plain_text s then Some (json_string s) else None" and ?j = "\<lambda>s. Some (json_string s)"
    and ?n = "\<lambda>n. Some (json_number (to_string n))" and ?t = "\<lambda>t. Some (json_number (ticksToDecimal t))"
    and ?o = "\<lambda>h t. if h then Some (json_number (ticksToDecimal t)) else None"
  note simps = list_all2_Cons list_all2_Nil reads_fields plain_literals
  have ids: "parseFlatObject (object_text [] [(''type'', quoteJson ty), (''client_order_id'', quoteJson c), (k, quoteJson e), (''ts'', quoteJson ts)]) =
      (if plain_text (c @ e @ ts) then Some [(''type'', json_string ty), (''client_order_id'', json_string c), (k, json_string e),
        (''ts'', json_string ts)] else None)" if "plain_text ty" "k \<in> {''exchange_order_id'', ''reason''}" for ty c k e
    by (subst parse_fields [where kvos = "[(''type'', ?j ty), (''client_order_id'', ?s c), (k, ?s e), (''ts'', ?s ts)]"])
      (use that in \<open>auto simp: simps blank_def\<close>)
  have fill: "parseFlatObject (encodeFill eid cid q p m ts) = (if plain_text (eid @ cid @ ts) then
      Some [(''type'', json_string ''FILL''), (''exchange_order_id'', json_string eid),
        (''client_order_id'', json_string cid), (''fill_qty'', json_number (to_string (unat q))),
        (''fill_price'', json_number (ticksToDecimal p)), (''remaining_qty'', json_number (to_string (unat m))),
        (''ts'', json_string ts)] else None)"
    unfolding encode_objects
    by (subst parse_fields [where kvos = "[(''type'', ?j ''FILL''), (''exchange_order_id'', ?s eid), (''client_order_id'', ?s cid),
        (''fill_qty'', ?n (unat q)), (''fill_price'', ?t p), (''remaining_qty'', ?n (unat m)), (''ts'', ?s ts)]"])
      (auto simp: simps blank_def)
  have beat: "parseFlatObject (encodeHeartbeat n ts) = (if plain_text ts then
      Some [(''type'', json_string ''HEARTBEAT''), (''seq'', json_number (to_string (unat n))),
        (''ts'', json_string ts)] else None)"
    unfolding encode_objects
    by (subst parse_fields [where kvos = "[(''type'', ?j ''HEARTBEAT''), (''seq'', ?n (unat n)), (''ts'', ?s ts)]"])
      (auto simp: simps blank_def)
  have md: "parseFlatObject (encodeMarketData sy hasBid bid hasAsk ask hasLast lst ts) =
      (if plain_text (sy @ ts) \<and> hasBid \<and> hasAsk \<and> hasLast then
        Some [(''type'', json_string ''MARKET_DATA''), (''symbol'', json_string sy),
          (''best_bid'', json_number (ticksToDecimal bid)), (''best_ask'', json_number (ticksToDecimal ask)),
          (''last_trade'', json_number (ticksToDecimal lst)), (''ts'', json_string ts)] else None)"
    unfolding encode_objects
    by (subst parse_fields [where kvos = "[(''type'', ?j ''MARKET_DATA''), (''symbol'', ?s sy), (''best_bid'', ?o hasBid bid),
        (''best_ask'', ?o hasAsk ask), (''last_trade'', ?o hasLast lst), (''ts'', ?s ts)]"])
      (auto simp: simps blank_def)
  show ?thesis
    unfolding fill beat md unfolding encode_objects by (simp add: ids plain_literals)
qed

text \<open>A client's requests, with white space of the client's choice.\<close>

definition new_order_text :: "string \<Rightarrow> string \<Rightarrow> string \<Rightarrow> OrderSide \<Rightarrow> u32 \<Rightarrow> u32 \<Rightarrow> string" where
  "new_order_text w cid symb side price q = object_text w
     [(''type'', quoteJson ''NEW_ORDER''), (''client_order_id'', quoteJson cid), (''symbol'', quoteJson symb),
      (''side'', quoteJson (sideToString side)), (''price'', ticksToDecimal price), (''qty'', to_string (unat q))]"

definition cancel_text :: "string \<Rightarrow> string \<Rightarrow> string" where
  "cancel_text w cid = object_text w [(''type'', quoteJson ''CANCEL''), (''client_order_id'', quoteJson cid)]"


text \<open>The five optional fields, one step for each.\<close>

definition read_cid :: "string option \<Rightarrow> InboundMessage \<Rightarrow> InboundMessage" where
  "read_cid v m = (case v of None \<Rightarrow> m | Some s \<Rightarrow> m\<lparr>im_clientOrderId := s, im_hasClientOrderId := True\<rparr>)"

definition read_symbol :: "string option \<Rightarrow> InboundMessage \<Rightarrow> InboundMessage" where
  "read_symbol v m = (case v of None \<Rightarrow> m | Some s \<Rightarrow> m\<lparr>im_symbol := s, im_hasSymbol := True\<rparr>)"

definition read_side :: "string option \<Rightarrow> InboundMessage \<Rightarrow> InboundMessage" where
  "read_side v m = (case v of None \<Rightarrow> m
     | Some s \<Rightarrow> if s = ''BUY'' then m\<lparr>im_side := OBuy, im_hasSide := True\<rparr>
                 else if s = ''SELL'' then m\<lparr>im_side := OSell, im_hasSide := True\<rparr> else m)"

definition read_price :: "string option \<Rightarrow> InboundMessage \<Rightarrow> InboundMessage" where
  "read_price v m = (case v of None \<Rightarrow> m
     | Some raw \<Rightarrow> (case parseDecimalToTicks raw of
         None \<Rightarrow> m | Some ticks \<Rightarrow> m\<lparr>im_priceTicks := ticks, im_hasPrice := True\<rparr>))"

definition read_qty :: "string option \<Rightarrow> InboundMessage \<Rightarrow> InboundMessage" where
  "read_qty v m = (case v of None \<Rightarrow> m
     | Some raw \<Rightarrow> (case parseUint32 raw of None \<Rightarrow> m | Some q \<Rightarrow> m\<lparr>im_qty := q, im_hasQty := True\<rparr>))"

lemma parseInbound_steps:
  assumes "parseFlatObject line = Some obj" and "string_member obj ''type'' = Some t"
  shows "parseInbound line =
    read_qty (number_member obj ''qty'') (read_price (number_member obj ''price'')
      (read_side (string_member obj ''side'') (read_symbol (string_member obj ''symbol'')
        (read_cid (string_member obj ''client_order_id'') (InboundMessage_new\<lparr>im_type := msg_type t\<rparr>)))))"
  unfolding parseInbound_def assms(1) option.case assms(2) Let_def read_cid_def read_symbol_def read_side_def
    read_price_def read_qty_def ..

text \<open>No step touches the fields of another.\<close>

lemma read_frame [simp]:
  "im_type (read_cid v m) = im_type m" "im_parseError (read_cid v m) = im_parseError m" "im_symbol (read_cid v m) = im_symbol m"
  "im_hasSymbol (read_cid v m) = im_hasSymbol m" "im_side (read_cid v m) = im_side m" "im_hasSide (read_cid v m) = im_hasSide m"
  "im_priceTicks (read_cid v m) = im_priceTicks m" "im_hasPrice (read_cid v m) = im_hasPrice m" "im_qty (read_cid v m) = im_qty m"
  "im_hasQty (read_cid v m) = im_hasQty m"
  "im_type (read_symbol v m) = im_type m" "im_parseError (read_symbol v m) = im_parseError m" "im_clientOrderId (read_symbol v m) = im_clientOrderId m"
  "im_hasClientOrderId (read_symbol v m) = im_hasClientOrderId m" "im_side (read_symbol v m) = im_side m" "im_hasSide (read_symbol v m) = im_hasSide m"
  "im_priceTicks (read_symbol v m) = im_priceTicks m" "im_hasPrice (read_symbol v m) = im_hasPrice m" "im_qty (read_symbol v m) = im_qty m"
  "im_hasQty (read_symbol v m) = im_hasQty m"
  "im_type (read_side v m) = im_type m" "im_parseError (read_side v m) = im_parseError m" "im_clientOrderId (read_side v m) = im_clientOrderId m"
  "im_hasClientOrderId (read_side v m) = im_hasClientOrderId m" "im_symbol (read_side v m) = im_symbol m" "im_hasSymbol (read_side v m) = im_hasSymbol m"
  "im_priceTicks (read_side v m) = im_priceTicks m" "im_hasPrice (read_side v m) = im_hasPrice m" "im_qty (read_side v m) = im_qty m"
  "im_hasQty (read_side v m) = im_hasQty m"
  "im_type (read_price v m) = im_type m" "im_parseError (read_price v m) = im_parseError m" "im_clientOrderId (read_price v m) = im_clientOrderId m"
  "im_hasClientOrderId (read_price v m) = im_hasClientOrderId m" "im_symbol (read_price v m) = im_symbol m" "im_hasSymbol (read_price v m) = im_hasSymbol m"
  "im_side (read_price v m) = im_side m" "im_hasSide (read_price v m) = im_hasSide m" "im_qty (read_price v m) = im_qty m"
  "im_hasQty (read_price v m) = im_hasQty m"
  "im_type (read_qty v m) = im_type m" "im_parseError (read_qty v m) = im_parseError m" "im_clientOrderId (read_qty v m) = im_clientOrderId m"
  "im_hasClientOrderId (read_qty v m) = im_hasClientOrderId m" "im_symbol (read_qty v m) = im_symbol m" "im_hasSymbol (read_qty v m) = im_hasSymbol m"
  "im_side (read_qty v m) = im_side m" "im_hasSide (read_qty v m) = im_hasSide m" "im_priceTicks (read_qty v m) = im_priceTicks m"
  "im_hasPrice (read_qty v m) = im_hasPrice m"
  by (simp_all add: read_cid_def read_symbol_def read_side_def read_price_def read_qty_def split: option.split)

lemma read_own [simp]:
  "im_hasClientOrderId (read_cid v m) = (v \<noteq> None \<or> im_hasClientOrderId m)" "im_clientOrderId (read_cid (Some s) m) = s"
  "im_hasSymbol (read_symbol v m) = (v \<noteq> None \<or> im_hasSymbol m)" "im_symbol (read_symbol (Some s) m) = s"
  "im_hasSide (read_side v m) = (v \<in> {Some ''BUY'', Some ''SELL''} \<or> im_hasSide m)"
  "im_side (read_side (Some ''BUY'') m) = OBuy" "im_side (read_side (Some ''SELL'') m) = OSell"
  "im_hasPrice (read_price w m) = ((\<exists>raw p. w = Some raw \<and> parseDecimalToTicks raw = Some p) \<or> im_hasPrice m)"
  "parseDecimalToTicks raw = Some p \<Longrightarrow> im_priceTicks (read_price (Some raw) m) = p"
  "im_hasQty (read_qty w m) = ((\<exists>raw q. w = Some raw \<and> parseUint32 raw = Some q) \<or> im_hasQty m)"
  "parseUint32 raw = Some q \<Longrightarrow> im_qty (read_qty (Some raw) m) = q"
  by (auto simp: read_cid_def read_symbol_def read_side_def read_price_def read_qty_def split: option.split)

lemma parseInbound_fields:
  assumes "parseFlatObject line = Some obj" and "string_member obj ''type'' = Some t"
  defines "m \<equiv> parseInbound line"
  shows "im_parseError m = False" and "im_type m = msg_type t"
    and "im_hasClientOrderId m = (string_member obj ''client_order_id'' \<noteq> None)"
    and "\<And>s. string_member obj ''client_order_id'' = Some s \<Longrightarrow> im_clientOrderId m = s"
    and "im_hasSymbol m = (string_member obj ''symbol'' \<noteq> None)"
    and "\<And>s. string_member obj ''symbol'' = Some s \<Longrightarrow> im_symbol m = s"
    and "im_hasSide m = (string_member obj ''side'' \<in> {Some ''BUY'', Some ''SELL''})"
    and "string_member obj ''side'' = Some ''BUY'' \<Longrightarrow> im_side m = OBuy"
    and "string_member obj ''side'' = Some ''SELL'' \<Longrightarrow> im_side m = OSell"
    and "im_hasPrice m = (\<exists>raw p. number_member obj ''price'' = Some raw \<and> parseDecimalToTicks raw = Some p)"
    and "\<And>raw p. number_member obj ''price'' = Some raw \<Longrightarrow> parseDecimalToTicks raw = Some p \<Longrightarrow> im_priceTicks m = p"
    and "im_hasQty m = (\<exists>raw q. number_member obj ''qty'' = Some raw \<and> parseUint32 raw = Some q)"
    and "\<And>raw q. number_member obj ''qty'' = Some raw \<Longrightarrow> parseUint32 raw = Some q \<Longrightarrow> im_qty m = q"
  unfolding m_def parseInbound_steps [OF assms(1,2)]
  by (simp_all add: InboundMessage_new_def)

lemma json_error_iff:
  "parseFlatObject line = None \<longleftrightarrow> im_parseError (parseInbound line) \<and> im_errorDetail (parseInbound line) = ''json''"
proof (cases "parseFlatObject line")
  case (Some obj)
  show ?thesis
  proof (cases "string_member obj ''type''")
    case None
    with Some show ?thesis by (simp add: parseInbound_def)
  next
    case t: (Some t)
    from parseInbound_fields(1) [OF Some t] Some show ?thesis by simp
  qed
qed (simp add: parseInbound_def)

text \<open>The five fields of the message, each from the member of its name.\<close>

lemma text_fields_read:
  assumes "object_form line kvs" and "string_member (assign_all [] kvs) ''type'' = Some t"
  defines "f \<equiv> map_of (rev kvs)" and "m \<equiv> parseInbound line"
  shows "field_read means_text (f ''client_order_id'') (im_hasClientOrderId m) (im_clientOrderId m)"
    and "field_read means_text (f ''symbol'') (im_hasSymbol m) (im_symbol m)"
    and "field_read means_side (f ''side'') (im_hasSide m) (im_side m)"
proof -
  note mem = members_of [OF assms(1) refl, folded f_def]
  note fields = parseInbound_fields [OF object_form_parse [OF assms(1)] assms(2), folded m_def]
  show "field_read means_text (f ''client_order_id'') (im_hasClientOrderId m) (im_clientOrderId m)"
  proof (rule field_readI)
    show "im_hasClientOrderId m = (\<exists>w y. f ''client_order_id'' = Some w \<and> means_text w y)"
      unfolding fields(3) mem(2) means_text_def by blast
  qed (use fields(4) mem(1) in \<open>simp add: means_text_def\<close>)
  show "field_read means_text (f ''symbol'') (im_hasSymbol m) (im_symbol m)"
  proof (rule field_readI)
    show "im_hasSymbol m = (\<exists>w y. f ''symbol'' = Some w \<and> means_text w y)"
      unfolding fields(5) mem(2) means_text_def by blast
  qed (use fields(6) mem(1) in \<open>simp add: means_text_def\<close>)
  show "field_read means_side (f ''side'') (im_hasSide m) (im_side m)"
  proof (rule field_readI)
    show "im_hasSide m = (\<exists>w y. f ''side'' = Some w \<and> means_side w y)"
      unfolding fields(7) means_side_def insert_iff empty_iff mem(1) by blast
    fix w y
    assume "f ''side'' = Some w" "means_side w y"
    then show "im_side m = y" using fields(8,9) unfolding mem(1) means_side_def by blast
  qed
qed

lemma number_fields_read:
  assumes "object_form line kvs" and "string_member (assign_all [] kvs) ''type'' = Some t"
  defines "f \<equiv> map_of (rev kvs)" and "m \<equiv> parseInbound line"
  shows "field_read means_price (f ''price'') (im_hasPrice m) (im_priceTicks m)"
    and "field_read means_quantity (f ''qty'') (im_hasQty m) (im_qty m)"
proof -
  note mem = members_of [OF assms(1) refl, folded f_def]
  note fields = parseInbound_fields [OF object_form_parse [OF assms(1)] assms(2), folded m_def]
  show "field_read means_price (f ''price'') (im_hasPrice m) (im_priceTicks m)"
  proof (rule field_readI)
    show "im_hasPrice m = (\<exists>w y. f ''price'' = Some w \<and> means_price w y)"
      unfolding fields(10) means_price_def mem(3) parseDecimalToTicks_run by blast
    fix w y
    assume "f ''price'' = Some w" "means_price w y"
    then show "im_priceTicks m = y" using fields(11) unfolding mem(3) means_price_def parseDecimalToTicks_run by blast
  qed
  show "field_read means_quantity (f ''qty'') (im_hasQty m) (im_qty m)"
  proof (rule field_readI)
    have q: "parseUint32 raw = Some q \<longleftrightarrow> list_all is_digit raw \<and> dec_value 0 raw = unat q"
      if "f ''qty'' = Some (json_number raw)" for raw q
      using that member_cases [OF assms(1), of "''qty''", folded f_def] unsigned_less [of q] by (auto simp: parseUint32_run)
    show "im_hasQty m = (\<exists>w y. f ''qty'' = Some w \<and> means_quantity w y)"
      unfolding fields(12) means_quantity_def mem(3) using q by blast
    fix w y
    assume "f ''qty'' = Some w" "means_quantity w y"
    then show "im_qty m = y" using fields(13) q unfolding mem(3) means_quantity_def by blast
  qed
qed

text \<open>C20: What the venue understands of a line: for every text of the grammar of flat objects, with any white
  space, escapes, order of the members and further members such as \<open>ts\<close>, each field of the message is
  read from the last member with its name. A line without a text as its \<open>type\<close> is an error; otherwise
  the type is a new order, a cancel, a heartbeat or unknown. The client id and the symbol are set by
  texts, the side by \<open>BUY\<close> and \<open>SELL\<close>, the price by a number with at most two places that fits 32 bits
  in cents, the quantity by a whole number that fits 32 bits; anything else leaves the field unset.\<close>

theorem requests_understood:
  assumes "object_form line kvs"
  shows "let f = map_of (rev kvs); m = parseInbound line in
    im_parseError m = (\<nexists>t. f ''type'' = Some (json_string t)) \<and>
    (\<forall>t. f ''type'' = Some (json_string t) \<longrightarrow>
       im_type m = (if t = ''NEW_ORDER'' then NewOrder else if t = ''CANCEL'' then Cancel
                    else if t = ''HEARTBEAT'' then Heartbeat else Unknown) \<and>
       field_read means_text (f ''client_order_id'') (im_hasClientOrderId m) (im_clientOrderId m) \<and>
       field_read means_text (f ''symbol'') (im_hasSymbol m) (im_symbol m) \<and>
       field_read means_side (f ''side'') (im_hasSide m) (im_side m) \<and>
       field_read means_price (f ''price'') (im_hasPrice m) (im_priceTicks m) \<and>
       field_read means_quantity (f ''qty'') (im_hasQty m) (im_qty m))"
proof (cases "string_member (assign_all [] kvs) ''type''")
  case None
  then have "im_parseError (parseInbound line)" by (simp add: parseInbound_def object_form_parse [OF assms])
  with None show ?thesis unfolding members_of [OF assms refl] Let_def by blast
next
  case (Some t)
  then have "map_of (rev kvs) ''type'' = Some (json_string t)" by (simp only: members_of [OF assms refl])
  with parseInbound_fields(1,2) [OF object_form_parse [OF assms] Some]
    text_fields_read [OF assms Some] number_fields_read [OF assms Some]
  show ?thesis unfolding Let_def by (simp add: msg_type_def)
qed

text \<open>A line as a client may write it: spaces, the members in another order, one place in the price, a time.\<close>

definition demo_line :: string where
  "demo_line = object_text '' '' [(''type'', quoteJson ''NEW_ORDER''), (''ts'', quoteJson ''12:00''), (''price'', ''100.5''),
     (''qty'', ''7''), (''side'', quoteJson ''SELL''), (''symbol'', quoteJson ''ABC'')]"

lemma demo_line_form:
  "object_form demo_line [(''type'', json_string ''NEW_ORDER''), (''ts'', json_string ''12:00''), (''price'', json_number ''100.5''),
     (''qty'', json_number ''7''), (''side'', json_string ''SELL''), (''symbol'', json_string ''ABC'')]"
proof -
  have "number_token (''100'' @ CHR ''.'' # ''5'')" by (rule number_token_decimal) (simp_all add: is_digit_def)
  then have "reads_as ''100.5'' (Some (json_number ''100.5''))" by (simp add: reads_number)
  moreover have "reads_as ''7'' (Some (json_number ''7''))"
    by (rule reads_number, rule number_token_digits) (simp_all add: is_digit_def)
  ultimately show ?thesis
    unfolding demo_line_def
    by (intro object_text_form) (simp_all add: blank_def is_ws_def reads_field_def reads_literal plain_text_Cons is_control_def)
qed

theorem requests_understood_witness:
  "let m = parseInbound demo_line in
    \<not> im_parseError m \<and> im_type m = NewOrder \<and> \<not> im_hasClientOrderId m \<and> im_hasSymbol m \<and> im_symbol m = ''ABC'' \<and>
    im_hasSide m \<and> im_side m = OSell \<and> im_hasPrice m \<and> im_priceTicks m = 10050 \<and> im_hasQty m \<and> im_qty m = 7"
proof -
  note und = requests_understood [OF demo_line_form, unfolded Let_def]
  let ?m = "parseInbound demo_line"
  have ok: "\<not> im_parseError ?m" using und [THEN conjunct1] by simp
  from und [THEN conjunct2, THEN spec, of "''NEW_ORDER''"] have type: "im_type ?m = NewOrder"
    and f: "field_read means_text None (im_hasClientOrderId ?m) (im_clientOrderId ?m)"
    "field_read means_text (Some (json_string ''ABC'')) (im_hasSymbol ?m) (im_symbol ?m)"
    "field_read means_side (Some (json_string ''SELL'')) (im_hasSide ?m) (im_side ?m)"
    "field_read means_price (Some (json_number ''100.5'')) (im_hasPrice ?m) (im_priceTicks ?m)"
    "field_read means_quantity (Some (json_number ''7'')) (im_hasQty ?m) (im_qty ?m)"
    by simp_all
  have "price_value ''100.5'' = Some 10050" by (simp add: price_value_def is_digit_def digit_nat_def)
  then have price: "means_price (json_number ''100.5'') x \<longleftrightarrow> x = 10050" for x
    by (auto simp: means_price_def word_unat_eq_iff)
  have "list_all is_digit ''7'' \<and> dec_value 0 ''7'' = 7" by (simp add: is_digit_def digit_nat_def)
  then have qty: "means_quantity (json_number ''7'') x \<longleftrightarrow> x = 7" for x
    by (auto simp: means_quantity_def word_unat_eq_iff)
  have "im_hasSymbol ?m \<and> im_symbol ?m = ''ABC''" "im_hasSide ?m \<and> im_side ?m = OSell"
    using field_readD(1) [OF f(2), of "''ABC''"] field_readD(1) [OF f(3), of OSell]
    by (simp_all add: means_text_def means_side_def)
  with ok type field_readD(2) [OF f(1)] field_readD(1) [OF f(4), of 10050] field_readD(1) [OF f(5), of 7]
  show ?thesis unfolding Let_def price qty by blast
qed

text \<open>C24: The parser against the grammar of flat objects: a line is accepted exactly when it is a text of the
  grammar, and the map it becomes has each key once, with the value of the last member of that name. Every other
  line becomes a message with the parse error \<open>json\<close>, and no text of the grammar does.\<close>

theorem flat_objects_accepted:
  "(parseFlatObject line = Some obj \<longleftrightarrow> (\<exists>kvs. object_form line kvs \<and> obj = assign_all [] kvs)) \<and>
    um_find (assign_all [] kvs) k = map_of (rev kvs) k \<and> distinct (map fst (assign_all [] kvs)) \<and>
    ((\<nexists>kvs. object_form line kvs) \<longleftrightarrow> im_parseError (parseInbound line) \<and> im_errorDetail (parseInbound line) = ''json'')"
proof -
  have acc: "parseFlatObject line = Some obj \<longleftrightarrow> (\<exists>kvs. object_form line kvs \<and> obj = assign_all [] kvs)" for obj
    using object_form_parse parseFlatObject_form by blast
  have "(\<nexists>kvs. object_form line kvs) \<longleftrightarrow> parseFlatObject line = None"
    using acc by (metis not_Some_eq)
  moreover have "parseFlatObject line = None \<longleftrightarrow>
      im_parseError (parseInbound line) \<and> im_errorDetail (parseInbound line) = ''json''"
    by (rule json_error_iff)
  moreover have "distinct (map fst (assign_all [] kvs))" using assign_all_ok [of "[]" kvs k] by (simp add: um_ok_def)
  ultimately show ?thesis by (intro conjI acc assign_all_find) simp_all
qed

text \<open>The broken-down times that \<open>gmtime_r\<close> gives for the years 0 to 9999.\<close>

definition tm_ok :: "Tm \<Rightarrow> bool" where
  "tm_ok tm \<longleftrightarrow> 0 \<le> tm_year tm + 1900 \<and> tm_year tm + 1900 \<le> 9999 \<and> 0 \<le> tm_mon tm \<and> tm_mon tm \<le> 11 \<and>
     1 \<le> tm_mday tm \<and> tm_mday tm \<le> 31 \<and> 0 \<le> tm_hour tm \<and> tm_hour tm \<le> 23 \<and>
     0 \<le> tm_min tm \<and> tm_min tm \<le> 59 \<and> 0 \<le> tm_sec tm \<and> tm_sec tm \<le> 60"

lemma fmt_int_ok:
  assumes "0 \<le> n" and "n < 10 ^ w" and "0 < w"
  shows "length (fmt_int w n) = w" "list_all is_digit (fmt_int w n)" "dec_value 0 (fmt_int w n) = nat n"
proof -
  have "nat n < 10 ^ w" using assms(1,2) by (simp add: nat_less_iff)
  then show "length (fmt_int w n) = w" using assms by (simp add: fmt_int_def zero_padded_length)
qed (use assms in \<open>simp_all add: fmt_int_def zero_padded_digits zero_padded_value\<close>)

text \<open>A number of a fixed width, with leading zeros.\<close>

definition shows_number :: "nat \<Rightarrow> string \<Rightarrow> int \<Rightarrow> bool" where
  "shows_number w tx n \<longleftrightarrow> length tx = w \<and> list_all is_digit tx \<and> int (dec_value 0 tx) = n"

lemma shows_fmt_int: "0 \<le> n \<Longrightarrow> n < 10 ^ w \<Longrightarrow> 0 < w \<Longrightarrow> shows_number w (fmt_int w n) n"
  by (simp add: shows_number_def fmt_int_ok)

text \<open>C35: Timestamps have the fixed form \<open>YYYY-MM-DDTHH:MM:SS.mmmZ\<close>: the year with four digits, the milliseconds
  with three and the other numbers with two, complete and in this order, with exactly these separators
  between them.\<close>

theorem timestamp_form:
  assumes "tm_ok tm" and "0 \<le> ms" and "ms < 1000"
  shows "\<exists>Y M D h m s f.
    isoTimestampNow tm ms = Y @ ''-'' @ M @ ''-'' @ D @ ''T'' @ h @ '':'' @ m @ '':'' @ s @ ''.'' @ f @ ''Z'' \<and>
    shows_number 4 Y (tm_year tm + 1900) \<and> shows_number 2 M (tm_mon tm + 1) \<and> shows_number 2 D (tm_mday tm) \<and>
    shows_number 2 h (tm_hour tm) \<and> shows_number 2 m (tm_min tm) \<and> shows_number 2 s (tm_sec tm) \<and>
    shows_number 3 f ms"
proof -
  let ?Y = "fmt_int 4 (tm_year tm + 1900)" and ?M = "fmt_int 2 (tm_mon tm + 1)" and ?D = "fmt_int 2 (tm_mday tm)"
    and ?h = "fmt_int 2 (tm_hour tm)" and ?m = "fmt_int 2 (tm_min tm)" and ?s = "fmt_int 2 (tm_sec tm)" and ?f = "fmt_int 3 ms"
  have parts: "shows_number 4 ?Y (tm_year tm + 1900)" "shows_number 2 ?M (tm_mon tm + 1)" "shows_number 2 ?D (tm_mday tm)"
    "shows_number 2 ?h (tm_hour tm)" "shows_number 2 ?m (tm_min tm)" "shows_number 2 ?s (tm_sec tm)" "shows_number 3 ?f ms"
    using assms by (auto simp: tm_ok_def intro!: shows_fmt_int)
  have "isoTimestampNow tm ms =
      ?Y @ ''-'' @ ?M @ ''-'' @ ?D @ ''T'' @ ?h @ '':'' @ ?m @ '':'' @ ?s @ ''.'' @ ?f @ ''Z''"
    unfolding isoTimestampNow_def by (rule take_all) (use parts in \<open>simp add: shows_number_def\<close>)
  with parts show ?thesis by blast
qed

definition demo_tm :: Tm where
  "demo_tm = \<lparr>tm_year = 126, tm_mon = 1, tm_mday = 9, tm_hour = 7, tm_min = 30, tm_sec = 5\<rparr>"

theorem timestamp_form_witness:
  "\<exists>Y M D h m s f.
    isoTimestampNow demo_tm 42 = Y @ ''-'' @ M @ ''-'' @ D @ ''T'' @ h @ '':'' @ m @ '':'' @ s @ ''.'' @ f @ ''Z'' \<and>
    shows_number 4 Y (tm_year demo_tm + 1900) \<and> shows_number 2 M (tm_mon demo_tm + 1) \<and>
    shows_number 2 D (tm_mday demo_tm) \<and> shows_number 2 h (tm_hour demo_tm) \<and> shows_number 2 m (tm_min demo_tm) \<and>
    shows_number 2 s (tm_sec demo_tm) \<and> shows_number 3 f 42"
  by (rule timestamp_form) code_simp+

end
