(* ===== verification/Venue.thy ===== *)
theory Venue
  imports BookTheorems Protocol
begin

text \<open>
  The venue (\<open>venue/venue.h\<close>, \<open>venue/venue.cpp\<close>): the protocol state around the matching core. The
  members other than the book are the record \<open>Tables\<close>, since the trade callback works on them while
  the book is running. What lies outside acts on a state of its own, of any type \<open>'s\<close>: \<open>send\<close> is the
  \<open>SendFn\<close> and \<open>now\<close> one reading of the clock, formatted by \<open>isoTimestampNow\<close>. \<open>ConnId\<close> is \<open>u64\<close>.
\<close>

section \<open>State\<close>

definition kSymbol :: string where
  "kSymbol = ''SIM1''"

datatype OrderState = Resting | Filled | Cancelled

record LiveOrder =
  lo_owner :: u64
  lo_clientOrderId :: string
  lo_exchangeId :: string
  lo_side :: OrderSide
  lo_priceTicks :: u32
  lo_remaining :: u32

record ClientRecord =
  cr_state :: OrderState
  cr_exchangeId :: string
  cr_engineId :: u64

record Tables =
  vt_softCap :: u64
  vt_nextEngineId :: u64
  vt_hasLastTrade :: bool
  vt_lastTradeTicks :: u32
  vt_byEngineId :: "(u64, LiveOrder) umap"
  vt_byConn :: "(u64, (string, ClientRecord) umap) umap"

record Venue =
  v_tables :: Tables
  v_book :: OrderBook

record Top =
  top_hasBid :: bool
  top_bidTicks :: u32
  top_hasAsk :: bool
  top_askTicks :: u32
  top_hasLast :: bool
  top_lastTicks :: u32

definition toEngineSide :: "OrderSide \<Rightarrow> Side" where
  "toEngineSide s = (case s of OBuy \<Rightarrow> Buy | OSell \<Rightarrow> Sell)"

definition Venue_new :: "u64 \<Rightarrow> u64 \<Rightarrow> fault + Venue" where
  "Venue_new bookCapacity softCap =
     bindR (OrderBook_new bookCapacity) (\<lambda>b.
     Inr \<lparr>v_tables = \<lparr>vt_softCap = softCap, vt_nextEngineId = 1, vt_hasLastTrade = False,
            vt_lastTradeTicks = 0, vt_byEngineId = [], vt_byConn = []\<rparr>,
          v_book = b\<rparr>)"

section \<open>Messages\<close>

text \<open>\<open>send_(conn, encode...(..., isoTimestampNow()))\<close>.\<close>

definition deliver :: "(u64 \<Rightarrow> string \<Rightarrow> 's \<Rightarrow> 's) \<Rightarrow> ('s \<Rightarrow> string \<times> 's) \<Rightarrow> u64 \<times> (string \<Rightarrow> string) \<Rightarrow> 's \<Rightarrow> 's" where
  "deliver send now = (\<lambda>(conn, text) s. case now s of (ts, s) \<Rightarrow> send conn (text ts) s)"

section \<open>Trades\<close>

definition routeFill :: "(u64 \<Rightarrow> string \<Rightarrow> 's \<Rightarrow> 's) \<Rightarrow> ('s \<Rightarrow> string \<times> 's) \<Rightarrow> u64 \<Rightarrow> u32 \<Rightarrow> u32 \<Rightarrow>
    Tables \<times> 's \<Rightarrow> Tables \<times> 's" where
  "routeFill send now engineId priceTicks qty = (\<lambda>(T, s).
     case um_find (vt_byEngineId T) engineId of
       None \<Rightarrow> (T, s)
     | Some lo \<Rightarrow>
         let remainingAfter = (if lo_remaining lo > qty then lo_remaining lo - qty else 0);
             s = deliver send now (lo_owner lo,
                   encodeFill (lo_exchangeId lo) (lo_clientOrderId lo) qty priceTicks remainingAfter) s
         in if remainingAfter = 0
            then (T\<lparr>vt_byConn := (case um_find (vt_byConn T) (lo_owner lo) of
                       None \<Rightarrow> vt_byConn T
                     | Some cm \<Rightarrow> (case um_find cm (lo_clientOrderId lo) of
                         None \<Rightarrow> vt_byConn T
                       | Some r \<Rightarrow> um_assign (vt_byConn T) (lo_owner lo)
                           (um_assign cm (lo_clientOrderId lo) (r\<lparr>cr_state := Filled\<rparr>)))),
                    vt_byEngineId := um_erase (vt_byEngineId T) engineId\<rparr>, s)
            else (T\<lparr>vt_byEngineId := um_assign (vt_byEngineId T) engineId
                      (lo\<lparr>lo_remaining := remainingAfter\<rparr>)\<rparr>, s))"

definition onTrade :: "(u64 \<Rightarrow> string \<Rightarrow> 's \<Rightarrow> 's) \<Rightarrow> ('s \<Rightarrow> string \<times> 's) \<Rightarrow> Trade \<Rightarrow> Tables \<times> 's \<Rightarrow> Tables \<times> 's" where
  "onTrade send now t = (\<lambda>(T, s).
     routeFill send now (t_sellOrderId t) (t_price t) (t_quantity t)
       (routeFill send now (t_buyOrderId t) (t_price t) (t_quantity t)
          (T\<lparr>vt_lastTradeTicks := t_price t, vt_hasLastTrade := True\<rparr>, s)))"

section \<open>Requests\<close>

definition wouldSelfCross :: "Tables \<Rightarrow> u64 \<Rightarrow> OrderSide \<Rightarrow> u32 \<Rightarrow> bool" where
  "wouldSelfCross T conn side priceTicks \<longleftrightarrow>
     list_ex (\<lambda>(i, lo). lo_owner lo = conn \<and>
       ((side = OBuy \<and> lo_side lo = OSell \<and> priceTicks \<ge> lo_priceTicks lo) \<or>
        (side = OSell \<and> lo_side lo = OBuy \<and> priceTicks \<le> lo_priceTicks lo))) (vt_byEngineId T)"

text \<open>The admission of a new order, once all checks are passed.\<close>

definition acceptOrder :: "bool \<Rightarrow> (u64 \<Rightarrow> string \<Rightarrow> 's \<Rightarrow> 's) \<Rightarrow> ('s \<Rightarrow> string \<times> 's) \<Rightarrow> u64 \<Rightarrow> InboundMessage \<Rightarrow> string \<Rightarrow>
    Venue \<Rightarrow> 's \<Rightarrow> fault + Venue \<times> 's" where
  "acceptOrder dbg send now conn m ts v s =
     (let T = v_tables v;
          cid = im_clientOrderId m;
          connMap = (case um_find (vt_byConn T) conn of None \<Rightarrow> [] | Some cm \<Rightarrow> cm);
          engineId = vt_nextEngineId T;
          exchangeId = ''e-'' @ to_string (unat engineId);
          T = T\<lparr>vt_nextEngineId := engineId + 1,
                vt_byEngineId := um_assign (vt_byEngineId T) engineId
                  \<lparr>lo_owner = conn, lo_clientOrderId = cid, lo_exchangeId = exchangeId, lo_side = im_side m,
                   lo_priceTicks = im_priceTicks m, lo_remaining = im_qty m\<rparr>,
                vt_byConn := um_assign (vt_byConn T) conn (um_assign connMap cid
                  \<lparr>cr_state = Resting, cr_exchangeId = exchangeId, cr_engineId = engineId\<rparr>)\<rparr>;
          s = send conn (encodeAck cid exchangeId ts) s
      in bindR (addLimitOrder dbg (onTrade send now) (toEngineSide (im_side m)) (im_priceTicks m) (im_qty m)
                  engineId conn (v_book v) (T, s)) (\<lambda>(b, T, s).
         Inr (\<lparr>v_tables = T, v_book = b\<rparr>, s)))"

text \<open>
  \<open>byConn_[conn]\<close> makes an empty map where there is none, before the last three checks.
\<close>

definition handleNewOrder :: "bool \<Rightarrow> (u64 \<Rightarrow> string \<Rightarrow> 's \<Rightarrow> 's) \<Rightarrow> ('s \<Rightarrow> string \<times> 's) \<Rightarrow> u64 \<Rightarrow> InboundMessage \<Rightarrow>
    Venue \<Rightarrow> 's \<Rightarrow> fault + Venue \<times> 's" where
  "handleNewOrder dbg send now conn m v s =
     (case now s of (ts, s) \<Rightarrow>
      let cid = im_clientOrderId m in
      if \<not> im_hasClientOrderId m then Inr (v, send conn (encodeReject '''' ''missing_client_order_id'' ts) s)
      else if \<not> im_hasSymbol m \<or> im_symbol m \<noteq> kSymbol then Inr (v, send conn (encodeReject cid ''unknown_symbol'' ts) s)
      else if \<not> im_hasSide m then Inr (v, send conn (encodeReject cid ''bad_side'' ts) s)
      else if \<not> im_hasPrice m then Inr (v, send conn (encodeReject cid ''bad_price'' ts) s)
      else if \<not> im_hasQty m \<or> im_qty m = 0 then Inr (v, send conn (encodeReject cid ''bad_qty'' ts) s)
      else let T = (v_tables v)\<lparr>vt_byConn := um_emplace (vt_byConn (v_tables v)) conn []\<rparr>;
               v = v\<lparr>v_tables := T\<rparr>;
               connMap = (case um_find (vt_byConn T) conn of None \<Rightarrow> [] | Some cm \<Rightarrow> cm)
      in if um_find connMap cid \<noteq> None then Inr (v, send conn (encodeReject cid ''duplicate_client_order_id'' ts) s)
      else if um_size (vt_byEngineId T) \<ge> unat (vt_softCap T) then Inr (v, send conn (encodeReject cid ''venue_full'' ts) s)
      else if wouldSelfCross T conn (im_side m) (im_priceTicks m)
      then Inr (v, send conn (encodeReject cid ''self_match'' ts) s)
      else acceptOrder dbg send now conn m ts v s)"

definition handleCancel :: "bool \<Rightarrow> (u64 \<Rightarrow> string \<Rightarrow> 's \<Rightarrow> 's) \<Rightarrow> ('s \<Rightarrow> string \<times> 's) \<Rightarrow> u64 \<Rightarrow> InboundMessage \<Rightarrow>
    Venue \<Rightarrow> 's \<Rightarrow> fault + Venue \<times> 's" where
  "handleCancel dbg send now conn m v s =
     (case now s of (ts, s) \<Rightarrow>
      let cid = im_clientOrderId m; T = v_tables v in
      if \<not> im_hasClientOrderId m then Inr (v, send conn (encodeCancelReject '''' ''not_found'' ts) s)
      else (case um_find (vt_byConn T) conn of
        None \<Rightarrow> Inr (v, send conn (encodeCancelReject cid ''not_found'' ts) s)
      | Some cm \<Rightarrow> (case um_find cm cid of
        None \<Rightarrow> Inr (v, send conn (encodeCancelReject cid ''not_found'' ts) s)
      | Some rec \<Rightarrow>
        if cr_state rec = Filled then Inr (v, send conn (encodeCancelReject cid ''already_filled'' ts) s)
        else if cr_state rec = Cancelled then Inr (v, send conn (encodeCancelReject cid ''already_cancelled'' ts) s)
        else bindR (cancelOrder dbg (cr_engineId rec) (v_book v)) (\<lambda>b.
          Inr (\<lparr>v_tables = T\<lparr>vt_byEngineId := um_erase (vt_byEngineId T) (cr_engineId rec),
                             vt_byConn := um_assign (vt_byConn T) conn (um_assign cm cid (rec\<lparr>cr_state := Cancelled\<rparr>))\<rparr>,
                v_book = b\<rparr>,
               send conn (encodeCancelAck cid (cr_exchangeId rec) ts) s)))))"

text \<open>
  The \<open>Unknown\<close> case of the code's \<open>switch\<close> is never reached: the test before it has sent \<open>malformed\<close>.
\<close>

definition handleLine :: "bool \<Rightarrow> (u64 \<Rightarrow> string \<Rightarrow> 's \<Rightarrow> 's) \<Rightarrow> ('s \<Rightarrow> string \<times> 's) \<Rightarrow> u64 \<Rightarrow> string \<Rightarrow>
    Venue \<Rightarrow> 's \<Rightarrow> fault + Venue \<times> 's" where
  "handleLine dbg send now conn text v s =
     (let m = parseInbound text in
      if im_parseError m \<or> im_type m = Unknown
      then Inr (v, deliver send now (conn,
             encodeReject (if im_hasClientOrderId m then im_clientOrderId m else '''') ''malformed'') s)
      else case im_type m of
        NewOrder \<Rightarrow> handleNewOrder dbg send now conn m v s
      | Cancel \<Rightarrow> handleCancel dbg send now conn m v s
      | Heartbeat \<Rightarrow> Inr (v, s)
      | Unknown \<Rightarrow> Inr (v, deliver send now (conn,
             encodeReject (if im_hasClientOrderId m then im_clientOrderId m else '''') ''unsupported'') s))"

text \<open>The ids of the orders a connection owns, and the loop that cancels them.\<close>

definition owned_ids :: "Tables \<Rightarrow> u64 \<Rightarrow> u64 list" where
  "owned_ids T conn = map fst (filter (\<lambda>(i, lo). lo_owner lo = conn) (vt_byEngineId T))"

fun cancel_all :: "bool \<Rightarrow> u64 list \<Rightarrow> Venue \<Rightarrow> fault + Venue" where
  "cancel_all dbg [] v = Inr v"
| "cancel_all dbg (i # ids) v =
     bindR (cancelOrder dbg i (v_book v)) (\<lambda>b.
     cancel_all dbg ids (v\<lparr>v_book := b,
       v_tables := (v_tables v)\<lparr>vt_byEngineId := um_erase (vt_byEngineId (v_tables v)) i\<rparr>\<rparr>))"

definition dropConnection :: "bool \<Rightarrow> u64 \<Rightarrow> Venue \<Rightarrow> fault + Venue" where
  "dropConnection dbg conn v =
     bindR (cancel_all dbg (owned_ids (v_tables v) conn) v) (\<lambda>v.
     Inr (v\<lparr>v_tables := (v_tables v)\<lparr>vt_byConn := um_erase (vt_byConn (v_tables v)) conn\<rparr>\<rparr>))"

definition currentTop :: "Venue \<Rightarrow> Top" where
  "currentTop v =
     (let b = bestBid (v_book v); a = bestAsk (v_book v) in
      \<lparr>top_hasBid = (b \<noteq> None), top_bidTicks = (case b of None \<Rightarrow> 0 | Some pl \<Rightarrow> pl_price pl),
       top_hasAsk = (a \<noteq> None), top_askTicks = (case a of None \<Rightarrow> 0 | Some pl \<Rightarrow> pl_price pl),
       top_hasLast = vt_hasLastTrade (v_tables v), top_lastTicks = vt_lastTradeTicks (v_tables v)\<rparr>)"

end
