(* ===== verification/VenueInv.thy ===== *)
theory VenueInv
  imports Venue
begin

text \<open>
  The invariant of the venue: its tables and the matching core tell the same story. Every resting
  order of the core has exactly one entry in \<open>byEngineId_\<close>, with the same owner, side, price and
  remaining quantity, and exactly one record in state \<open>Resting\<close> among those of its owner; and the
  other way round. The lemmas run one fill and then a whole list of fills over the tables.
\<close>

section \<open>Lookups\<close>

definition record_of :: "Tables \<Rightarrow> u64 \<Rightarrow> string \<Rightarrow> ClientRecord option" where
  "record_of T conn cid =
     (case um_find (vt_byConn T) conn of None \<Rightarrow> None | Some cm \<Rightarrow> um_find cm cid)"

definition live_of :: "Tables \<Rightarrow> u64 \<Rightarrow> LiveOrder option" where
  "live_of T i = um_find (vt_byEngineId T) i"

definition ord_map :: "Order list \<Rightarrow> u64 \<Rightarrow> Order option" where
  "ord_map xs = map_of (map (\<lambda>x. (o_orderId x, x)) xs)"

definition exchange_id :: "u64 \<Rightarrow> string" where
  "exchange_id i = ''e-'' @ to_string (unat i)"

definition maps_ok :: "Tables \<Rightarrow> bool" where
  "maps_ok T \<longleftrightarrow> um_ok (vt_byEngineId T) \<and> um_ok (vt_byConn T) \<and> (\<forall>(c, cm) \<in> set (vt_byConn T). um_ok cm)"

lemma ord_map_simps [simp]:
  "ord_map [] = (\<lambda>j. None)" "ord_map (x # xs) = (ord_map xs)(o_orderId x := Some x)"
  by (auto simp: ord_map_def)

lemma ord_map_None: "ord_map xs i = None \<longleftrightarrow> i \<notin> o_orderId ` set xs"
  by (simp add: ord_map_def map_of_eq_None_iff image_image)

lemma ord_map_Some: "distinct (map o_orderId xs) \<Longrightarrow> ord_map xs i = Some x \<longleftrightarrow> x \<in> set xs \<and> o_orderId x = i"
  by (subst ord_map_def, subst map_of_eq_Some_iff) (auto simp: comp_def)

lemma ord_map_set:
  assumes "distinct (map o_orderId xs)" and "distinct (map o_orderId ys)" and "set xs = set ys"
  shows "ord_map xs = ord_map ys"
proof (rule ext)
  fix i
  have "ord_map xs i = Some x \<longleftrightarrow> ord_map ys i = Some x" for x
    using assms by (simp add: ord_map_Some)
  then show "ord_map xs i = ord_map ys i" by (metis not_Some_eq)
qed

lemma live_of_fields [simp]:
  "live_of (T\<lparr>vt_softCap := a\<rparr>) = live_of T" "live_of (T\<lparr>vt_nextEngineId := b\<rparr>) = live_of T"
  "live_of (T\<lparr>vt_hasLastTrade := c\<rparr>) = live_of T" "live_of (T\<lparr>vt_lastTradeTicks := d\<rparr>) = live_of T"
  "live_of (T\<lparr>vt_byConn := e\<rparr>) = live_of T"
  by (simp_all add: live_of_def fun_eq_iff)

lemma record_of_fields [simp]:
  "record_of (T\<lparr>vt_softCap := a\<rparr>) = record_of T" "record_of (T\<lparr>vt_nextEngineId := b\<rparr>) = record_of T"
  "record_of (T\<lparr>vt_hasLastTrade := c\<rparr>) = record_of T" "record_of (T\<lparr>vt_lastTradeTicks := d\<rparr>) = record_of T"
  "record_of (T\<lparr>vt_byEngineId := e\<rparr>) = record_of T"
  by (simp_all add: record_of_def fun_eq_iff)

lemma maps_ok_conn: "maps_ok T \<Longrightarrow> um_find (vt_byConn T) conn = Some cm \<Longrightarrow> um_ok cm"
  using um_entry [of "vt_byConn T" conn cm] by (auto simp: maps_ok_def)

lemma maps_ok_alt:
  "maps_ok T \<longleftrightarrow> um_ok (vt_byEngineId T) \<and> um_ok (vt_byConn T) \<and>
     (\<forall>c cm. um_find (vt_byConn T) c = Some cm \<longrightarrow> um_ok cm)"
  by (auto simp: maps_ok_def um_entry)

text \<open>Writing one record, one live order, or taking a live order out.\<close>

lemma set_record:
  assumes "maps_ok T" and "um_find (vt_byConn T) conn = Some cm"
  shows "maps_ok (T\<lparr>vt_byConn := um_assign (vt_byConn T) conn (um_assign cm cid r)\<rparr>)"
    and "record_of (T\<lparr>vt_byConn := um_assign (vt_byConn T) conn (um_assign cm cid r)\<rparr>) c k =
      (if c = conn \<and> k = cid then Some r else record_of T c k)"
  using assms maps_ok_conn [OF assms]
  by (auto simp: maps_ok_alt record_of_def um_simps)

lemma set_live:
  assumes "maps_ok T"
  shows "maps_ok (T\<lparr>vt_byEngineId := um_assign (vt_byEngineId T) i lo\<rparr>)"
    and "maps_ok (T\<lparr>vt_byEngineId := um_erase (vt_byEngineId T) i\<rparr>)"
    and "live_of (T\<lparr>vt_byEngineId := um_assign (vt_byEngineId T) i lo\<rparr>) = (live_of T)(i := Some lo)"
    and "live_of (T\<lparr>vt_byEngineId := um_erase (vt_byEngineId T) i\<rparr>) = (live_of T)(i := None)"
  using assms by (auto simp: maps_ok_def live_of_def um_simps fun_eq_iff)

section \<open>The invariant\<close>

definition shows_order :: "LiveOrder \<Rightarrow> Order \<Rightarrow> bool" where
  "shows_order lo x \<longleftrightarrow> lo_exchangeId lo = exchange_id (o_orderId x) \<and> lo_owner lo = o_participantId x \<and>
     toEngineSide (lo_side lo) = o_side x \<and> lo_priceTicks lo = o_price x \<and> lo_remaining lo = o_quantity x \<and>
     0 < o_quantity x"

definition live_synced :: "Tables \<Rightarrow> (u64 \<Rightarrow> Order option) \<Rightarrow> bool" where
  "live_synced T live \<longleftrightarrow>
     (\<forall>i. rel_option (\<lambda>lo x. shows_order lo x \<and> o_orderId x = i) (live_of T i) (live i))"

definition resting_record :: "u64 \<Rightarrow> LiveOrder \<Rightarrow> ClientRecord" where
  "resting_record i lo = \<lparr>cr_state = Resting, cr_exchangeId = lo_exchangeId lo, cr_engineId = i\<rparr>"

definition records_synced :: "Tables \<Rightarrow> bool" where
  "records_synced T \<longleftrightarrow>
     (\<forall>i lo. live_of T i = Some lo \<longrightarrow>
        record_of T (lo_owner lo) (lo_clientOrderId lo) = Some (resting_record i lo)) \<and>
     (\<forall>c k r. record_of T c k = Some r \<and> cr_state r = Resting \<longrightarrow>
        (\<exists>lo. live_of T (cr_engineId r) = Some lo \<and> lo_owner lo = c \<and> lo_clientOrderId lo = k))"

definition tables_rep :: "Tables \<Rightarrow> (u64 \<Rightarrow> Order option) \<Rightarrow> bool" where
  "tables_rep T live \<longleftrightarrow> maps_ok T \<and> live_synced T live \<and> records_synced T"

text \<open>The same as a check that runs over the entries.\<close>

definition tables_match :: "Tables \<Rightarrow> Order list \<Rightarrow> bool" where
  "tables_match T xs \<longleftrightarrow> maps_ok T \<and>
     list_all (\<lambda>(i, lo). (case ord_map xs i of None \<Rightarrow> False | Some x \<Rightarrow> shows_order lo x \<and> o_orderId x = i) \<and>
       record_of T (lo_owner lo) (lo_clientOrderId lo) = Some (resting_record i lo)) (vt_byEngineId T) \<and>
     list_all (\<lambda>x. live_of T (o_orderId x) \<noteq> None) xs \<and>
     list_all (\<lambda>(c, cm). list_all (\<lambda>(k, r). cr_state r = Resting \<longrightarrow>
       (case live_of T (cr_engineId r) of None \<Rightarrow> False
        | Some lo \<Rightarrow> lo_owner lo = c \<and> lo_clientOrderId lo = k)) cm) (vt_byConn T)"

definition venue_inv :: "Venue \<Rightarrow> bool" where
  "venue_inv v \<longleftrightarrow> (let T = v_tables v; sb = abs_book (v_book v) in
     book_inv (v_book v) \<and> spec_ok sb \<and> tables_match T (spec_orders sb) \<and>
     um_size (vt_byEngineId T) \<le> unat (vt_softCap T) \<and>
     unat (vt_softCap T) < unat (op_capacity (ob_pool (v_book v))) \<and>
     vt_nextEngineId T = sb_sequence sb + 1 \<and> vt_nextEngineId T \<noteq> 0 \<and>
     list_all (\<lambda>x. o_orderId x < vt_nextEngineId T) (spec_orders sb))"

lemma records_entries:
  assumes "maps_ok T"
  shows "(\<forall>(c, cm) \<in> set (vt_byConn T). \<forall>(k, r) \<in> set cm. P c k r) \<longleftrightarrow>
    (\<forall>c k r. record_of T c k = Some r \<longrightarrow> P c k r)"
proof -
  have "(c, cm) \<in> set (vt_byConn T) \<and> (k, r) \<in> set cm \<longleftrightarrow>
      um_find (vt_byConn T) c = Some cm \<and> um_find cm k = Some r" for c cm k r
    using assms by (auto simp: maps_ok_alt um_entry)
  then have "record_of T c k = Some r \<longleftrightarrow> (\<exists>cm. (c, cm) \<in> set (vt_byConn T) \<and> (k, r) \<in> set cm)" for c k r
    by (auto simp: record_of_def split: option.splits)
  then show ?thesis by (simp add: Ball_def) blast
qed

lemma tables_match_rep:
  assumes "distinct (map o_orderId xs)"
  shows "tables_match T xs \<longleftrightarrow> tables_rep T (ord_map xs)"
proof (cases "maps_ok T")
  case True
  then have entry: "(i, lo) \<in> set (vt_byEngineId T) \<longleftrightarrow> live_of T i = Some lo" for i lo
    by (simp add: maps_ok_def live_of_def um_entry)
  have dom: "(\<forall>x \<in> set xs. live_of T (o_orderId x) \<noteq> None) \<longleftrightarrow> (\<forall>i. live_of T i = None \<longrightarrow> ord_map xs i = None)"
    by (auto simp: ord_map_None)
  have point: "rel_option (\<lambda>lo x. shows_order lo x \<and> o_orderId x = i) (live_of T i) (ord_map xs i) \<longleftrightarrow>
      (\<forall>lo. live_of T i = Some lo \<longrightarrow>
         (case ord_map xs i of None \<Rightarrow> False | Some x \<Rightarrow> shows_order lo x \<and> o_orderId x = i)) \<and>
      (live_of T i = None \<longrightarrow> ord_map xs i = None)" for i
    by (cases "live_of T i"; cases "ord_map xs i") auto
  have sync: "live_synced T (ord_map xs) \<longleftrightarrow>
      (\<forall>i lo. live_of T i = Some lo \<longrightarrow>
         (case ord_map xs i of None \<Rightarrow> False | Some x \<Rightarrow> shows_order lo x \<and> o_orderId x = i)) \<and>
      (\<forall>i. live_of T i = None \<longrightarrow> ord_map xs i = None)"
    unfolding live_synced_def point by blast
  have live: "(case live_of T i of None \<Rightarrow> False | Some lo \<Rightarrow> lo_owner lo = c \<and> lo_clientOrderId lo = k) \<longleftrightarrow>
      (\<exists>lo. live_of T i = Some lo \<and> lo_owner lo = c \<and> lo_clientOrderId lo = k)" for i c k
    by (cases "live_of T i") auto
  have recs: "list_all (\<lambda>(c, cm). list_all (\<lambda>(k, r). cr_state r = Resting \<longrightarrow>
       (case live_of T (cr_engineId r) of None \<Rightarrow> False
        | Some lo \<Rightarrow> lo_owner lo = c \<and> lo_clientOrderId lo = k)) cm) (vt_byConn T) \<longleftrightarrow>
     (\<forall>c k r. record_of T c k = Some r \<longrightarrow> cr_state r = Resting \<longrightarrow>
        (\<exists>lo. live_of T (cr_engineId r) = Some lo \<and> lo_owner lo = c \<and> lo_clientOrderId lo = k))"
    unfolding records_entries [OF True, symmetric] list_all_iff live by (simp add: case_prod_unfold)
  show ?thesis
    unfolding tables_match_def recs unfolding tables_rep_def records_synced_def sync list_all_iff dom Ball_def
    using dom by (simp add: True entry Ball_def) blast
qed (simp add: tables_match_def tables_rep_def)

section \<open>One change of the tables\<close>

lemma tables_rep_live:
  assumes "tables_rep T live" and "live i = Some x"
  obtains lo where "live_of T i = Some lo" and "shows_order lo x" and "o_orderId x = i"
    and "record_of T (lo_owner lo) (lo_clientOrderId lo) = Some (resting_record i lo)"
proof -
  have "rel_option (\<lambda>lo x. shows_order lo x \<and> o_orderId x = i) (live_of T i) (live i)"
    using assms(1) by (simp add: tables_rep_def live_synced_def)
  with assms(2) obtain lo where "live_of T i = Some lo" "shows_order lo x" "o_orderId x = i"
    by (auto simp: option_rel_Some2)
  moreover from this have "record_of T (lo_owner lo) (lo_clientOrderId lo) = Some (resting_record i lo)"
    using assms(1) by (simp add: tables_rep_def records_synced_def)
  ultimately show thesis by (rule that)
qed

lemma tables_rep_dead: "tables_rep T live \<Longrightarrow> live i = None \<longleftrightarrow> live_of T i = None"
proof -
  assume "tables_rep T live"
  then have "rel_option (\<lambda>lo x. shows_order lo x \<and> o_orderId x = i) (live_of T i) (live i)"
    by (simp add: tables_rep_def live_synced_def)
  then show ?thesis by (cases "live_of T i"; cases "live i") auto
qed

lemma records_live: "records_synced T \<Longrightarrow> live_of T i = Some lo \<Longrightarrow>
    record_of T (lo_owner lo) (lo_clientOrderId lo) = Some (resting_record i lo)"
  by (simp add: records_synced_def)

lemma records_resting: "records_synced T \<Longrightarrow> record_of T c k = Some r \<Longrightarrow> cr_state r = Resting \<Longrightarrow>
    live_of T (cr_engineId r) = Some lo \<Longrightarrow> lo_owner lo = c \<and> lo_clientOrderId lo = k"
  unfolding records_synced_def by (metis option.inject)

lemma records_syncedI:
  assumes "\<And>i lo. live_of T i = Some lo \<Longrightarrow>
      record_of T (lo_owner lo) (lo_clientOrderId lo) = Some (resting_record i lo)"
    and "\<And>c k r. record_of T c k = Some r \<Longrightarrow> cr_state r = Resting \<Longrightarrow>
      \<exists>lo. live_of T (cr_engineId r) = Some lo \<and> lo_owner lo = c \<and> lo_clientOrderId lo = k"
  shows "records_synced T"
  using assms by (simp add: records_synced_def)

lemma records_owner: "records_synced T \<Longrightarrow> record_of T c k = Some r \<Longrightarrow> cr_state r = Resting \<Longrightarrow>
    \<exists>lo. live_of T (cr_engineId r) = Some lo \<and> lo_owner lo = c \<and> lo_clientOrderId lo = k"
  by (simp add: records_synced_def)

lemma live_synced_update:
  assumes "live_synced T live" and "live_of T' = (live_of T)(i := a)"
    and "rel_option (\<lambda>lo x. shows_order lo x \<and> o_orderId x = i) a b"
  shows "live_synced T' (live(i := b))"
  using assms by (simp add: live_synced_def)

text \<open>Two live orders never share a client order id of one owner.\<close>

lemma tables_rep_inj:
  assumes "tables_rep T live" "live_of T i = Some lo" "live_of T j = Some lo'"
    and "lo_owner lo = lo_owner lo'" "lo_clientOrderId lo = lo_clientOrderId lo'"
  shows "i = j"
proof -
  have "record_of T (lo_owner lo) (lo_clientOrderId lo) = Some (resting_record i lo)"
    and "record_of T (lo_owner lo') (lo_clientOrderId lo') = Some (resting_record j lo')"
    using assms(1-3) by (auto simp: tables_rep_def records_synced_def)
  with assms(4,5) show ?thesis by (simp add: resting_record_def)
qed

lemma tables_rep_shrink:
  assumes rep: "tables_rep T live" and x: "live i = Some x" and lo: "live_of T i = Some lo" and q: "0 < q"
  shows "tables_rep (T\<lparr>vt_byEngineId := um_assign (vt_byEngineId T) i (lo\<lparr>lo_remaining := q\<rparr>)\<rparr>)
    (live(i := Some (x\<lparr>o_quantity := q\<rparr>)))"
proof -
  let ?T = "T\<lparr>vt_byEngineId := um_assign (vt_byEngineId T) i (lo\<lparr>lo_remaining := q\<rparr>)\<rparr>"
  have ok: "maps_ok T" and sync: "live_synced T live" and recs: "records_synced T"
    using rep by (simp_all add: tables_rep_def)
  note s = set_live [OF ok]
  have "shows_order lo x" "o_orderId x = i"
    using tables_rep_live [OF rep x] lo by auto
  then have "live_synced ?T (live(i := Some (x\<lparr>o_quantity := q\<rparr>)))"
    using q by (intro live_synced_update [OF sync s(3)]) (auto simp: shows_order_def)
  moreover have "records_synced ?T"
  proof (rule records_syncedI, unfold s(3) record_of_fields)
    fix j lo'
    assume "((live_of T)(i \<mapsto> lo\<lparr>lo_remaining := q\<rparr>)) j = Some lo'"
    then show "record_of T (lo_owner lo') (lo_clientOrderId lo') = Some (resting_record j lo')"
      using records_live [OF recs] lo by (auto simp: resting_record_def split: if_splits)
  next
    fix c k r
    assume "record_of T c k = Some r" "cr_state r = Resting"
    from records_owner [OF recs this] lo show "\<exists>lo'. ((live_of T)(i \<mapsto> lo\<lparr>lo_remaining := q\<rparr>)) (cr_engineId r) = Some lo' \<and>
      lo_owner lo' = c \<and> lo_clientOrderId lo' = k" by auto
  qed
  ultimately show ?thesis using s(1) by (simp add: tables_rep_def)
qed

lemma tables_rep_close:
  assumes rep: "tables_rep T live" and lo: "live_of T i = Some lo"
    and cm: "um_find (vt_byConn T) (lo_owner lo) = Some cm" and st: "cr_state r \<noteq> Resting"
    and T': "T' = T\<lparr>vt_byConn := um_assign (vt_byConn T) (lo_owner lo) (um_assign cm (lo_clientOrderId lo) r),
                   vt_byEngineId := um_erase (vt_byEngineId T) i\<rparr>"
  shows "tables_rep T' (live(i := None))" and "live_of T' = (live_of T)(i := None)"
    and "record_of T' c k = (if c = lo_owner lo \<and> k = lo_clientOrderId lo then Some r else record_of T c k)"
proof -
  let ?T1 = "T\<lparr>vt_byConn := um_assign (vt_byConn T) (lo_owner lo) (um_assign cm (lo_clientOrderId lo) r)\<rparr>"
  have ok: "maps_ok T" and sync: "live_synced T live" and recs: "records_synced T"
    using rep by (simp_all add: tables_rep_def)
  have eq: "T' = ?T1\<lparr>vt_byEngineId := um_erase (vt_byEngineId ?T1) i\<rparr>" by (simp add: T')
  note r = set_record [OF ok cm, of "lo_clientOrderId lo" r]
  note s = set_live [OF r(1)]
  show live: "live_of T' = (live_of T)(i := None)" unfolding eq s(4) by simp
  show rec: "record_of T' c k = (if c = lo_owner lo \<and> k = lo_clientOrderId lo then Some r else record_of T c k)" for c k
    unfolding eq using r(2) by simp
  have "records_synced T'"
  proof (rule records_syncedI, unfold live rec)
    fix j lo'
    assume "((live_of T)(i := None)) j = Some lo'"
    then have "j \<noteq> i" and lo': "live_of T j = Some lo'" by (auto split: if_splits)
    then have "\<not> (lo_owner lo' = lo_owner lo \<and> lo_clientOrderId lo' = lo_clientOrderId lo)"
      using tables_rep_inj [OF rep lo' lo] by blast
    then show "(if lo_owner lo' = lo_owner lo \<and> lo_clientOrderId lo' = lo_clientOrderId lo then Some r
        else record_of T (lo_owner lo') (lo_clientOrderId lo')) = Some (resting_record j lo')"
      using records_live [OF recs lo'] by auto
  next
    fix c k r'
    assume a: "(if c = lo_owner lo \<and> k = lo_clientOrderId lo then Some r else record_of T c k) = Some r'"
      and "cr_state r' = Resting"
    with st have n: "\<not> (c = lo_owner lo \<and> k = lo_clientOrderId lo)" by auto
    with a have "record_of T c k = Some r'" by auto
    from records_owner [OF recs this \<open>cr_state r' = Resting\<close>] n lo
    show "\<exists>lo'. ((live_of T)(i := None)) (cr_engineId r') = Some lo' \<and> lo_owner lo' = c \<and> lo_clientOrderId lo' = k"
      by (cases "cr_engineId r' = i") auto
  qed
  moreover have "live_synced T' (live(i := None))"
    by (rule live_synced_update [OF sync live]) simp
  moreover have "maps_ok T'" unfolding eq using s(2) .
  ultimately show "tables_rep T' (live(i := None))" by (simp add: tables_rep_def)
qed

section \<open>What a fill changes\<close>

text \<open>
  Fills only lower what remains of live orders and take live orders out; the records of those that
  are out are \<open>Filled\<close>, and everything else stays.
\<close>

definition filled_record :: "Tables \<Rightarrow> ClientRecord \<Rightarrow> ClientRecord" where
  "filled_record T r =
     (if cr_state r = Resting \<and> live_of T (cr_engineId r) = None then r\<lparr>cr_state := Filled\<rparr> else r)"

definition fills_step :: "Tables \<Rightarrow> Tables \<Rightarrow> bool" where
  "fills_step T T' \<longleftrightarrow> vt_softCap T' = vt_softCap T \<and> vt_nextEngineId T' = vt_nextEngineId T \<and>
     (\<forall>j lo'. live_of T' j = Some lo' \<longrightarrow>
        (\<exists>lo. live_of T j = Some lo \<and> lo' = lo\<lparr>lo_remaining := lo_remaining lo'\<rparr>)) \<and>
     (\<forall>c k. record_of T' c k = map_option (filled_record T') (record_of T c k))"

lemma fills_stepD:
  assumes "fills_step T T'"
  shows "vt_softCap T' = vt_softCap T" "vt_nextEngineId T' = vt_nextEngineId T"
    and "live_of T' j = Some lo' \<Longrightarrow> \<exists>lo. live_of T j = Some lo \<and> lo' = lo\<lparr>lo_remaining := lo_remaining lo'\<rparr>"
    and "record_of T' c k = map_option (filled_record T') (record_of T c k)"
  using assms by (simp_all add: fills_step_def)

lemma fills_step_refl:
  assumes "records_synced T" and "vt_softCap T' = vt_softCap T" "vt_nextEngineId T' = vt_nextEngineId T"
    and "live_of T' = live_of T" "record_of T' = record_of T"
  shows "fills_step T T'"
proof -
  have "filled_record T' r = r" if "record_of T c k = Some r" for c k r
    using records_owner [OF assms(1) that] by (auto simp: filled_record_def assms(4))
  then have "record_of T c k = map_option (filled_record T') (record_of T c k)" for c k
    by (cases "record_of T c k") auto
  then show ?thesis
    using assms(2-5) by (simp add: fills_step_def)
qed

lemma fills_step_trans:
  assumes "fills_step T T1" and "fills_step T1 T2"
  shows "fills_step T T2"
proof -
  have live: "\<exists>lo. live_of T j = Some lo \<and> lo2 = lo\<lparr>lo_remaining := lo_remaining lo2\<rparr>"
    if "live_of T2 j = Some lo2" for j lo2
  proof -
    obtain lo1 where lo1: "live_of T1 j = Some lo1" "lo2 = lo1\<lparr>lo_remaining := lo_remaining lo2\<rparr>"
      using fills_stepD(3) [OF assms(2) \<open>live_of T2 j = Some lo2\<close>] by blast
    moreover obtain lo where "live_of T j = Some lo" "lo1 = lo\<lparr>lo_remaining := lo_remaining lo1\<rparr>"
      using fills_stepD(3) [OF assms(1) lo1(1)] by blast
    ultimately show ?thesis by (cases lo, cases lo1, cases lo2) simp
  qed
  have "live_of T1 j = None \<Longrightarrow> live_of T2 j = None" for j
    using fills_stepD(3) [OF assms(2), of j] by (cases "live_of T2 j") auto
  then have "filled_record T2 (filled_record T1 r) = filled_record T2 r" for r
    by (simp add: filled_record_def)
  then have "record_of T2 c k = map_option (filled_record T2) (record_of T c k)" for c k
    by (simp add: fills_stepD(4) [OF assms(1)] fills_stepD(4) [OF assms(2)] option.map_comp comp_def)
  with live show ?thesis
    by (simp add: fills_step_def fills_stepD(1,2) [OF assms(1)] fills_stepD(1,2) [OF assms(2)])
qed

definition named :: "Tables \<Rightarrow> (u64 \<Rightarrow> string) \<Rightarrow> bool" where
  "named T cidf \<longleftrightarrow> (\<forall>j lo. live_of T j = Some lo \<longrightarrow> lo_clientOrderId lo = cidf j)"

lemma fills_step_named: "fills_step T T' \<Longrightarrow> named T cidf \<Longrightarrow> named T' cidf"
proof -
  assume step: "fills_step T T'" and n: "named T cidf"
  have "lo_clientOrderId lo' = cidf j" if "live_of T' j = Some lo'" for j lo'
  proof -
    obtain lo where "live_of T j = Some lo" "lo' = lo\<lparr>lo_remaining := lo_remaining lo'\<rparr>"
      using fills_stepD(3) [OF step \<open>live_of T' j = Some lo'\<close>] by blast
    moreover from this have "lo_clientOrderId lo' = lo_clientOrderId lo"
      by (metis LiveOrder.select_convs(2) LiveOrder.surjective LiveOrder.update_convs(6))
    ultimately show ?thesis using n by (simp add: named_def)
  qed
  then show ?thesis by (simp add: named_def)
qed

text \<open>\<open>routeFill\<close> for a live order of which \<open>q\<close> is left afterwards.\<close>

definition left_over :: "Order \<Rightarrow> u32 \<Rightarrow> Order option" where
  "left_over x q = (if q = 0 then None else Some (x\<lparr>o_quantity := q\<rparr>))"

lemma routeFill_run:
  assumes rep: "tables_rep T live" and x: "live i = Some x" and f: "f \<le> o_quantity x" and named: "named T cidf"
  obtains T' where "routeFill send now i p f (T, s) = (T', deliver send now (o_participantId x,
      encodeFill (exchange_id i) (cidf i) f p (o_quantity x - f)) s)"
    and "tables_rep T' (live(i := left_over x (o_quantity x - f)))" and "fills_step T T'"
    and "vt_hasLastTrade T' = vt_hasLastTrade T" and "vt_lastTradeTicks T' = vt_lastTradeTicks T"
proof -
  obtain lo where lo: "live_of T i = Some lo" "shows_order lo x" "o_orderId x = i"
    and rec: "record_of T (lo_owner lo) (lo_clientOrderId lo) = Some (resting_record i lo)"
    using tables_rep_live [OF rep x] .
  have find: "um_find (vt_byEngineId T) i = Some lo" using lo(1) by (simp add: live_of_def)
  have fields: "lo_exchangeId lo = exchange_id i" "lo_clientOrderId lo = cidf i" "lo_owner lo = o_participantId x"
    "lo_remaining lo = o_quantity x"
    using lo named by (auto simp: shows_order_def named_def)
  have left: "(if lo_remaining lo > f then lo_remaining lo - f else 0) = o_quantity x - f"
    using f fields by auto
  have ok: "maps_ok T" and recs: "records_synced T" using rep by (simp_all add: tables_rep_def)
  show thesis
  proof (cases "o_quantity x - f = 0")
    case True
    obtain cm where cm: "um_find (vt_byConn T) (lo_owner lo) = Some cm" "um_find cm (lo_clientOrderId lo) = Some (resting_record i lo)"
      using rec by (auto simp: record_of_def split: option.splits)
    let ?r = "resting_record i lo\<lparr>cr_state := Filled\<rparr>"
    define T' where "T' = T\<lparr>vt_byConn := um_assign (vt_byConn T) (lo_owner lo) (um_assign cm (lo_clientOrderId lo) ?r),
                vt_byEngineId := um_erase (vt_byEngineId T) i\<rparr>"
    note c = tables_rep_close [OF rep lo(1) cm(1) _ T'_def, simplified]
    have "fills_step T T'"
    proof -
      have "record_of T' k l = map_option (filled_record T') (record_of T k l)" for k l
      proof (cases "k = lo_owner lo \<and> l = lo_clientOrderId lo")
        case True
        then show ?thesis using rec by (simp add: c(3) filled_record_def c(2) resting_record_def)
      next
        case False
        then have "filled_record T' r = r" if "record_of T k l = Some r" for r
          using records_owner [OF recs that] lo(1) by (auto simp: filled_record_def c(2))
        with False show ?thesis by (cases "record_of T k l") (auto simp: c(3))
      qed
      moreover have "\<exists>lo. live_of T j = Some lo \<and> lo' = lo\<lparr>lo_remaining := lo_remaining lo'\<rparr>"
        if "live_of T' j = Some lo'" for j lo'
        using that by (auto simp: c(2) split: if_splits)
      moreover have "vt_softCap T' = vt_softCap T" "vt_nextEngineId T' = vt_nextEngineId T" by (simp_all add: T'_def)
      ultimately show ?thesis by (simp add: fills_step_def)
    qed
    moreover have "routeFill send now i p f (T, s) = (T', deliver send now (o_participantId x,
      encodeFill (exchange_id i) (cidf i) f p (o_quantity x - f)) s)"
      using True left fields cm find by (simp add: routeFill_def Let_def T'_def)
    moreover have "tables_rep T' (live(i := left_over x (o_quantity x - f)))"
      using c(1) True by (simp add: left_over_def)
    ultimately show thesis by (intro that [of T']) (simp_all add: T'_def)
  next
    case False
    let ?T = "T\<lparr>vt_byEngineId := um_assign (vt_byEngineId T) i (lo\<lparr>lo_remaining := o_quantity x - f\<rparr>)\<rparr>"
    note s = set_live [OF ok]
    have "fills_step T ?T"
    proof -
      have "filled_record ?T r = r" if "record_of T k l = Some r" for k l r
        using records_owner [OF recs that] by (auto simp: filled_record_def s(3))
      then have "record_of T k l = map_option (filled_record ?T) (record_of T k l)" for k l
        by (cases "record_of T k l") auto
      then show ?thesis using lo(1) by (auto simp: fills_step_def s(3))
    qed
    moreover have "routeFill send now i p f (T, s) = (?T, deliver send now (o_participantId x,
      encodeFill (exchange_id i) (cidf i) f p (o_quantity x - f)) s)"
      using False left fields find by (simp add: routeFill_def Let_def)
    moreover have "tables_rep ?T (live(i := left_over x (o_quantity x - f)))"
      using tables_rep_shrink [OF rep x lo(1)] False by (simp add: left_over_def word_gt_0)
    ultimately show thesis by (intro that [of ?T]) simp_all
  qed
qed

end
