(* ===== verification/VenueFills.thy ===== *)
theory VenueFills
  imports VenueInv
begin

text \<open>
  The trades of one incoming order over the tables of the venue: which messages go out and in which
  order, and that the tables follow the book through all of them.
\<close>

section \<open>The messages of a list of fills\<close>

text \<open>
  The taker has id \<open>i\<close>, owner \<open>pid\<close> and \<open>q\<close> left. The buyer's report goes out before the seller's.
\<close>

fun fill_msgs :: "Side \<Rightarrow> (u64 \<Rightarrow> string) \<Rightarrow> u64 \<Rightarrow> u64 \<Rightarrow> u32 \<Rightarrow> (Order \<times> u32) list \<Rightarrow> (u64 \<times> (string \<Rightarrow> string)) list" where
  "fill_msgs side cidf i pid q [] = []"
| "fill_msgs side cidf i pid q ((r, f) # fs) =
     (let own = (pid, encodeFill (exchange_id i) (cidf i) f (o_price r) (q - f));
          opp = (o_participantId r, encodeFill (exchange_id (o_orderId r)) (cidf (o_orderId r)) f (o_price r)
                   (o_quantity r - f))
      in (case side of Buy \<Rightarrow> [own, opp] | Sell \<Rightarrow> [opp, own])) @ fill_msgs side cidf i pid (q - f) fs"

definition side_trade :: "Side \<Rightarrow> u64 \<Rightarrow> u64 \<Rightarrow> u32 \<Rightarrow> u32 \<Rightarrow> Trade" where
  "side_trade side = (case side of Buy \<Rightarrow> buy_trade | Sell \<Rightarrow> sell_trade)"

section \<open>One trade\<close>

lemma left_over_update [simp]: "left_over (x\<lparr>o_quantity := q\<rparr>) q' = left_over x q'"
  by (cases x) (simp add: left_over_def)

lemma onTrade_pair:
  assumes rep: "tables_rep T live" and named: "named T cidf"
    and x: "live (t_buyOrderId t) = Some x" and y: "live (t_sellOrderId t) = Some y"
    and ne: "t_buyOrderId t \<noteq> t_sellOrderId t" and f: "t_quantity t \<le> o_quantity x" "t_quantity t \<le> o_quantity y"
  obtains T' where "onTrade send now t (T, s) = (T', fold (deliver send now)
      [(o_participantId x, encodeFill (exchange_id (t_buyOrderId t)) (cidf (t_buyOrderId t)) (t_quantity t) (t_price t)
          (o_quantity x - t_quantity t)),
       (o_participantId y, encodeFill (exchange_id (t_sellOrderId t)) (cidf (t_sellOrderId t)) (t_quantity t) (t_price t)
          (o_quantity y - t_quantity t))] s)"
    and "tables_rep T' (live(t_buyOrderId t := left_over x (o_quantity x - t_quantity t),
      t_sellOrderId t := left_over y (o_quantity y - t_quantity t)))"
    and "fills_step T T'" and "vt_hasLastTrade T'" and "vt_lastTradeTicks T' = t_price t"
proof -
  let ?T = "T\<lparr>vt_lastTradeTicks := t_price t, vt_hasLastTrade := True\<rparr>"
  have rep0: "tables_rep ?T live"
    using rep by (simp add: tables_rep_def maps_ok_def live_synced_def records_synced_def)
  have step0: "fills_step T ?T"
    using rep by (intro fills_step_refl) (simp_all add: tables_rep_def)
  have named0: "named ?T cidf" using named by (simp add: named_def)
  obtain T1 where 1: "routeFill send now (t_buyOrderId t) (t_price t) (t_quantity t) (?T, s) =
      (T1, deliver send now (o_participantId x, encodeFill (exchange_id (t_buyOrderId t)) (cidf (t_buyOrderId t))
        (t_quantity t) (t_price t) (o_quantity x - t_quantity t)) s)"
    and rep1: "tables_rep T1 (live(t_buyOrderId t := left_over x (o_quantity x - t_quantity t)))"
    and step1: "fills_step ?T T1" and last1: "vt_hasLastTrade T1 = vt_hasLastTrade ?T" "vt_lastTradeTicks T1 = vt_lastTradeTicks ?T"
    using routeFill_run [OF rep0 x f(1) named0] .
  have y1: "(live(t_buyOrderId t := left_over x (o_quantity x - t_quantity t))) (t_sellOrderId t) = Some y"
    using y ne by simp
  obtain T2 where 2: "routeFill send now (t_sellOrderId t) (t_price t) (t_quantity t) (T1,
        deliver send now (o_participantId x, encodeFill (exchange_id (t_buyOrderId t)) (cidf (t_buyOrderId t))
        (t_quantity t) (t_price t) (o_quantity x - t_quantity t)) s) =
      (T2, deliver send now (o_participantId y, encodeFill (exchange_id (t_sellOrderId t)) (cidf (t_sellOrderId t))
        (t_quantity t) (t_price t) (o_quantity y - t_quantity t))
        (deliver send now (o_participantId x, encodeFill (exchange_id (t_buyOrderId t)) (cidf (t_buyOrderId t))
        (t_quantity t) (t_price t) (o_quantity x - t_quantity t)) s))"
    and rep2: "tables_rep T2 (live(t_buyOrderId t := left_over x (o_quantity x - t_quantity t),
        t_sellOrderId t := left_over y (o_quantity y - t_quantity t)))"
    and step2: "fills_step T1 T2" and last2: "vt_hasLastTrade T2 = vt_hasLastTrade T1" "vt_lastTradeTicks T2 = vt_lastTradeTicks T1"
    using routeFill_run [OF rep1 y1 f(2) fills_step_named [OF step1 named0]] .
  from fills_step_trans [OF step0 fills_step_trans [OF step1 step2]] rep2 1 2 last1 last2
  show thesis by (intro that [of T2]) (simp_all add: onTrade_def)
qed

text \<open>The taker \<open>x\<close> of side \<open>side\<close> has \<open>q\<close> left and meets the resting order \<open>r\<close> for \<open>f\<close>.\<close>

lemma onTrade_taker:
  assumes rep: "tables_rep T live" and named: "named T cidf"
    and x: "live i = Some (x\<lparr>o_quantity := q\<rparr>)" and r: "live (o_orderId r) = Some r"
    and ne: "i \<noteq> o_orderId r" and f: "f \<le> q" "f \<le> o_quantity r"
  obtains T' where "onTrade send now (side_trade side i (o_orderId r) (o_price r) f) (T, s) =
      (T', fold (deliver send now) (fill_msgs side cidf i (o_participantId x) q [(r, f)]) s)"
    and "tables_rep T' (live(i := left_over x (q - f), o_orderId r := left_over r (o_quantity r - f)))"
    and "fills_step T T'" and "vt_hasLastTrade T'" and "vt_lastTradeTicks T' = o_price r"
proof (cases side)
  case Buy
  let ?t = "buy_trade i (o_orderId r) (o_price r) f"
  have fields: "t_buyOrderId ?t = i" "t_sellOrderId ?t = o_orderId r" "t_price ?t = o_price r" "t_quantity ?t = f"
    by (simp_all add: buy_trade_def)
  show thesis
    by (rule onTrade_pair [of T live cidf ?t, unfolded fields, OF rep named x r ne, where send = send and now = now and s = s])
      (use f Buy in \<open>simp_all add: that side_trade_def\<close>)
next
  case Sell
  let ?t = "sell_trade i (o_orderId r) (o_price r) f"
  have fields: "t_sellOrderId ?t = i" "t_buyOrderId ?t = o_orderId r" "t_price ?t = o_price r" "t_quantity ?t = f"
    by (simp_all add: sell_trade_def)
  show thesis
    by (rule onTrade_pair [of T live cidf ?t, unfolded fields, OF rep named r x ne [symmetric], where send = send and now = now and s = s])
      (use f Sell in \<open>simp_all add: that side_trade_def fun_upd_twist [OF ne]\<close>)
qed

section \<open>All trades of an order\<close>

definition live_with :: "(u64 \<Rightarrow> Order option) \<Rightarrow> Order \<Rightarrow> u32 \<Rightarrow> Order list \<Rightarrow> u64 \<Rightarrow> Order option" where
  "live_with base x q rs = (base ++ ord_map rs)(o_orderId x := left_over x q)"

lemma live_with_full:
  assumes "base (o_orderId r) = None" "o_orderId r \<notin> o_orderId ` set rs" "o_orderId x \<noteq> o_orderId r"
  shows "(live_with base x q (r # rs))(o_orderId x := left_over x q', o_orderId r := None) = live_with base x q' rs"
proof (rule ext)
  fix j
  have "ord_map rs (o_orderId r) = None" using assms(2) by (simp add: ord_map_None)
  then show "((live_with base x q (r # rs))(o_orderId x := left_over x q', o_orderId r := None)) j = live_with base x q' rs j"
    using assms(1,3) by (simp add: live_with_def map_add_def)
qed

lemma fills_run:
  assumes "spec_match beyond pid q rs = (fs, q', rs')"
    and "tables_rep T (live_with base x q rs)" and "named T cidf" and "o_participantId x = pid"
    and "distinct (map o_orderId (x # rs))" and "\<forall>r \<in> set rs. base (o_orderId r) = None"
    and "\<forall>r \<in> set rs. \<not> beyond (o_price r) \<longrightarrow> o_participantId r \<noteq> pid"
  shows "\<exists>T'. fold (onTrade send now) (fill_trades (side_trade side) (o_orderId x) fs) (T, s) =
      (T', fold (deliver send now) (fill_msgs side cidf (o_orderId x) pid q fs) s) \<and>
    tables_rep T' (live_with base x q' rs') \<and> fills_step T T' \<and>
    vt_hasLastTrade T' = (vt_hasLastTrade T \<or> fs \<noteq> []) \<and>
    vt_lastTradeTicks T' = (if fs = [] then vt_lastTradeTicks T else o_price (fst (last fs)))"
  using assms
proof (induction arbitrary: T s rule: spec_match_induct)
  case (Nil q)
  then show ?case by (auto simp: fill_trades_def tables_rep_def intro!: fills_step_refl)
next
  case (Stop q r rs)
  then show ?case by (auto simp: fill_trades_def tables_rep_def intro!: fills_step_refl)
next
  case (Self q r rs)
  then show ?case by simp
next
  case (Full q r rs fs q' rs')
  note p = Full.prems
  have x: "live_with base x q (r # rs) (o_orderId x) = Some (x\<lparr>o_quantity := q\<rparr>)"
    and r: "live_with base x q (r # rs) (o_orderId r) = Some r" and ne: "o_orderId x \<noteq> o_orderId r"
    using p(4) Full.hyps(1) by (auto simp: live_with_def left_over_def)
  obtain T1 where 1: "onTrade send now (side_trade side (o_orderId x) (o_orderId r) (o_price r) (o_quantity r)) (T, s) =
      (T1, fold (deliver send now) (fill_msgs side cidf (o_orderId x) (o_participantId x) q [(r, o_quantity r)]) s)"
    and rep1: "tables_rep T1 ((live_with base x q (r # rs))(o_orderId x := left_over x (q - o_quantity r),
        o_orderId r := left_over r (o_quantity r - o_quantity r)))"
    and step1: "fills_step T T1" and last1: "vt_hasLastTrade T1" "vt_lastTradeTicks T1 = o_price r"
    using onTrade_taker [OF p(1,2) x r ne Full.hyps(4) order_refl] .
  have "left_over r (o_quantity r - o_quantity r) = None" by (simp add: left_over_def)
  then have "tables_rep T1 (live_with base x (q - o_quantity r) rs)"
    using rep1 live_with_full [of base r rs x q] p(4,5) ne by simp
  note ih = Full.IH [OF this fills_step_named [OF step1 p(2)] p(3)]
  have "distinct (map o_orderId (x # rs))" "\<forall>r \<in> set rs. base (o_orderId r) = None"
    "\<forall>r \<in> set rs. \<not> beyond (o_price r) \<longrightarrow> o_participantId r \<noteq> pid"
    using p(4,5,6) by simp_all
  from ih [OF this]
  obtain T2 where 2: "fold (onTrade send now) (fill_trades (side_trade side) (o_orderId x) fs)
        (T1, fold (deliver send now) (fill_msgs side cidf (o_orderId x) pid q [(r, o_quantity r)]) s) =
      (T2, fold (deliver send now) (fill_msgs side cidf (o_orderId x) pid (q - o_quantity r) fs)
        (fold (deliver send now) (fill_msgs side cidf (o_orderId x) pid q [(r, o_quantity r)]) s))"
    and rep2: "tables_rep T2 (live_with base x q' rs')" and step2: "fills_step T1 T2"
    and last2: "vt_hasLastTrade T2 = (vt_hasLastTrade T1 \<or> fs \<noteq> [])"
      "vt_lastTradeTicks T2 = (if fs = [] then vt_lastTradeTicks T1 else o_price (fst (last fs)))"
    by blast
  have "fill_msgs side cidf (o_orderId x) pid q ((r, o_quantity r) # fs) =
      fill_msgs side cidf (o_orderId x) pid q [(r, o_quantity r)] @
      fill_msgs side cidf (o_orderId x) pid (q - o_quantity r) fs" by simp
  then show ?case
    using 1 2 rep2 fills_step_trans [OF step1 step2] last1 last2 p(3)
    by (intro exI [of _ T2]) (simp add: fill_trades_def del: fill_msgs.simps)
next
  case (Part q r rs)
  note p = Part.prems
  have x: "live_with base x q (r # rs) (o_orderId x) = Some (x\<lparr>o_quantity := q\<rparr>)"
    and r: "live_with base x q (r # rs) (o_orderId r) = Some r" and ne: "o_orderId x \<noteq> o_orderId r"
    using p(4) Part.hyps(1) by (auto simp: live_with_def left_over_def)
  obtain T1 where 1: "onTrade send now (side_trade side (o_orderId x) (o_orderId r) (o_price r) q) (T, s) =
      (T1, fold (deliver send now) (fill_msgs side cidf (o_orderId x) (o_participantId x) q [(r, q)]) s)"
    and rep1: "tables_rep T1 ((live_with base x q (r # rs))(o_orderId x := left_over x (q - q),
        o_orderId r := left_over r (o_quantity r - q)))"
    and step1: "fills_step T T1" and last1: "vt_hasLastTrade T1" "vt_lastTradeTicks T1 = o_price r"
    using onTrade_taker [OF p(1,2) x r ne order_refl less_imp_le [OF Part.hyps(4)]] .
  have "(live_with base x q (r # rs))(o_orderId x := left_over x (q - q), o_orderId r := left_over r (o_quantity r - q)) =
      live_with base x 0 (r\<lparr>o_quantity := o_quantity r - q\<rparr> # rs)"
    using Part.hyps(4) ne by (auto simp: live_with_def left_over_def fun_eq_iff map_add_def)
  then show ?case
    using 1 rep1 step1 last1 p(3) by (intro exI [of _ T1]) (simp add: fill_trades_def del: fill_msgs.simps)
qed

end
