(* ===== verification/VenueSteps.thy ===== *)
theory VenueSteps
  imports VenueFills
begin

text \<open>
  Every operation of the venue returns and keeps the invariant: the admission of an order with all
  its fills, cancellation, and the removal of a connection. The properties of the venue rest on the
  lemmas of this theory.
\<close>

section \<open>What the invariant gives\<close>

lemma tables_rep_size:
  assumes rep: "tables_rep T (ord_map xs)" and d: "distinct (map o_orderId xs)"
  shows "um_size (vt_byEngineId T) = length xs"
proof -
  have "um_size (vt_byEngineId T) = card {k. live_of T k \<noteq> None}"
    using rep by (simp add: um.size_card tables_rep_def maps_ok_def live_of_def)
  also have "{k. live_of T k \<noteq> None} = {k. ord_map xs k \<noteq> None}"
    using tables_rep_dead [OF rep] by simp
  also have "\<dots> = o_orderId ` set xs" by (simp add: ord_map_None)
  also have "card \<dots> = length xs"
    using distinct_card [OF d] by simp
  finally show ?thesis .
qed

lemma venue_invD:
  assumes "venue_inv v"
  shows "book_inv (v_book v)" and "spec_ok (abs_book (v_book v))"
    and "tables_rep (v_tables v) (ord_map (spec_orders (abs_book (v_book v))))"
    and "um_size (vt_byEngineId (v_tables v)) = length (spec_orders (abs_book (v_book v)))"
    and "length (spec_orders (abs_book (v_book v))) \<le> unat (vt_softCap (v_tables v))"
    and "unat (vt_softCap (v_tables v)) < unat (op_capacity (ob_pool (v_book v)))"
    and "vt_nextEngineId (v_tables v) = sb_sequence (abs_book (v_book v)) + 1"
    and "vt_nextEngineId (v_tables v) \<noteq> 0"
    and "x \<in> set (spec_orders (abs_book (v_book v))) \<Longrightarrow> o_orderId x < vt_nextEngineId (v_tables v)"
proof -
  let ?T = "v_tables v" and ?xs = "spec_orders (abs_book (v_book v))"
  show b: "book_inv (v_book v)" and "spec_ok (abs_book (v_book v))"
    and "unat (vt_softCap (v_tables v)) < unat (op_capacity (ob_pool (v_book v)))"
    and "vt_nextEngineId (v_tables v) = sb_sequence (abs_book (v_book v)) + 1"
    and "vt_nextEngineId (v_tables v) \<noteq> 0"
    and "x \<in> set (spec_orders (abs_book (v_book v))) \<Longrightarrow> o_orderId x < vt_nextEngineId (v_tables v)"
    using assms unfolding venue_inv_def Let_def list_all_iff by blast+
  have d: "distinct (map o_orderId ?xs)" by (rule book_inv_ids [OF b])
  show rep: "tables_rep ?T (ord_map ?xs)"
    using assms d by (simp add: venue_inv_def Let_def tables_match_rep)
  show "um_size (vt_byEngineId ?T) = length ?xs" by (rule tables_rep_size [OF rep d])
  then show "length ?xs \<le> unat (vt_softCap ?T)"
    using assms by (simp add: venue_inv_def Let_def)
qed

lemma venue_invI:
  assumes "book_inv b" and "spec_ok (abs_book b)" and "tables_rep T (ord_map (spec_orders (abs_book b)))"
    and "length (spec_orders (abs_book b)) \<le> unat (vt_softCap T)"
    and "unat (vt_softCap T) < unat (op_capacity (ob_pool b))"
    and "vt_nextEngineId T = sb_sequence (abs_book b) + 1" and "vt_nextEngineId T \<noteq> 0"
    and "\<And>x. x \<in> set (spec_orders (abs_book b)) \<Longrightarrow> o_orderId x < vt_nextEngineId T"
  shows "venue_inv \<lparr>v_tables = T, v_book = b\<rparr>"
  using assms book_inv_ids [OF assms(1)]
  by (simp add: venue_inv_def Let_def tables_match_rep tables_rep_size list_all_iff)

text \<open>An empty map under \<open>byConn_[conn]\<close> makes no difference.\<close>

lemma tables_rep_same:
  assumes "tables_rep T live" and "maps_ok T'" and "live_of T' = live_of T" and "record_of T' = record_of T"
  shows "tables_rep T' live"
  using assms by (simp add: tables_rep_def live_synced_def records_synced_def)

lemma touch_conn:
  assumes "maps_ok T"
  shows "maps_ok (T\<lparr>vt_byConn := um_emplace (vt_byConn T) conn []\<rparr>)"
    and "record_of (T\<lparr>vt_byConn := um_emplace (vt_byConn T) conn []\<rparr>) = record_of T"
  using assms by (auto simp: maps_ok_alt record_of_def um_simps fun_eq_iff split: option.splits)

section \<open>The specification of an addition, once more\<close>

definition own_side :: "Side \<Rightarrow> SpecBook \<Rightarrow> Order list" where
  "own_side side sb = (case side of Buy \<Rightarrow> sb_bids sb | Sell \<Rightarrow> sb_asks sb)"

lemma spec_match_length: "spec_match beyond pid q rs = (fs, q', rs') \<Longrightarrow> length rs' \<le> length rs"
  by (induction rule: spec_match_induct) auto

lemma length_spec_insert [simp]: "length (spec_insert worse x xs) = Suc (length xs)"
  unfolding spec_insert_def by simp (metis length_append takeWhile_dropWhile_id)

lemma spec_orders_sides: "set (spec_orders sb) = set (own_side side sb) \<union> set (other_side side sb)"
  "length (spec_orders sb) = length (own_side side sb) + length (other_side side sb)"
  by (cases side; auto simp: spec_orders_def own_side_def other_side_def)+

lemma spec_add_sides:
  fixes i :: u64
  assumes m: "spec_match (\<lambda>p. \<not> crosses side price p) pid q (other_side side sb) = (fs, q', rs')"
  defines "sb' \<equiv> snd (spec_add side price q i pid sb)"
  shows "fst (spec_add side price q i pid sb) = fill_trades (side_trade side) i fs"
    and "other_side side sb' = rs'" and "sb_sequence sb' = sb_sequence sb + 1"
    and "own_side side sb' = (if 0 < q'
      then spec_insert (case side of Buy \<Rightarrow> (<) | Sell \<Rightarrow> (>)) (new_order side price q' i pid (sb_sequence sb)) (own_side side sb)
      else own_side side sb)"
proof -
  have b: "(\<lambda>p. \<not> crosses Buy price p) = (\<lambda>p. price < p)" and s: "(\<lambda>p. \<not> crosses Sell price p) = (\<lambda>p. p < price)"
    by (auto simp: crosses_def fun_eq_iff not_le)
  have "fst (spec_add side price q i pid sb) = fill_trades (side_trade side) i fs \<and>
    other_side side sb' = rs' \<and> sb_sequence sb' = sb_sequence sb + 1 \<and>
    own_side side sb' = (if 0 < q'
      then spec_insert (case side of Buy \<Rightarrow> (<) | Sell \<Rightarrow> (>)) (new_order side price q' i pid (sb_sequence sb)) (own_side side sb)
      else own_side side sb)"
  proof (cases side)
    case Buy
    from m [unfolded Buy b] Buy show ?thesis
      by (simp add: sb'_def spec_add_def other_side_def own_side_def side_trade_def)
  next
    case Sell
    from m [unfolded Sell s] Sell show ?thesis
      by (simp add: sb'_def spec_add_def other_side_def own_side_def side_trade_def)
  qed
  then show "fst (spec_add side price q i pid sb) = fill_trades (side_trade side) i fs"
    and "other_side side sb' = rs'" and "sb_sequence sb' = sb_sequence sb + 1"
    and "own_side side sb' = (if 0 < q'
      then spec_insert (case side of Buy \<Rightarrow> (<) | Sell \<Rightarrow> (>)) (new_order side price q' i pid (sb_sequence sb)) (own_side side sb)
      else own_side side sb)"
    by blast+
qed

lemma ord_map_append: "ord_map (xs @ ys) = ord_map ys ++ ord_map xs"
  by (simp add: ord_map_def map_of_append)

lemma distinct_spec_orders:
  assumes "distinct (map o_orderId (spec_orders sb))"
  shows "distinct (map o_orderId (other_side side sb @ own_side side sb))"
  using assms by (cases side) (auto simp: spec_orders_def own_side_def other_side_def)

lemma ord_map_sides:
  assumes "distinct (map o_orderId (spec_orders sb))"
  shows "ord_map (spec_orders sb) = ord_map (own_side side sb) ++ ord_map (other_side side sb)"
  using ord_map_set [OF assms distinct_spec_orders [OF assms, of side]] spec_orders_sides(1) [of sb side]
  by (simp add: ord_map_append Un_commute)

text \<open>The live orders after an addition, as the fills leave them.\<close>

lemma live_with_add:
  assumes m: "spec_match (\<lambda>p. \<not> crosses side price p) pid q (other_side side sb) = (fs, q', rs')"
    and d: "distinct (map o_orderId (spec_orders (snd (spec_add side price q i pid sb))))"
    and d0: "distinct (map o_orderId (spec_orders sb))" and i: "i \<notin> o_orderId ` set (spec_orders sb)"
    and x: "x = new_order side price q i pid (sb_sequence sb)"
  shows "live_with (ord_map (own_side side sb)) x q' rs' = ord_map (spec_orders (snd (spec_add side price q i pid sb)))"
proof (rule ext)
  fix j
  let ?sb = "snd (spec_add side price q i pid sb)"
  note add = spec_add_sides [OF m, of i]
  have other: "i \<notin> o_orderId ` set rs'"
    using spec_match_subset [OF m] i spec_orders_sides(1) [of sb side] by auto
  have own: "i \<notin> o_orderId ` set (own_side side sb)"
    using i spec_orders_sides(1) [of sb side] by auto
  have y: "left_over x q' = Some (new_order side price q' i pid (sb_sequence sb))" if "0 < q'"
    using that by (simp add: left_over_def x new_order_def)
  have d': "distinct (map o_orderId (own_side side ?sb))"
    using distinct_spec_orders [OF d, of side] by simp
  have "ord_map (own_side side ?sb) = (ord_map (own_side side sb))(i := left_over x q')"
  proof (cases "0 < q'")
    case True
    let ?y = "new_order side price q' i pid (sb_sequence sb)"
    have "distinct (map o_orderId (?y # own_side side sb))"
      using distinct_spec_orders [OF d0, of side] own by (simp add: new_order_def)
    from ord_map_set [OF d' this] True have "ord_map (own_side side ?sb) = ord_map (?y # own_side side sb)"
      by (simp add: add(4) set_spec_insert)
    with y [OF True] show ?thesis by (simp add: new_order_def)
  next
    case False
    then have "q' = 0" by (simp add: word_gt_0)
    with own show ?thesis by (auto simp: add(4) left_over_def fun_eq_iff ord_map_None)
  qed
  moreover have "ord_map rs' i = None" using other by (simp add: ord_map_None)
  ultimately show "live_with (ord_map (own_side side sb)) x q' rs' j = ord_map (spec_orders ?sb) j"
    by (simp add: ord_map_sides [OF d, of side] add(2) live_with_def map_add_def x new_order_def split: option.split)
qed

section \<open>Accepting an order\<close>

definition opened :: "u64 \<Rightarrow> InboundMessage \<Rightarrow> Tables \<Rightarrow> Tables" where
  "opened conn m T =
     (let i = vt_nextEngineId T; cid = im_clientOrderId m;
          connMap = (case um_find (vt_byConn T) conn of None \<Rightarrow> [] | Some cm \<Rightarrow> cm)
      in T\<lparr>vt_nextEngineId := i + 1,
           vt_byEngineId := um_assign (vt_byEngineId T) i
             \<lparr>lo_owner = conn, lo_clientOrderId = cid, lo_exchangeId = exchange_id i, lo_side = im_side m,
              lo_priceTicks = im_priceTicks m, lo_remaining = im_qty m\<rparr>,
           vt_byConn := um_assign (vt_byConn T) conn (um_assign connMap cid
             \<lparr>cr_state = Resting, cr_exchangeId = exchange_id i, cr_engineId = i\<rparr>)\<rparr>)"

lemma opened_fields [simp]:
  "vt_nextEngineId (opened conn m T) = vt_nextEngineId T + 1" "vt_softCap (opened conn m T) = vt_softCap T"
  "vt_hasLastTrade (opened conn m T) = vt_hasLastTrade T" "vt_lastTradeTicks (opened conn m T) = vt_lastTradeTicks T"
  by (simp_all add: opened_def Let_def)

lemma opened_lookups:
  assumes "maps_ok T"
  shows "maps_ok (opened conn m T)"
    and "live_of (opened conn m T) = (live_of T)(vt_nextEngineId T \<mapsto>
      \<lparr>lo_owner = conn, lo_clientOrderId = im_clientOrderId m, lo_exchangeId = exchange_id (vt_nextEngineId T),
       lo_side = im_side m, lo_priceTicks = im_priceTicks m, lo_remaining = im_qty m\<rparr>)"
    and "record_of (opened conn m T) c k = (if c = conn \<and> k = im_clientOrderId m
      then Some \<lparr>cr_state = Resting, cr_exchangeId = exchange_id (vt_nextEngineId T), cr_engineId = vt_nextEngineId T\<rparr>
      else record_of T c k)"
proof -
  have "um_ok (case um_find (vt_byConn T) conn of None \<Rightarrow> [] | Some cm \<Rightarrow> cm)"
    using maps_ok_conn [OF assms] by (simp split: option.split)
  with assms show "maps_ok (opened conn m T)"
    and "live_of (opened conn m T) = (live_of T)(vt_nextEngineId T \<mapsto>
      \<lparr>lo_owner = conn, lo_clientOrderId = im_clientOrderId m, lo_exchangeId = exchange_id (vt_nextEngineId T),
       lo_side = im_side m, lo_priceTicks = im_priceTicks m, lo_remaining = im_qty m\<rparr>)"
    and "record_of (opened conn m T) c k = (if c = conn \<and> k = im_clientOrderId m
      then Some \<lparr>cr_state = Resting, cr_exchangeId = exchange_id (vt_nextEngineId T), cr_engineId = vt_nextEngineId T\<rparr>
      else record_of T c k)"
    by (auto simp: opened_def Let_def maps_ok_alt live_of_def record_of_def um_simps fun_eq_iff split: option.splits)
qed

lemma opened_rep:
  assumes rep: "tables_rep T live" and i: "live (vt_nextEngineId T) = None" and q: "im_qty m \<noteq> 0"
    and new: "record_of T conn (im_clientOrderId m) = None"
    and x: "x = new_order (toEngineSide (im_side m)) (im_priceTicks m) (im_qty m) (vt_nextEngineId T) conn seq"
  shows "tables_rep (opened conn m T) (live(vt_nextEngineId T := Some x))"
proof -
  let ?i = "vt_nextEngineId T"
  have ok: "maps_ok T" and sync: "live_synced T live" and recs: "records_synced T"
    using rep by (simp_all add: tables_rep_def)
  note l = opened_lookups [OF ok, of conn m]
  have dead: "live_of T ?i = None" using i tables_rep_dead [OF rep] by simp
  have "live_synced (opened conn m T) (live(?i := Some x))"
    using q by (intro live_synced_update [OF sync l(2)]) (auto simp: shows_order_def x new_order_def word_gt_0)
  moreover have "records_synced (opened conn m T)"
  proof (rule records_syncedI)
    fix j lo assume a: "live_of (opened conn m T) j = Some lo"
    show "record_of (opened conn m T) (lo_owner lo) (lo_clientOrderId lo) = Some (resting_record j lo)"
    proof (cases "j = ?i")
      case True
      with a show ?thesis by (auto simp: l(2,3) resting_record_def)
    next
      case False
      with a have "live_of T j = Some lo" by (simp add: l(2))
      from records_live [OF recs this] new show ?thesis by (auto simp: l(3))
    qed
  next
    fix c k r assume a: "record_of (opened conn m T) c k = Some r" and st: "cr_state r = Resting"
    show "\<exists>lo. live_of (opened conn m T) (cr_engineId r) = Some lo \<and> lo_owner lo = c \<and> lo_clientOrderId lo = k"
    proof (cases "c = conn \<and> k = im_clientOrderId m")
      case True
      with a show ?thesis by (auto simp: l(2,3))
    next
      case False
      then have "record_of T c k = Some r" using a unfolding l(3) by (simp only: if_False)
      from records_owner [OF recs this st] dead show ?thesis by (auto simp: l(2))
    qed
  qed
  ultimately show ?thesis using l(1) by (simp add: tables_rep_def)
qed

lemma wouldSelfCross_side:
  assumes rep: "tables_rep T (ord_map xs)" and d: "distinct (map o_orderId xs)"
    and no: "\<not> wouldSelfCross T conn side price" and r: "r \<in> set xs" "o_side r \<noteq> toEngineSide side"
    and cross: "crosses (toEngineSide side) price (o_price r)"
  shows "o_participantId r \<noteq> conn"
proof
  assume own: "o_participantId r = conn"
  have "ord_map xs (o_orderId r) = Some r" using r(1) d by (simp add: ord_map_Some)
  from tables_rep_live [OF rep this] obtain lo where lo: "live_of T (o_orderId r) = Some lo" "shows_order lo r" by blast
  then have "(o_orderId r, lo) \<in> set (vt_byEngineId T)"
    using rep by (simp add: um_entry tables_rep_def maps_ok_def live_of_def)
  with no own lo(2) r(2) cross show False
    by (cases side; cases "lo_side lo")
      (force simp: wouldSelfCross_def list_ex_iff shows_order_def toEngineSide_def crosses_def)+
qed

definition cid_of :: "Tables \<Rightarrow> u64 \<Rightarrow> string" where
  "cid_of T j = (case live_of T j of None \<Rightarrow> [] | Some lo \<Rightarrow> lo_clientOrderId lo)"

lemma named_cid_of: "named T (cid_of T)"
  by (simp add: named_def cid_of_def)

text \<open>What an order has to satisfy to be taken.\<close>

definition admissible :: "u64 \<Rightarrow> InboundMessage \<Rightarrow> Tables \<Rightarrow> bool" where
  "admissible conn m T \<longleftrightarrow> im_hasClientOrderId m \<and> im_hasSymbol m \<and> im_symbol m = kSymbol \<and> im_hasSide m \<and>
     im_hasPrice m \<and> im_hasQty m \<and> im_qty m \<noteq> 0 \<and> record_of T conn (im_clientOrderId m) = None \<and>
     um_size (vt_byEngineId T) < unat (vt_softCap T) \<and> \<not> wouldSelfCross T conn (im_side m) (im_priceTicks m)"

text \<open>
  Engine ids do not run out, and with asserts compiled in the book has a place for a new level.
\<close>

definition order_room :: "bool \<Rightarrow> InboundMessage \<Rightarrow> Venue \<Rightarrow> bool" where
  "order_room dbg m v \<longleftrightarrow> vt_nextEngineId (v_tables v) + 1 \<noteq> 0 \<and>
     side_room dbg (toEngineSide (im_side m)) (im_priceTicks m) (abs_book (v_book v))"

definition order_match :: "u64 \<Rightarrow> InboundMessage \<Rightarrow> SpecBook \<Rightarrow> (Order \<times> u32) list \<times> u32 \<times> Order list" where
  "order_match conn m sb = spec_match (\<lambda>p. \<not> crosses (toEngineSide (im_side m)) (im_priceTicks m) p) conn (im_qty m)
     (other_side (toEngineSide (im_side m)) sb)"

lemma other_side_orders: "r \<in> set (other_side side sb) \<Longrightarrow> spec_ok sb \<Longrightarrow> r \<in> set (spec_orders sb) \<and> o_side r \<noteq> side"
  by (cases side) (auto simp: other_side_def spec_orders_def spec_ok_def)

lemma acceptOrder_run:
  fixes v conn m
  defines "T \<equiv> v_tables v" and "sb \<equiv> abs_book (v_book v)" and "side \<equiv> toEngineSide (im_side m)"
    and "i \<equiv> vt_nextEngineId (v_tables v)"
  assumes inv: "venue_inv v" and adm: "admissible conn m T" and room: "order_room dbg m v"
    and match: "order_match conn m sb = (fs, q', rs')"
  obtains v' where "acceptOrder dbg send now conn m ts v s = Inr (v',
      fold (deliver send now) (fill_msgs side (cid_of (opened conn m T)) i conn (im_qty m) fs)
        (send conn (encodeAck (im_clientOrderId m) (exchange_id i) ts) s))"
    and "venue_inv v'" and "abs_book (v_book v') = snd (spec_add side (im_priceTicks m) (im_qty m) i conn sb)"
    and "fills_step (opened conn m T) (v_tables v')"
    and "vt_hasLastTrade (v_tables v') = (vt_hasLastTrade T \<or> fs \<noteq> [])"
    and "vt_lastTradeTicks (v_tables v') = (if fs = [] then vt_lastTradeTicks T else o_price (fst (last fs)))"
proof -
  note inv = venue_invD [OF inv, folded T_def sb_def, folded i_def]
  let ?T1 = "opened conn m T" and ?q = "im_qty m" and ?p = "im_priceTicks m"
  let ?x = "new_order side ?p ?q i conn (sb_sequence sb)"
  have i: "i = vt_nextEngineId T" by (simp add: i_def T_def)
  have q: "?q \<noteq> 0" and new: "record_of T conn (im_clientOrderId m) = None"
    and space: "um_size (vt_byEngineId T) < unat (vt_softCap T)"
    and self: "\<not> wouldSelfCross T conn (im_side m) ?p"
    using adm by (simp_all add: admissible_def)
  have m: "spec_match (\<lambda>p. \<not> crosses side ?p p) conn ?q (other_side side sb) = (fs, q', rs')"
    using match by (simp add: order_match_def side_def)
  have d: "distinct (map o_orderId (spec_orders sb))" unfolding sb_def by (rule book_inv_ids [OF inv(1)])
  have fresh: "i \<notin> o_orderId ` set (spec_orders sb)" using inv(9) unfolding i by fastforce
  have x: "?x\<lparr>o_quantity := ?q\<rparr> = ?x" "o_orderId ?x = i" "o_participantId ?x = conn"
    by (simp_all add: new_order_def)
  have "tables_rep ?T1 ((ord_map (spec_orders sb))(i \<mapsto> ?x))"
    unfolding i using opened_rep [OF inv(3) _ q new, of ?x "sb_sequence sb"] fresh by (simp add: ord_map_None side_def i)
  moreover have "(ord_map (spec_orders sb))(i \<mapsto> ?x) = live_with (ord_map (own_side side sb)) ?x ?q (other_side side sb)"
    using q x by (simp add: ord_map_sides [OF d, of side] live_with_def left_over_def)
  ultimately have rep: "tables_rep ?T1 (live_with (ord_map (own_side side sb)) ?x ?q (other_side side sb))" by simp
  note dist = distinct_spec_orders [OF d, of side]
  have dist1: "distinct (map o_orderId (?x # other_side side sb))"
    using dist fresh spec_orders_sides(1) [of sb side] by (auto simp: x)
  have sep: "\<forall>r \<in> set (other_side side sb). ord_map (own_side side sb) (o_orderId r) = None"
    using dist by (auto simp: ord_map_None)
  have others: "\<forall>r \<in> set (other_side side sb). \<not> \<not> crosses side ?p (o_price r) \<longrightarrow> o_participantId r \<noteq> conn"
  proof (intro ballI impI)
    fix r assume "r \<in> set (other_side side sb)" and "\<not> \<not> crosses side ?p (o_price r)"
    with wouldSelfCross_side [OF inv(3) d self, folded side_def, of r] other_side_orders [of r side sb] inv(2)
    show "o_participantId r \<noteq> conn" by blast
  qed
  obtain T' where run: "fold (onTrade send now) (fill_trades (side_trade side) i fs)
        (?T1, send conn (encodeAck (im_clientOrderId m) (exchange_id i) ts) s) =
      (T', fold (deliver send now) (fill_msgs side (cid_of ?T1) i conn ?q fs)
        (send conn (encodeAck (im_clientOrderId m) (exchange_id i) ts) s))"
    and rep': "tables_rep T' (live_with (ord_map (own_side side sb)) ?x q' rs')" and step: "fills_step ?T1 T'"
    and last: "vt_hasLastTrade T' = (vt_hasLastTrade ?T1 \<or> fs \<noteq> [])"
      "vt_lastTradeTicks T' = (if fs = [] then vt_lastTradeTicks ?T1 else o_price (fst (last fs)))"
    using fills_run [OF m rep named_cid_of x(3) dist1 sep others, unfolded x, where send = send and now = now
        and side = side and s = "send conn (encodeAck (im_clientOrderId m) (exchange_id i) ts) s"]
    by (elim exE conjE) (rule that)
  have "0 < op_freeCount (ob_pool (v_book v))"
    using space inv(4,6) unfolding book_space [OF inv(1)] T_def sb_def by linarith
  moreover have "has_room dbg side ?p (v_book v)"
    using room inv(1) by (simp add: order_room_def book_room side_def)
  moreover have "um_find (ob_orderIndex (v_book v)) i = None"
    using fresh book_inv_fresh [OF inv(1)] by (simp add: sb_def)
  ultimately obtain b' where add: "addLimitOrder dbg (onTrade send now) side ?p ?q i conn (v_book v)
        (?T1, send conn (encodeAck (im_clientOrderId m) (exchange_id i) ts) s) =
      Inr (b', fold (onTrade send now) (fst (spec_add side ?p ?q i conn sb))
        (?T1, send conn (encodeAck (im_clientOrderId m) (exchange_id i) ts) s))"
    and b': "book_inv b'" and abs': "abs_book b' = snd (spec_add side ?p ?q i conn sb)"
    and cap: "op_capacity (ob_pool b') = op_capacity (ob_pool (v_book v))"
    using addLimitOrder_run [OF inv(1)] unfolding sb_def by metis
  note sides = spec_add_sides [OF m, of i]
  let ?v = "\<lparr>v_tables = T', v_book = b'\<rparr>"
  have fields: "vt_nextEngineId T' = i + 1" "vt_softCap T' = vt_softCap T"
    using fills_stepD(1,2) [OF step] by (simp_all add: i)
  have "venue_inv ?v"
  proof (rule venue_invI [OF b'])
    have "sb_sequence sb + 1 \<noteq> 0" using inv(7,8) i by simp
    then show "spec_ok (abs_book b')" unfolding abs' using spec_add_ok inv(2) sb_def by blast
    show "tables_rep T' (ord_map (spec_orders (abs_book b')))"
      using rep' live_with_add [OF m _ d fresh refl] book_inv_ids [OF b'] unfolding abs' by simp
    have "length (spec_orders (abs_book b')) \<le> Suc (length (spec_orders sb))"
      using spec_match_length [OF m] sides unfolding abs' spec_orders_sides(2) [of _ side] by simp
    then show "length (spec_orders (abs_book b')) \<le> unat (vt_softCap T')"
      using space inv(4) fields by (simp add: T_def sb_def)
    show "unat (vt_softCap T') < unat (op_capacity (ob_pool b'))"
      using inv(6) by (simp add: fields cap T_def)
    show "vt_nextEngineId T' = sb_sequence (abs_book b') + 1"
      using inv(7) sides(3) fields i by (simp add: abs')
    show nz: "vt_nextEngineId T' \<noteq> 0"
      using room fields by (simp add: order_room_def i T_def)
    fix y assume y: "y \<in> set (spec_orders (abs_book b'))"
    have "o_orderId y \<in> insert i (o_orderId ` set (spec_orders sb))"
      using y spec_match_subset [OF m] sides unfolding abs' spec_orders_sides(1) [of _ side]
      by (auto simp: set_spec_insert new_order_def split: if_splits)
    then have "o_orderId y < i \<or> o_orderId y = i" using inv(9) unfolding i by auto
    then show "o_orderId y < vt_nextEngineId T'"
      using nz fields(1) sequence_less self_less by metis
  qed
  moreover have "acceptOrder dbg send now conn m ts v s = Inr (?v,
      fold (deliver send now) (fill_msgs side (cid_of ?T1) i conn ?q fs)
        (send conn (encodeAck (im_clientOrderId m) (exchange_id i) ts) s))"
    using add run sides(1)
    by (simp add: acceptOrder_def Let_def opened_def exchange_id_def T_def [symmetric] i side_def [symmetric])
  ultimately show thesis
    using abs' step last by (intro that [of ?v]) simp_all
qed

end
