(* ===== verification/VenueTheorems.thy ===== *)
theory VenueTheorems
  imports VenueSteps
begin

text \<open>
  The properties of the venue: what each request does to the book, to the tables and to the messages
  sent, and that every operation returns and keeps the invariant.
\<close>

section \<open>New orders\<close>

lemma wouldSelfCross_iff:
  assumes "venue_inv v"
  shows "wouldSelfCross (v_tables v) conn side price \<longleftrightarrow>
    (\<exists>r \<in> set (other_side (toEngineSide side) (abs_book (v_book v))).
       o_participantId r = conn \<and> crosses (toEngineSide side) price (o_price r))"
proof
  note inv = venue_invD [OF assms]
  assume "wouldSelfCross (v_tables v) conn side price"
  then obtain i lo where e: "(i, lo) \<in> set (vt_byEngineId (v_tables v))" and own: "lo_owner lo = conn"
    and cross: "(side = OBuy \<and> lo_side lo = OSell \<and> price \<ge> lo_priceTicks lo) \<or>
      (side = OSell \<and> lo_side lo = OBuy \<and> price \<le> lo_priceTicks lo)"
    by (auto simp: wouldSelfCross_def list_ex_iff)
  have "live_of (v_tables v) i = Some lo"
    using e inv(3) by (simp add: um_entry tables_rep_def maps_ok_def live_of_def)
  then obtain x where x: "ord_map (spec_orders (abs_book (v_book v))) i = Some x" "shows_order lo x"
    using tables_rep_dead [OF inv(3), of i] tables_rep_live [OF inv(3), of i] by fastforce
  then have "x \<in> set (spec_orders (abs_book (v_book v)))"
    by (simp add: ord_map_Some [OF book_inv_ids [OF inv(1)]])
  moreover from x(2) own cross have "o_side x \<noteq> toEngineSide side" "o_participantId x = conn"
    "crosses (toEngineSide side) price (o_price x)"
    by (auto simp: shows_order_def toEngineSide_def crosses_def)
  ultimately show "\<exists>r \<in> set (other_side (toEngineSide side) (abs_book (v_book v))).
       o_participantId r = conn \<and> crosses (toEngineSide side) price (o_price r)"
    using inv(2) by (cases side) (auto simp: spec_orders_def other_side_def spec_ok_def toEngineSide_def)
next
  note inv = venue_invD [OF assms]
  assume "\<exists>r \<in> set (other_side (toEngineSide side) (abs_book (v_book v))).
       o_participantId r = conn \<and> crosses (toEngineSide side) price (o_price r)"
  then show "wouldSelfCross (v_tables v) conn side price"
    using wouldSelfCross_side [OF inv(3) book_inv_ids [OF inv(1)]] other_side_orders [OF _ inv(2)] by blast
qed

definition touched :: "u64 \<Rightarrow> Venue \<Rightarrow> Venue" where
  "touched conn v = v\<lparr>v_tables := (v_tables v)\<lparr>vt_byConn := um_emplace (vt_byConn (v_tables v)) conn []\<rparr>\<rparr>"

lemma touched_simps [simp]:
  "v_book (touched conn v) = v_book v" "live_of (v_tables (touched conn v)) = live_of (v_tables v)"
  "vt_byEngineId (v_tables (touched conn v)) = vt_byEngineId (v_tables v)"
  "vt_nextEngineId (v_tables (touched conn v)) = vt_nextEngineId (v_tables v)"
  "vt_softCap (v_tables (touched conn v)) = vt_softCap (v_tables v)"
  "vt_hasLastTrade (v_tables (touched conn v)) = vt_hasLastTrade (v_tables v)"
  "vt_lastTradeTicks (v_tables (touched conn v)) = vt_lastTradeTicks (v_tables v)"
  "wouldSelfCross (v_tables (touched conn v)) c side p = wouldSelfCross (v_tables v) c side p"
  by (simp_all add: touched_def wouldSelfCross_def)

lemma touched_inv:
  assumes "venue_inv v"
  shows "venue_inv (touched conn v)" and "record_of (v_tables (touched conn v)) = record_of (v_tables v)"
proof -
  note inv = venue_invD [OF assms]
  have ok: "maps_ok (v_tables v)" using inv(3) by (simp add: tables_rep_def)
  show rec: "record_of (v_tables (touched conn v)) = record_of (v_tables v)"
    using touch_conn(2) [OF ok, of conn] by (simp add: touched_def)
  have rep: "tables_rep (v_tables (touched conn v)) (ord_map (spec_orders (abs_book (v_book v))))"
    using inv(3) touch_conn(1) [OF ok, of conn] rec by (rule_tac tables_rep_same) (simp_all add: touched_def)
  have "touched conn v = \<lparr>v_tables = v_tables (touched conn v), v_book = v_book v\<rparr>"
    by (simp add: touched_def)
  also have "venue_inv \<dots>"
    by (rule venue_invI) (use inv(1-2,5-9) rep in simp_all)
  finally show "venue_inv (touched conn v)" .
qed

lemma opened_touched:
  assumes "maps_ok (v_tables v)"
  shows "live_of (opened conn m (v_tables (touched conn v))) = live_of (opened conn m (v_tables v))"
    and "record_of (opened conn m (v_tables (touched conn v))) = record_of (opened conn m (v_tables v))"
proof -
  have ok: "maps_ok (v_tables (touched conn v))" "record_of (v_tables (touched conn v)) = record_of (v_tables v)"
    using touch_conn [OF assms, of conn] by (simp_all add: touched_def)
  show "live_of (opened conn m (v_tables (touched conn v))) = live_of (opened conn m (v_tables v))"
    and "record_of (opened conn m (v_tables (touched conn v))) = record_of (opened conn m (v_tables v))"
    using opened_lookups [OF assms, of conn m] opened_lookups [OF ok(1), of conn m] ok(2)
    by (simp_all add: fun_eq_iff)
qed

text \<open>The first check an order fails.\<close>

definition reject_reason :: "u64 \<Rightarrow> InboundMessage \<Rightarrow> Tables \<Rightarrow> string" where
  "reject_reason conn m T =
     (if \<not> im_hasClientOrderId m then ''missing_client_order_id''
      else if \<not> im_hasSymbol m \<or> im_symbol m \<noteq> kSymbol then ''unknown_symbol''
      else if \<not> im_hasSide m then ''bad_side''
      else if \<not> im_hasPrice m then ''bad_price''
      else if \<not> im_hasQty m \<or> im_qty m = 0 then ''bad_qty''
      else if record_of T conn (im_clientOrderId m) \<noteq> None then ''duplicate_client_order_id''
      else if um_size (vt_byEngineId T) \<ge> unat (vt_softCap T) then ''venue_full''
      else ''self_match'')"

definition shape_ok :: "InboundMessage \<Rightarrow> bool" where
  "shape_ok m \<longleftrightarrow> im_hasClientOrderId m \<and> im_hasSymbol m \<and> im_symbol m = kSymbol \<and> im_hasSide m \<and>
     im_hasPrice m \<and> im_hasQty m \<and> im_qty m \<noteq> 0"

lemma conn_map_record:
  "um_find (case um_find (vt_byConn (v_tables (touched conn v))) conn of None \<Rightarrow> [] | Some cm \<Rightarrow> cm) cid =
     record_of (v_tables (touched conn v)) conn cid"
  by (simp add: record_of_def split: option.split)

lemma handleNewOrder_split:
  assumes "venue_inv v"
  shows "handleNewOrder dbg send now conn m v s = (case now s of (ts, s) \<Rightarrow>
    if admissible conn m (v_tables v) then acceptOrder dbg send now conn m ts (touched conn v) s
    else Inr (if shape_ok m then touched conn v else v,
      send conn (encodeReject (if im_hasClientOrderId m then im_clientOrderId m else [])
        (reject_reason conn m (v_tables v)) ts) s))"
proof -
  obtain ts s' where now: "now s = (ts, s')" by (cases "now s")
  have T: "v\<lparr>v_tables := (v_tables v)\<lparr>vt_byConn := um_emplace (vt_byConn (v_tables v)) conn []\<rparr>\<rparr> = touched conn v"
    "(v_tables v)\<lparr>vt_byConn := um_emplace (vt_byConn (v_tables v)) conn []\<rparr> = v_tables (touched conn v)"
    by (simp_all add: touched_def)
  show ?thesis
    unfolding handleNewOrder_def now Let_def case_prod_conv T(1) unfolding T(2) conn_map_record touched_inv(2) [OF assms]
    by (simp add: admissible_def reject_reason_def shape_ok_def not_less)
qed

section \<open>A small venue\<close>

text \<open>The world of the witnesses: the messages sent so far, and a clock that stands still.\<close>

definition outbox :: "u64 \<Rightarrow> string \<Rightarrow> (u64 \<times> string) list \<Rightarrow> (u64 \<times> string) list" where
  "outbox conn text s = s @ [(conn, text)]"

definition still :: "(u64 \<times> string) list \<Rightarrow> string \<times> (u64 \<times> string) list" where
  "still s = (''T'', s)"

definition order_msg :: "string \<Rightarrow> OrderSide \<Rightarrow> u32 \<Rightarrow> u32 \<Rightarrow> InboundMessage" where
  "order_msg cid side price qty = InboundMessage_new\<lparr>im_type := NewOrder, im_hasClientOrderId := True,
     im_clientOrderId := cid, im_hasSymbol := True, im_symbol := kSymbol, im_hasSide := True, im_side := side,
     im_hasPrice := True, im_priceTicks := price, im_hasQty := True, im_qty := qty\<rparr>"

definition cancel_msg :: "string \<Rightarrow> InboundMessage" where
  "cancel_msg cid = InboundMessage_new\<lparr>im_type := Cancel, im_hasClientOrderId := True, im_clientOrderId := cid\<rparr>"

text \<open>
  Connection 7 sold 5 of its order \<open>a\<close> and rests the other 5; its order \<open>b\<close> rests. The order \<open>a\<close> of
  connection 8 that bought them is filled, and its order \<open>b\<close> rests.
\<close>

definition small_venue :: Venue where
  "small_venue =
     \<lparr>v_tables = \<lparr>vt_softCap = 4, vt_nextEngineId = 5, vt_hasLastTrade = True, vt_lastTradeTicks = 101,
        vt_byEngineId =
          [(1, \<lparr>lo_owner = 7, lo_clientOrderId = ''a'', lo_exchangeId = ''e-1'', lo_side = OSell, lo_priceTicks = 101, lo_remaining = 5\<rparr>),
           (2, \<lparr>lo_owner = 7, lo_clientOrderId = ''b'', lo_exchangeId = ''e-2'', lo_side = OSell, lo_priceTicks = 102, lo_remaining = 5\<rparr>),
           (4, \<lparr>lo_owner = 8, lo_clientOrderId = ''b'', lo_exchangeId = ''e-4'', lo_side = OBuy, lo_priceTicks = 99, lo_remaining = 3\<rparr>)],
        vt_byConn =
          [(7, [(''a'', \<lparr>cr_state = Resting, cr_exchangeId = ''e-1'', cr_engineId = 1\<rparr>),
                (''b'', \<lparr>cr_state = Resting, cr_exchangeId = ''e-2'', cr_engineId = 2\<rparr>)]),
           (8, [(''a'', \<lparr>cr_state = Filled, cr_exchangeId = ''e-3'', cr_engineId = 3\<rparr>),
                (''b'', \<lparr>cr_state = Resting, cr_exchangeId = ''e-4'', cr_engineId = 4\<rparr>)])]\<rparr>,
      v_book = (case bindR (OrderBook_new 6) (\<lambda>b. book_run True (\<lambda>t n. n + 1)
         [AddOp Sell 101 10 1 7, AddOp Sell 102 5 2 7, AddOp Buy 101 5 3 8, AddOp Buy 99 3 4 8] b (0 :: nat)) of
       Inr (b, _) \<Rightarrow> b)\<rparr>"

lemma small_venue_inv: "venue_inv small_venue"
  by code_simp

text \<open>It is the venue these four requests lead to.\<close>

lemma small_venue_run:
  "bindR (Venue_new 6 4) (\<lambda>v.
     bindR (handleNewOrder True (\<lambda>conn text n. n + 1) (\<lambda>n. ([], n)) 7 (order_msg ''a'' OSell 101 10) v (0 :: nat)) (\<lambda>(v, s).
     bindR (handleNewOrder True (\<lambda>conn text n. n + 1) (\<lambda>n. ([], n)) 7 (order_msg ''b'' OSell 102 5) v s) (\<lambda>(v, s).
     bindR (handleNewOrder True (\<lambda>conn text n. n + 1) (\<lambda>n. ([], n)) 8 (order_msg ''a'' OBuy 101 5) v s) (\<lambda>(v, s).
     handleNewOrder True (\<lambda>conn text n. n + 1) (\<lambda>n. ([], n)) 8 (order_msg ''b'' OBuy 99 3) v s)))) = Inr (small_venue, 6)"
  by code_simp

section \<open>Accepted orders\<close>

lemma acceptOrder_outcome:
  fixes v conn m
  defines "T \<equiv> v_tables v" and "sb \<equiv> abs_book (v_book v)" and "side \<equiv> toEngineSide (im_side m)"
    and "i \<equiv> vt_nextEngineId (v_tables v)"
  assumes inv: "venue_inv v" and adm: "admissible conn m T" and room: "order_room dbg m v"
    and match: "order_match conn m sb = (fs, q', rs')" and now: "now s = (ts, s')"
  obtains v' where "handleNewOrder dbg send now conn m v s = Inr (v',
      fold (deliver send now) (fill_msgs side (cid_of (opened conn m T)) i conn (im_qty m) fs)
        (send conn (encodeAck (im_clientOrderId m) (exchange_id i) ts) s'))"
    and "venue_inv v'" and "abs_book (v_book v') = snd (spec_add side (im_priceTicks m) (im_qty m) i conn sb)"
    and "\<And>j lo'. live_of (v_tables v') j = Some lo' \<Longrightarrow>
      \<exists>lo. live_of (opened conn m T) j = Some lo \<and> lo' = lo\<lparr>lo_remaining := lo_remaining lo'\<rparr>"
    and "vt_nextEngineId (v_tables v') = i + 1" and "vt_softCap (v_tables v') = vt_softCap T"
    and "vt_hasLastTrade (v_tables v') = (vt_hasLastTrade T \<or> fs \<noteq> [])"
    and "vt_lastTradeTicks (v_tables v') = (if fs = [] then vt_lastTradeTicks T else o_price (fst (last fs)))"
    and "record_of (v_tables v') = (\<lambda>c k. map_option (filled_record (v_tables v')) (record_of (opened conn m T) c k))"
proof -
  note t = touched_inv [OF inv, of conn]
  have ok: "maps_ok (v_tables v)" using venue_invD(3) [OF inv] by (simp add: tables_rep_def)
  have adm1: "admissible conn m (v_tables (touched conn v))"
    using adm t(2) by (simp add: admissible_def T_def)
  have room1: "order_room dbg m (touched conn v)" using room by (simp add: order_room_def)
  have "order_match conn m (abs_book (v_book (touched conn v))) = (fs, q', rs')" using match by (simp add: sb_def)
  note a = acceptOrder_run [OF t(1) adm1 room1 this, where send = send and now = now and ts = ts and s = s',
      unfolded touched_simps]
  obtain v' where run: "acceptOrder dbg send now conn m ts (touched conn v) s' = Inr (v',
      fold (deliver send now) (fill_msgs side (cid_of (opened conn m (v_tables (touched conn v)))) i conn (im_qty m) fs)
        (send conn (encodeAck (im_clientOrderId m) (exchange_id i) ts) s'))"
    and v': "venue_inv v'" "abs_book (v_book v') = snd (spec_add side (im_priceTicks m) (im_qty m) i conn sb)"
    and step: "fills_step (opened conn m (v_tables (touched conn v))) (v_tables v')"
    and last: "vt_hasLastTrade (v_tables v') = (vt_hasLastTrade T \<or> fs \<noteq> [])"
      "vt_lastTradeTicks (v_tables v') = (if fs = [] then vt_lastTradeTicks T else o_price (fst (last fs)))"
    unfolding T_def sb_def side_def i_def using a .
  have cids: "cid_of (opened conn m (v_tables (touched conn v))) = cid_of (opened conn m T)"
    using opened_touched(1) [OF ok] by (simp add: cid_of_def T_def fun_eq_iff)
  have "handleNewOrder dbg send now conn m v s = Inr (v',
      fold (deliver send now) (fill_msgs side (cid_of (opened conn m T)) i conn (im_qty m) fs)
        (send conn (encodeAck (im_clientOrderId m) (exchange_id i) ts) s'))"
    unfolding handleNewOrder_split [OF inv] now using adm run unfolding cids by (simp add: T_def)
  with v' last fills_stepD [OF step] show thesis
    unfolding opened_touched [OF ok] by (intro that [of v']) (simp_all add: T_def i_def fun_eq_iff)
qed

lemma new_order_live:
  assumes m: "spec_match (\<lambda>p. \<not> crosses side price p) pid q (other_side side sb) = (fs, q', rs')"
    and d: "distinct (map o_orderId (spec_orders (snd (spec_add side price q i pid sb))))"
    and d0: "distinct (map o_orderId (spec_orders sb))" and i: "i \<notin> o_orderId ` set (spec_orders sb)"
  shows "ord_map (spec_orders (snd (spec_add side price q i pid sb))) i =
    (if q' = 0 then None else Some (new_order side price q' i pid (sb_sequence sb)))"
proof -
  have "ord_map (spec_orders (snd (spec_add side price q i pid sb))) i =
      live_with (ord_map (own_side side sb)) (new_order side price q i pid (sb_sequence sb)) q' rs' i"
    using live_with_add [OF m d d0 i refl] by simp
  then show ?thesis by (simp add: live_with_def left_over_def new_order_def)
qed

text \<open>C4: An order that passes all checks is acknowledged first; then the fills go out in the order of the
  matching, each to its two owners, buyer first, with what remains of each order. The book is the one the
  specification says; the order has the next engine id, and its client's record ends as \<open>Filled\<close> with no
  live order, or \<open>Resting\<close> with a live order over exactly the remainder. The call never faults.\<close>

theorem order_accepted:
  fixes v conn m
  assumes "venue_inv v" and "admissible conn m (v_tables v)" and "order_room dbg m v"
    and "order_match conn m (abs_book (v_book v)) = (fs, left, rest)" and "now s = (ts, s')"
  shows "let T = v_tables v; i = vt_nextEngineId T; side = toEngineSide (im_side m); cid = im_clientOrderId m in
    \<exists>v'. handleNewOrder dbg send now conn m v s = Inr (v',
        fold (deliver send now) (fill_msgs side (cid_of (opened conn m T)) i conn (im_qty m) fs)
          (send conn (encodeAck cid (exchange_id i) ts) s')) \<and>
      venue_inv v' \<and> abs_book (v_book v') = snd (spec_add side (im_priceTicks m) (im_qty m) i conn (abs_book (v_book v))) \<and>
      record_of (v_tables v') conn cid = Some \<lparr>cr_state = (if left = 0 then Filled else Resting),
        cr_exchangeId = exchange_id i, cr_engineId = i\<rparr> \<and>
      live_of (v_tables v') i = (if left = 0 then None else Some \<lparr>lo_owner = conn, lo_clientOrderId = cid,
        lo_exchangeId = exchange_id i, lo_side = im_side m, lo_priceTicks = im_priceTicks m, lo_remaining = left\<rparr>)"
proof -
  let ?T = "v_tables v" and ?i = "vt_nextEngineId (v_tables v)" and ?sb = "abs_book (v_book v)"
  let ?side = "toEngineSide (im_side m)" and ?cid = "im_clientOrderId m"
  note inv = venue_invD [OF assms(1)]
  have ok: "maps_ok ?T" using inv(3) by (simp add: tables_rep_def)
  obtain v' where v': "handleNewOrder dbg send now conn m v s = Inr (v',
      fold (deliver send now) (fill_msgs ?side (cid_of (opened conn m ?T)) ?i conn (im_qty m) fs)
        (send conn (encodeAck ?cid (exchange_id ?i) ts) s'))"
    and inv': "venue_inv v'" and abs': "abs_book (v_book v') = snd (spec_add ?side (im_priceTicks m) (im_qty m) ?i conn ?sb)"
    and live: "\<And>j lo'. live_of (v_tables v') j = Some lo' \<Longrightarrow>
      \<exists>lo. live_of (opened conn m ?T) j = Some lo \<and> lo' = lo\<lparr>lo_remaining := lo_remaining lo'\<rparr>"
    and rec: "record_of (v_tables v') = (\<lambda>c k. map_option (filled_record (v_tables v')) (record_of (opened conn m ?T) c k))"
    by (rule acceptOrder_outcome [where now = now and s = s and send = send, OF assms]) blast
  note rep' = venue_invD(3) [OF inv']
  have "?i \<notin> o_orderId ` set (spec_orders ?sb)" using inv(9) by fastforce
  then have om: "ord_map (spec_orders (abs_book (v_book v'))) ?i =
      (if left = 0 then None else Some (new_order ?side (im_priceTicks m) left ?i conn (sb_sequence ?sb)))"
    using book_inv_ids [OF venue_invD(1) [OF inv']] book_inv_ids [OF inv(1)] assms(4) unfolding abs' order_match_def
    by (intro new_order_live)
  have lv: "live_of (v_tables v') ?i = (if left = 0 then None else Some \<lparr>lo_owner = conn, lo_clientOrderId = ?cid,
        lo_exchangeId = exchange_id ?i, lo_side = im_side m, lo_priceTicks = im_priceTicks m, lo_remaining = left\<rparr>)"
  proof (cases "left = 0")
    case True
    with om tables_rep_dead [OF rep'] show ?thesis by simp
  next
    case False
    with om obtain lo where lo: "live_of (v_tables v') ?i = Some lo" "lo_remaining lo = left"
      by (auto elim: tables_rep_live [OF rep'] simp: shows_order_def new_order_def)
    with live [OF lo(1)] False show ?thesis by (simp add: opened_lookups [OF ok])
  qed
  have "record_of (v_tables v') conn ?cid = Some \<lparr>cr_state = (if left = 0 then Filled else Resting),
        cr_exchangeId = exchange_id ?i, cr_engineId = ?i\<rparr>"
    by (simp add: rec opened_lookups [OF ok] filled_record_def lv)
  with v' inv' abs' lv show ?thesis unfolding Let_def by blast
qed

theorem order_accepted_witness:
  "let T = v_tables small_venue; i = vt_nextEngineId T; side = toEngineSide (im_side (order_msg ''c'' OBuy 102 8));
      cid = im_clientOrderId (order_msg ''c'' OBuy 102 8) in
    \<exists>v'. handleNewOrder True outbox still 8 (order_msg ''c'' OBuy 102 8) small_venue [] = Inr (v',
        fold (deliver outbox still) (fill_msgs side (cid_of (opened 8 (order_msg ''c'' OBuy 102 8) T)) i 8
            (im_qty (order_msg ''c'' OBuy 102 8))
            (fst (order_match 8 (order_msg ''c'' OBuy 102 8) (abs_book (v_book small_venue)))))
          (outbox 8 (encodeAck cid (exchange_id i) ''T'') [])) \<and>
      venue_inv v' \<and> abs_book (v_book v') = snd (spec_add side (im_priceTicks (order_msg ''c'' OBuy 102 8))
        (im_qty (order_msg ''c'' OBuy 102 8)) i 8 (abs_book (v_book small_venue))) \<and>
      record_of (v_tables v') 8 cid = Some \<lparr>cr_state = (if (0 :: u32) = 0 then Filled else Resting),
        cr_exchangeId = exchange_id i, cr_engineId = i\<rparr> \<and>
      live_of (v_tables v') i = (if (0 :: u32) = 0 then None else Some \<lparr>lo_owner = 8, lo_clientOrderId = cid,
        lo_exchangeId = exchange_id i, lo_side = im_side (order_msg ''c'' OBuy 102 8),
        lo_priceTicks = im_priceTicks (order_msg ''c'' OBuy 102 8), lo_remaining = 0\<rparr>)"
  by (rule order_accepted [where rest = "snd (snd (order_match 8 (order_msg ''c'' OBuy 102 8) (abs_book (v_book small_venue))))",
        OF small_venue_inv]) code_simp+

section \<open>Rejected orders\<close>

lemma order_rejected_run:
  assumes "venue_inv v" and "\<not> admissible conn m (v_tables v)" and "now s = (ts, s')"
  shows "let reason = reject_reason conn m (v_tables v); sb = abs_book (v_book v); side = toEngineSide (im_side m) in
    \<exists>v'. handleNewOrder dbg send now conn m v s =
        Inr (v', send conn (encodeReject (if im_hasClientOrderId m then im_clientOrderId m else []) reason ts) s') \<and>
      venue_inv v' \<and> v_book v' = v_book v \<and> live_of (v_tables v') = live_of (v_tables v) \<and>
      record_of (v_tables v') = record_of (v_tables v) \<and>
      (reason = ''venue_full'' \<longrightarrow> length (spec_orders sb) = unat (vt_softCap (v_tables v))) \<and>
      (reason = ''self_match'' \<longrightarrow> (\<exists>r \<in> set (other_side side sb).
         o_participantId r = conn \<and> crosses side (im_priceTicks m) (o_price r)))"
proof -
  note inv = venue_invD [OF assms(1)]
  let ?v = "if shape_ok m then touched conn v else v"
  have run: "handleNewOrder dbg send now conn m v s =
      Inr (?v, send conn (encodeReject (if im_hasClientOrderId m then im_clientOrderId m else [])
        (reject_reason conn m (v_tables v)) ts) s')"
    unfolding handleNewOrder_split [OF assms(1)] assms(3) using assms(2) by simp
  have keep: "venue_inv ?v \<and> v_book ?v = v_book v \<and> live_of (v_tables ?v) = live_of (v_tables v) \<and>
      record_of (v_tables ?v) = record_of (v_tables v)"
    using assms(1) touched_inv [OF assms(1)] by simp
  have full: "length (spec_orders (abs_book (v_book v))) = unat (vt_softCap (v_tables v))"
    if "reject_reason conn m (v_tables v) = ''venue_full''"
    using that inv(4,5) by (simp add: reject_reason_def split: if_splits)
  have self: "wouldSelfCross (v_tables v) conn (im_side m) (im_priceTicks m)"
    if "reject_reason conn m (v_tables v) = ''self_match''"
    using that assms(2) by (auto simp: reject_reason_def admissible_def not_le split: if_splits)
  show ?thesis
    unfolding Let_def using run keep full self wouldSelfCross_iff [OF assms(1)] by blast
qed

text \<open>C15: An order that fails a check is answered by one \<open>REJECT\<close> to its sender and changes nothing else:
  the book, the live orders and the client records stay. The reason is that of the first check that
  fails, and the last two of them are about the book: \<open>venue_full\<close> means that as many orders rest as
  the venue admits, \<open>self_match\<close> that the limit reaches a resting order of the sender itself.\<close>

theorem order_rejected:
  assumes "venue_inv v" and "\<not> admissible conn m (v_tables v)" and "now s = (ts, s')"
  shows "let reason = reject_reason conn m (v_tables v); sb = abs_book (v_book v); side = toEngineSide (im_side m) in
    \<exists>v'. handleNewOrder dbg send now conn m v s =
        Inr (v', send conn (encodeReject (if im_hasClientOrderId m then im_clientOrderId m else []) reason ts) s') \<and>
      venue_inv v' \<and> v_book v' = v_book v \<and> live_of (v_tables v') = live_of (v_tables v) \<and>
      record_of (v_tables v') = record_of (v_tables v) \<and>
      (reason = ''venue_full'' \<longrightarrow> length (spec_orders sb) = unat (vt_softCap (v_tables v))) \<and>
      (reason = ''self_match'' \<longrightarrow> (\<exists>r \<in> set (other_side side sb).
         o_participantId r = conn \<and> crosses side (im_priceTicks m) (o_price r)))"
  using assms by (rule order_rejected_run)

theorem order_rejected_witness:
  "let reason = reject_reason 8 (order_msg ''c'' OSell 98 2) (v_tables small_venue); sb = abs_book (v_book small_venue);
      side = toEngineSide (im_side (order_msg ''c'' OSell 98 2)) in
    \<exists>v'. handleNewOrder True outbox still 8 (order_msg ''c'' OSell 98 2) small_venue [] =
        Inr (v', outbox 8 (encodeReject (if im_hasClientOrderId (order_msg ''c'' OSell 98 2)
          then im_clientOrderId (order_msg ''c'' OSell 98 2) else []) reason ''T'') []) \<and>
      venue_inv v' \<and> v_book v' = v_book small_venue \<and> live_of (v_tables v') = live_of (v_tables small_venue) \<and>
      record_of (v_tables v') = record_of (v_tables small_venue) \<and>
      (reason = ''venue_full'' \<longrightarrow> length (spec_orders sb) = unat (vt_softCap (v_tables small_venue))) \<and>
      (reason = ''self_match'' \<longrightarrow> (\<exists>r \<in> set (other_side side sb).
         o_participantId r = 8 \<and> crosses side (im_priceTicks (order_msg ''c'' OSell 98 2)) (o_price r)))"
  by (rule order_rejected [OF small_venue_inv]) code_simp+

section \<open>Cancellation\<close>

lemma spec_cancel_orders: "spec_orders (spec_cancel i sb) = filter (\<lambda>x. o_orderId x \<noteq> i) (spec_orders sb)"
  by (simp add: spec_orders_def spec_cancel_def)

lemma ord_map_remove: "ord_map (filter (\<lambda>x. o_orderId x \<noteq> i) xs) = (ord_map xs)(i := None)"
  by (induction xs) (auto simp: fun_eq_iff)

text \<open>A live order leaves the core, the table and, with its record, the state \<open>Resting\<close>.\<close>

lemma cancel_run:
  assumes inv: "venue_inv v" and lo: "live_of (v_tables v) i = Some lo"
    and cm: "um_find (vt_byConn (v_tables v)) (lo_owner lo) = Some cm" and st: "cr_state r \<noteq> Resting"
    and T': "T' = (v_tables v)\<lparr>vt_byConn := um_assign (vt_byConn (v_tables v)) (lo_owner lo) (um_assign cm (lo_clientOrderId lo) r),
                   vt_byEngineId := um_erase (vt_byEngineId (v_tables v)) i\<rparr>"
  obtains b' where "cancelOrder dbg i (v_book v) = Inr b'" and "abs_book b' = spec_cancel i (abs_book (v_book v))"
    and "venue_inv \<lparr>v_tables = T', v_book = b'\<rparr>"
proof -
  note inv = venue_invD [OF inv]
  obtain b' where b': "cancelOrder dbg i (v_book v) = Inr b'" "book_inv b'" "abs_book b' = spec_cancel i (abs_book (v_book v))"
    "op_capacity (ob_pool b') = op_capacity (ob_pool (v_book v))"
    using cancelOrder_run [OF inv(1)] .
  have "tables_rep T' (ord_map (spec_orders (abs_book b')))"
    unfolding b'(3) spec_cancel_orders ord_map_remove
    by (rule tables_rep_close [OF inv(3) lo cm st T'])
  moreover have "spec_ok (abs_book b')" unfolding b'(3) by (rule spec_cancel_ok [OF inv(2)])
  moreover have "length (spec_orders (abs_book b')) \<le> unat (vt_softCap T')"
    unfolding b'(3) spec_cancel_orders T' using order_trans [OF length_filter_le inv(5)] by simp
  moreover have "sb_sequence (abs_book b') = sb_sequence (abs_book (v_book v))"
    unfolding b'(3) by (simp add: spec_cancel_def)
  moreover have "set (spec_orders (abs_book b')) \<subseteq> set (spec_orders (abs_book (v_book v)))"
    unfolding b'(3) spec_cancel_orders by auto
  ultimately have "venue_inv \<lparr>v_tables = T', v_book = b'\<rparr>"
    using inv(6-9) b'(2,4) by (intro venue_invI) (auto simp: T')
  with b' that show thesis by blast
qed

lemma cancel_outcome_run:
  assumes "venue_inv v" and "im_hasClientOrderId m" and "now s = (ts, s')"
  shows "let T = v_tables v; cid = im_clientOrderId m in
    (case record_of T conn cid of
       None \<Rightarrow> handleCancel dbg send now conn m v s = Inr (v, send conn (encodeCancelReject cid ''not_found'' ts) s')
     | Some r \<Rightarrow> (case cr_state r of
         Filled \<Rightarrow> handleCancel dbg send now conn m v s = Inr (v, send conn (encodeCancelReject cid ''already_filled'' ts) s')
       | Cancelled \<Rightarrow> handleCancel dbg send now conn m v s = Inr (v, send conn (encodeCancelReject cid ''already_cancelled'' ts) s')
       | Resting \<Rightarrow> (\<exists>v'. handleCancel dbg send now conn m v s = Inr (v', send conn (encodeCancelAck cid (cr_exchangeId r) ts) s') \<and>
           venue_inv v' \<and> abs_book (v_book v') = spec_cancel (cr_engineId r) (abs_book (v_book v)) \<and>
           live_of (v_tables v') = (live_of T)(cr_engineId r := None) \<and>
           (\<forall>c k. record_of (v_tables v') c k =
              (if c = conn \<and> k = cid then Some (r\<lparr>cr_state := Cancelled\<rparr>) else record_of T c k)))))"
proof (cases "record_of (v_tables v) conn (im_clientOrderId m)")
  case None
  then have "um_find (vt_byConn (v_tables v)) conn = None \<or>
      (\<exists>cm. um_find (vt_byConn (v_tables v)) conn = Some cm \<and> um_find cm (im_clientOrderId m) = None)"
    by (simp add: record_of_def split: option.splits)
  with None assms(2,3) show ?thesis
    by (auto simp: handleCancel_def Let_def)
next
  case (Some r)
  then obtain cm where cm: "um_find (vt_byConn (v_tables v)) conn = Some cm" "um_find cm (im_clientOrderId m) = Some r"
    by (auto simp: record_of_def split: option.splits)
  show ?thesis
  proof (cases "cr_state r")
    case Resting
    note inv = venue_invD [OF assms(1)]
    have "records_synced (v_tables v)" using inv(3) by (simp add: tables_rep_def)
    from records_owner [OF this Some Resting]
    obtain lo where lo: "live_of (v_tables v) (cr_engineId r) = Some lo" "lo_owner lo = conn" "lo_clientOrderId lo = im_clientOrderId m"
      by blast
    define T' where "T' = (v_tables v)\<lparr>vt_byConn := um_assign (vt_byConn (v_tables v)) (lo_owner lo)
        (um_assign cm (lo_clientOrderId lo) (r\<lparr>cr_state := Cancelled\<rparr>)),
      vt_byEngineId := um_erase (vt_byEngineId (v_tables v)) (cr_engineId r)\<rparr>"
    have cm': "um_find (vt_byConn (v_tables v)) (lo_owner lo) = Some cm" using cm lo by simp
    have st: "cr_state (r\<lparr>cr_state := Cancelled\<rparr>) \<noteq> Resting" by simp
    obtain b' where b': "cancelOrder dbg (cr_engineId r) (v_book v) = Inr b'"
      "abs_book b' = spec_cancel (cr_engineId r) (abs_book (v_book v))" "venue_inv \<lparr>v_tables = T', v_book = b'\<rparr>"
      using cancel_run [OF assms(1) lo(1) cm' st T'_def] .
    have "handleCancel dbg send now conn m v s =
        Inr (\<lparr>v_tables = T', v_book = b'\<rparr>, send conn (encodeCancelAck (im_clientOrderId m) (cr_exchangeId r) ts) s')"
      using assms(2,3) cm Resting b'(1) lo(2,3) by (simp add: handleCancel_def T'_def Let_def)
    with b' tables_rep_close(2,3) [OF inv(3) lo(1) cm' st T'_def] lo(2,3) Some Resting show ?thesis
      unfolding Let_def by (auto intro!: exI [of _ "\<lparr>v_tables = T', v_book = b'\<rparr>"])
  next
    case Filled
    with Some cm assms(2,3) show ?thesis by (simp add: handleCancel_def)
  next
    case Cancelled
    with Some cm assms(2,3) show ?thesis by (simp add: handleCancel_def)
  qed
qed

text \<open>C13: A cancel request of a connection is answered by exactly one message, from the state of the record
  under its client order id. A resting order is taken out of the book, of the live orders and out of the
  state \<open>Resting\<close>, and nothing else changes; an order that is filled, cancelled already or was never
  there is refused with the reason, and nothing changes at all.\<close>

theorem cancel_outcome:
  assumes "venue_inv v" and "im_hasClientOrderId m" and "now s = (ts, s')"
  shows "let T = v_tables v; cid = im_clientOrderId m in
    (case record_of T conn cid of
       None \<Rightarrow> handleCancel dbg send now conn m v s = Inr (v, send conn (encodeCancelReject cid ''not_found'' ts) s')
     | Some r \<Rightarrow> (case cr_state r of
         Filled \<Rightarrow> handleCancel dbg send now conn m v s = Inr (v, send conn (encodeCancelReject cid ''already_filled'' ts) s')
       | Cancelled \<Rightarrow> handleCancel dbg send now conn m v s = Inr (v, send conn (encodeCancelReject cid ''already_cancelled'' ts) s')
       | Resting \<Rightarrow> (\<exists>v'. handleCancel dbg send now conn m v s = Inr (v', send conn (encodeCancelAck cid (cr_exchangeId r) ts) s') \<and>
           venue_inv v' \<and> abs_book (v_book v') = spec_cancel (cr_engineId r) (abs_book (v_book v)) \<and>
           live_of (v_tables v') = (live_of T)(cr_engineId r := None) \<and>
           (\<forall>c k. record_of (v_tables v') c k =
              (if c = conn \<and> k = cid then Some (r\<lparr>cr_state := Cancelled\<rparr>) else record_of T c k)))))"
  using assms by (rule cancel_outcome_run)

theorem cancel_outcome_witness:
  "let T = v_tables small_venue; cid = im_clientOrderId (cancel_msg ''a'') in
    (case record_of T 7 cid of
       None \<Rightarrow> handleCancel True outbox still 7 (cancel_msg ''a'') small_venue [] = Inr (small_venue, outbox 7 (encodeCancelReject cid ''not_found'' ''T'') [])
     | Some r \<Rightarrow> (case cr_state r of
         Filled \<Rightarrow> handleCancel True outbox still 7 (cancel_msg ''a'') small_venue [] = Inr (small_venue, outbox 7 (encodeCancelReject cid ''already_filled'' ''T'') [])
       | Cancelled \<Rightarrow> handleCancel True outbox still 7 (cancel_msg ''a'') small_venue [] = Inr (small_venue, outbox 7 (encodeCancelReject cid ''already_cancelled'' ''T'') [])
       | Resting \<Rightarrow> (\<exists>v'. handleCancel True outbox still 7 (cancel_msg ''a'') small_venue [] = Inr (v', outbox 7 (encodeCancelAck cid (cr_exchangeId r) ''T'') []) \<and>
           venue_inv v' \<and> abs_book (v_book v') = spec_cancel (cr_engineId r) (abs_book (v_book small_venue)) \<and>
           live_of (v_tables v') = (live_of T)(cr_engineId r := None) \<and>
           (\<forall>c k. record_of (v_tables v') c k =
              (if c = 7 \<and> k = cid then Some (r\<lparr>cr_state := Cancelled\<rparr>) else record_of T c k)))))"
  by (rule cancel_outcome [OF small_venue_inv]) code_simp+

section \<open>Closed connections\<close>

definition spec_drop :: "u64 \<Rightarrow> SpecBook \<Rightarrow> SpecBook" where
  "spec_drop conn sb = sb\<lparr>sb_bids := filter (\<lambda>x. o_participantId x \<noteq> conn) (sb_bids sb),
                          sb_asks := filter (\<lambda>x. o_participantId x \<noteq> conn) (sb_asks sb)\<rparr>"

lemma spec_drop_orders: "spec_orders (spec_drop conn sb) = filter (\<lambda>x. o_participantId x \<noteq> conn) (spec_orders sb)"
  by (simp add: spec_orders_def spec_drop_def)

lemma spec_drop_ok: "spec_ok sb \<Longrightarrow> spec_ok (spec_drop conn sb)"
  unfolding spec_ok_def spec_drop_def priority_side_def uncrossed_def spec_orders_def
  by (auto intro: sorted_wrt_filter)

lemma cancel_all_run:
  assumes "book_inv (v_book v)"
  shows "\<exists>b'. cancel_all dbg ids v = Inr \<lparr>v_tables = (v_tables v)\<lparr>vt_byEngineId :=
        foldl um_erase (vt_byEngineId (v_tables v)) ids\<rparr>, v_book = b'\<rparr> \<and>
    book_inv b' \<and> abs_book b' = fold spec_cancel ids (abs_book (v_book v)) \<and>
    op_capacity (ob_pool b') = op_capacity (ob_pool (v_book v))"
  using assms
proof (induction ids arbitrary: v)
  case Nil
  then show ?case by (intro exI [of _ "v_book v"]) simp
next
  case (Cons i ids)
  obtain b1 where 1: "cancelOrder dbg i (v_book v) = Inr b1" "book_inv b1" "abs_book b1 = spec_cancel i (abs_book (v_book v))"
    "op_capacity (ob_pool b1) = op_capacity (ob_pool (v_book v))"
    using cancelOrder_run [OF Cons.prems] .
  with Cons.IH [of "v\<lparr>v_book := b1, v_tables := (v_tables v)\<lparr>vt_byEngineId := um_erase (vt_byEngineId (v_tables v)) i\<rparr>\<rparr>"]
  show ?case by simp
qed

lemma fold_spec_cancel:
  "fold spec_cancel ids sb = sb\<lparr>sb_bids := filter (\<lambda>x. o_orderId x \<notin> set ids) (sb_bids sb),
     sb_asks := filter (\<lambda>x. o_orderId x \<notin> set ids) (sb_asks sb)\<rparr>"
  by (induction ids arbitrary: sb) (auto simp: spec_cancel_def intro!: arg_cong2 [where f = "\<lambda>xs ys. _\<lparr>sb_bids := xs, sb_asks := ys\<rparr>"] filter_cong)

lemma owned_ids_iff:
  assumes "maps_ok T"
  shows "i \<in> set (owned_ids T conn) \<longleftrightarrow> (\<exists>lo. live_of T i = Some lo \<and> lo_owner lo = conn)"
  using assms by (force simp: owned_ids_def um_entry maps_ok_def live_of_def)

lemma owned_orders:
  assumes inv: "venue_inv v" and x: "x \<in> set (spec_orders (abs_book (v_book v)))"
  shows "o_orderId x \<in> set (owned_ids (v_tables v) conn) \<longleftrightarrow> o_participantId x = conn"
proof -
  note i = venue_invD [OF inv]
  have ok: "maps_ok (v_tables v)" using i(3) by (simp add: tables_rep_def)
  have "ord_map (spec_orders (abs_book (v_book v))) (o_orderId x) = Some x"
    using x by (simp add: ord_map_Some [OF book_inv_ids [OF i(1)]])
  then obtain lo where "live_of (v_tables v) (o_orderId x) = Some lo" "shows_order lo x"
    by (rule tables_rep_live [OF i(3)])
  then show ?thesis by (auto simp: owned_ids_iff [OF ok] shows_order_def)
qed

lemma ord_map_filter_owner:
  "distinct (map o_orderId xs) \<Longrightarrow> ord_map (filter P xs) i =
     (case ord_map xs i of None \<Rightarrow> None | Some x \<Rightarrow> if P x then Some x else None)"
  by (induction xs) (auto simp: ord_map_None split: option.splits)

lemma drop_outcome_run:
  assumes inv: "venue_inv v"
  shows "\<exists>v'. dropConnection dbg conn v = Inr v' \<and> venue_inv v' \<and>
    abs_book (v_book v') = spec_drop conn (abs_book (v_book v)) \<and>
    (\<forall>i. live_of (v_tables v') i = (case live_of (v_tables v) i of None \<Rightarrow> None
       | Some lo \<Rightarrow> if lo_owner lo = conn then None else Some lo)) \<and>
    (\<forall>c k. record_of (v_tables v') c k = (if c = conn then None else record_of (v_tables v) c k))"
proof -
  let ?T = "v_tables v" and ?ids = "owned_ids (v_tables v) conn" and ?sb = "abs_book (v_book v)"
  note i = venue_invD [OF inv]
  have ok: "maps_ok ?T" and sync: "live_synced ?T (ord_map (spec_orders ?sb))" and recs: "records_synced ?T"
    using i(3) by (simp_all add: tables_rep_def)
  obtain b' where run: "cancel_all dbg ?ids v = Inr \<lparr>v_tables = ?T\<lparr>vt_byEngineId :=
        foldl um_erase (vt_byEngineId ?T) ?ids\<rparr>, v_book = b'\<rparr>"
    and b': "book_inv b'" "abs_book b' = fold spec_cancel ?ids ?sb" "op_capacity (ob_pool b') = op_capacity (ob_pool (v_book v))"
    using cancel_all_run [OF i(1)] by blast
  define T' where "T' = ?T\<lparr>vt_byEngineId := foldl um_erase (vt_byEngineId ?T) ?ids, vt_byConn := um_erase (vt_byConn ?T) conn\<rparr>"
  have "filter (\<lambda>x. o_orderId x \<notin> set ?ids) xs = filter (\<lambda>x. o_participantId x \<noteq> conn) xs"
    if "set xs \<subseteq> set (spec_orders ?sb)" for xs
    using that owned_orders [OF inv] by (intro filter_cong) auto
  then have abs: "abs_book b' = spec_drop conn ?sb"
    by (simp add: b'(2) fold_spec_cancel spec_drop_def spec_orders_def)
  have live: "live_of T' j = (case live_of ?T j of None \<Rightarrow> None | Some lo \<Rightarrow> if lo_owner lo = conn then None else Some lo)" for j
    using ok owned_ids_iff [OF ok, of j conn]
    by (auto simp: T'_def live_of_def maps_ok_def um.find_erase_all split: option.splits)
  have rec: "record_of T' c k = (if c = conn then None else record_of ?T c k)" for c k
    using ok by (auto simp: T'_def record_of_def maps_ok_def um_simps)
  have "maps_ok T'"
    using ok by (auto simp: T'_def maps_ok_alt um_simps um.ok_erase_all)
  moreover have "live_synced T' (ord_map (spec_orders (abs_book b')))"
    unfolding live_synced_def
  proof
    fix j
    have "rel_option (\<lambda>lo x. shows_order lo x \<and> o_orderId x = j) (live_of ?T j) (ord_map (spec_orders ?sb) j)"
      using sync by (simp add: live_synced_def)
    then show "rel_option (\<lambda>lo x. shows_order lo x \<and> o_orderId x = j) (live_of T' j) (ord_map (spec_orders (abs_book b')) j)"
      unfolding live abs spec_drop_orders ord_map_filter_owner [OF book_inv_ids [OF i(1)]]
      by (auto simp: shows_order_def elim: option.rel_cases)
  qed
  moreover have "records_synced T'"
  proof (rule records_syncedI)
    fix j lo assume "live_of T' j = Some lo"
    then have "live_of ?T j = Some lo" "lo_owner lo \<noteq> conn" by (auto simp: live split: option.splits if_splits)
    with records_live [OF recs] show "record_of T' (lo_owner lo) (lo_clientOrderId lo) = Some (resting_record j lo)"
      by (simp add: rec)
  next
    fix c k r assume "record_of T' c k = Some r" "cr_state r = Resting"
    then show "\<exists>lo. live_of T' (cr_engineId r) = Some lo \<and> lo_owner lo = c \<and> lo_clientOrderId lo = k"
      using records_owner [OF recs, of c k r] by (auto simp: rec live split: if_splits)
  qed
  ultimately have rep: "tables_rep T' (ord_map (spec_orders (abs_book b')))" by (simp add: tables_rep_def)
  have "length (spec_orders (abs_book b')) \<le> unat (vt_softCap T')"
    unfolding abs spec_drop_orders T'_def using order_trans [OF length_filter_le i(5)] by simp
  moreover have "sb_sequence (abs_book b') = sb_sequence ?sb" by (simp add: abs spec_drop_def)
  moreover have "set (spec_orders (abs_book b')) \<subseteq> set (spec_orders ?sb)" by (auto simp: abs spec_drop_orders)
  ultimately have "venue_inv \<lparr>v_tables = T', v_book = b'\<rparr>"
    using i(6-9) b'(1,3) rep spec_drop_ok [OF i(2), of conn] by (intro venue_invI) (auto simp: T'_def abs)
  moreover have "dropConnection dbg conn v = Inr \<lparr>v_tables = T', v_book = b'\<rparr>"
    using run by (simp add: dropConnection_def T'_def)
  ultimately show ?thesis using abs live rec by auto
qed

text \<open>C14: When a connection goes away, exactly its own orders leave the book, the order of all others
  unchanged; its live orders and records are gone, those of the others stay, and no message is sent. The
  loop that cancels them never faults and the invariant holds afterwards.\<close>

theorem drop_outcome:
  assumes inv: "venue_inv v"
  shows "\<exists>v'. dropConnection dbg conn v = Inr v' \<and> venue_inv v' \<and>
    abs_book (v_book v') = spec_drop conn (abs_book (v_book v)) \<and>
    (\<forall>i. live_of (v_tables v') i = (case live_of (v_tables v) i of None \<Rightarrow> None
       | Some lo \<Rightarrow> if lo_owner lo = conn then None else Some lo)) \<and>
    (\<forall>c k. record_of (v_tables v') c k = (if c = conn then None else record_of (v_tables v) c k))"
  by (rule drop_outcome_run [OF assms])

theorem drop_outcome_witness:
  "\<exists>v'. dropConnection True 7 small_venue = Inr v' \<and> venue_inv v' \<and>
    abs_book (v_book v') = spec_drop 7 (abs_book (v_book small_venue)) \<and>
    (\<forall>i. live_of (v_tables v') i = (case live_of (v_tables small_venue) i of None \<Rightarrow> None
       | Some lo \<Rightarrow> if lo_owner lo = 7 then None else Some lo)) \<and>
    (\<forall>c k. record_of (v_tables v') c k = (if c = 7 then None else record_of (v_tables small_venue) c k))"
  by (rule drop_outcome [OF small_venue_inv])

end
