(* ===== verification/VenueSessions.thy ===== *)
theory VenueSessions
  imports VenueTheorems
begin

text \<open>
  The venue over time: any sequence of request lines and closed connections, as a step relation. All
  reachable venues satisfy the invariant, no step of theirs faults, and a client's records only move
  forward.
\<close>

section \<open>One request line\<close>

text \<open>
  The condition under which a request is sure to return: if it is an order that passes all checks, there
  is an engine id left and, with asserts compiled in, a place for its price level.
\<close>

definition line_room :: "bool \<Rightarrow> u64 \<Rightarrow> string \<Rightarrow> Venue \<Rightarrow> bool" where
  "line_room dbg conn text v \<longleftrightarrow> (let m = parseInbound text in
     im_type m = NewOrder \<and> admissible conn m (v_tables v) \<longrightarrow> order_room dbg m v)"

text \<open>With no more than 4096 orders at a time there is always a place for a price level.\<close>

lemma small_room:
  assumes inv: "venue_inv v" and small: "dbg \<Longrightarrow> unat (vt_softCap (v_tables v)) \<le> kDefaultMaxPriceLevels"
    and ids: "vt_nextEngineId (v_tables v) + 1 \<noteq> 0"
  shows "line_room dbg conn msg v"
proof -
  note i = venue_invD [OF inv]
  have "side_room dbg side price (abs_book (v_book v))"
    if "length (spec_orders (abs_book (v_book v))) < unat (vt_softCap (v_tables v))" for side price
  proof -
    have "length (remdups (map o_price xs)) < kDefaultMaxPriceLevels" if "dbg" and "length xs \<le> length (spec_orders (abs_book (v_book v)))" for xs :: "Order list"
      using length_remdups_leq [of "map o_price xs"] that small
        \<open>length (spec_orders (abs_book (v_book v))) < unat (vt_softCap (v_tables v))\<close> by simp
    then show ?thesis by (cases side) (simp_all add: side_room_def Let_def spec_orders_def)
  qed
  with i(4) ids show ?thesis by (simp add: line_room_def Let_def admissible_def order_room_def)
qed

text \<open>
  What a step does to the records of a client: none is lost or changes its ids, a state other than
  \<open>Resting\<close> is final, and a new record belongs to the sender and has the next engine id.
\<close>

definition records_forward :: "u64 \<Rightarrow> Tables \<Rightarrow> Tables \<Rightarrow> bool" where
  "records_forward conn T T' \<longleftrightarrow>
     (\<forall>c k r. record_of T c k = Some r \<longrightarrow> (\<exists>r'. record_of T' c k = Some r' \<and>
        cr_engineId r' = cr_engineId r \<and> cr_exchangeId r' = cr_exchangeId r \<and>
        (cr_state r' = cr_state r \<or> cr_state r = Resting))) \<and>
     (\<forall>c k r'. record_of T c k = None \<and> record_of T' c k = Some r' \<longrightarrow>
        c = conn \<and> cr_engineId r' = vt_nextEngineId T \<and> cr_exchangeId r' = exchange_id (vt_nextEngineId T))"

lemma records_forward_same: "record_of T' = record_of T \<Longrightarrow> records_forward conn T T'"
  by (auto simp: records_forward_def)

text \<open>All that the venue does to the world: it reads the clock and sends messages.\<close>

inductive outputs :: "(u64 \<Rightarrow> string \<Rightarrow> 's \<Rightarrow> 's) \<Rightarrow> ('s \<Rightarrow> string \<times> 's) \<Rightarrow> 's \<Rightarrow> 's \<Rightarrow> bool"
  for send now s where
  silent: "outputs send now s s"
| tick: "outputs send now s s' \<Longrightarrow> outputs send now s (snd (now s'))"
| emit: "outputs send now s s' \<Longrightarrow> outputs send now s (send conn msg s')"

lemma outputs_now: "now s = (ts, s') \<Longrightarrow> outputs send now s s'"
  using outputs.tick [OF outputs.silent, where now = now and s = s and send = send] by simp

lemma outputs_deliver: "outputs send now s s' \<Longrightarrow> outputs send now s (deliver send now m s')"
  using outputs.tick [of send now s s'] by (cases m; cases "now s'") (simp add: deliver_def outputs.emit)

lemma outputs_fold: "outputs send now s s' \<Longrightarrow> outputs send now s (fold (deliver send now) ms s')"
  by (induction ms arbitrary: s') (auto intro: outputs_deliver)

definition line_effect :: "(u64 \<Rightarrow> string \<Rightarrow> 's \<Rightarrow> 's) \<Rightarrow> ('s \<Rightarrow> string \<times> 's) \<Rightarrow> u64 \<Rightarrow> Venue \<Rightarrow> 's \<Rightarrow> Venue \<Rightarrow> 's \<Rightarrow> bool" where
  "line_effect send now conn v s v' s' \<longleftrightarrow> venue_inv v' \<and> records_forward conn (v_tables v) (v_tables v') \<and>
     vt_softCap (v_tables v') = vt_softCap (v_tables v) \<and>
     vt_nextEngineId (v_tables v') \<in> {vt_nextEngineId (v_tables v), vt_nextEngineId (v_tables v) + 1} \<and>
     outputs send now s s'"

lemma line_effect_same: "venue_inv v \<Longrightarrow> outputs send now s s' \<Longrightarrow> line_effect send now conn v s v s'"
  by (simp add: line_effect_def records_forward_same)

lemma handleNewOrder_effect:
  assumes inv: "venue_inv v" and room: "admissible conn m (v_tables v) \<Longrightarrow> order_room dbg m v"
  shows "\<exists>v' s'. handleNewOrder dbg send now conn m v s = Inr (v', s') \<and> line_effect send now conn v s v' s'"
proof -
  obtain ts s1 where now: "now s = (ts, s1)" by (cases "now s")
  have ok: "maps_ok (v_tables v)" using venue_invD(3) [OF inv] by (simp add: tables_rep_def)
  show ?thesis
  proof (cases "admissible conn m (v_tables v)")
    case True
    obtain fs q' rs' where m: "order_match conn m (abs_book (v_book v)) = (fs, q', rs')" by (metis prod_cases3)
    obtain v' where v': "handleNewOrder dbg send now conn m v s = Inr (v',
        fold (deliver send now) (fill_msgs (toEngineSide (im_side m)) (cid_of (opened conn m (v_tables v)))
          (vt_nextEngineId (v_tables v)) conn (im_qty m) fs)
        (send conn (encodeAck (im_clientOrderId m) (exchange_id (vt_nextEngineId (v_tables v))) ts) s1))"
      and inv': "venue_inv v'" "vt_nextEngineId (v_tables v') = vt_nextEngineId (v_tables v) + 1"
        "vt_softCap (v_tables v') = vt_softCap (v_tables v)"
      and rec: "record_of (v_tables v') = (\<lambda>c k. map_option (filled_record (v_tables v')) (record_of (opened conn m (v_tables v)) c k))"
      by (rule acceptOrder_outcome [where now = now and s = s and send = send, OF inv True room [OF True] m now]) blast
    have "records_forward conn (v_tables v) (v_tables v')"
      using True unfolding records_forward_def rec opened_lookups [OF ok] admissible_def
      by (auto simp: filled_record_def split: if_splits)
    moreover have "outputs send now s (fold (deliver send now) (fill_msgs (toEngineSide (im_side m))
          (cid_of (opened conn m (v_tables v))) (vt_nextEngineId (v_tables v)) conn (im_qty m) fs)
        (send conn (encodeAck (im_clientOrderId m) (exchange_id (vt_nextEngineId (v_tables v))) ts) s1))"
      using now by (intro outputs_fold outputs.emit outputs_now)
    ultimately show ?thesis using v' inv' by (auto simp: line_effect_def)
  next
    case False
    let ?v = "if shape_ok m then touched conn v else v"
    have "line_effect send now conn v s ?v s'" if "outputs send now s s'" for s'
      using that inv touched_inv [OF inv, of conn] by (simp add: line_effect_def records_forward_same)
    moreover have "outputs send now s (send conn msg s1)" for msg
      using now by (intro outputs.emit outputs_now)
    ultimately show ?thesis
      unfolding handleNewOrder_split [OF inv] now using False by simp
  qed
qed

lemma handleCancel_frame:
  "handleCancel dbg send now conn m v s = Inr (v', s') \<Longrightarrow>
     vt_softCap (v_tables v') = vt_softCap (v_tables v) \<and>
     vt_nextEngineId (v_tables v') = vt_nextEngineId (v_tables v)"
  by (auto simp: handleCancel_def Let_def bindR_eq_Inr split: prod.splits if_splits option.splits)

lemma handleCancel_effect:
  assumes inv: "venue_inv v"
  shows "\<exists>v' s'. handleCancel dbg send now conn m v s = Inr (v', s') \<and> line_effect send now conn v s v' s'"
proof -
  obtain ts s1 where now: "now s = (ts, s1)" by (cases "now s")
  have out: "outputs send now s (send conn msg s1)" for msg
    using now by (intro outputs.emit outputs_now)
  show ?thesis
  proof (cases "im_hasClientOrderId m")
    case False
    with now inv show ?thesis by (auto simp: handleCancel_def intro!: line_effect_same out)
  next
    case True
    note c = cancel_outcome_run [where now = now and s = s and conn = conn and dbg = dbg and send = send,
        OF inv True now, unfolded Let_def]
    show ?thesis
    proof (cases "record_of (v_tables v) conn (im_clientOrderId m)")
      case None
      with c inv show ?thesis by (auto intro!: line_effect_same out)
    next
      case (Some r)
      show ?thesis
      proof (cases "cr_state r")
        case Resting
        with c Some obtain v' where v': "handleCancel dbg send now conn m v s =
            Inr (v', send conn (encodeCancelAck (im_clientOrderId m) (cr_exchangeId r) ts) s1)" "venue_inv v'"
          and rec: "\<And>c k. record_of (v_tables v') c k =
              (if c = conn \<and> k = im_clientOrderId m then Some (r\<lparr>cr_state := Cancelled\<rparr>) else record_of (v_tables v) c k)"
          by auto
        have "records_forward conn (v_tables v) (v_tables v')"
          using Some Resting by (auto simp: records_forward_def rec)
        with v' handleCancel_frame [OF v'(1)] out show ?thesis by (auto simp: line_effect_def)
      qed (use c Some inv in \<open>auto intro!: line_effect_same out\<close>)
    qed
  qed
qed

lemma handleLine_run:
  assumes inv: "venue_inv v" and room: "line_room dbg conn msg v"
  shows "\<exists>v' s'. handleLine dbg send now conn msg v s = Inr (v', s') \<and> line_effect send now conn v s v' s'"
proof (cases "im_parseError (parseInbound msg) \<or> im_type (parseInbound msg) = Unknown")
  case True
  with inv show ?thesis
    by (auto simp: handleLine_def Let_def intro!: line_effect_same outputs_deliver outputs.silent)
next
  case False
  show ?thesis
  proof (cases "im_type (parseInbound msg)")
    case NewOrder
    with room have "admissible conn (parseInbound msg) (v_tables v) \<Longrightarrow> order_room dbg (parseInbound msg) v"
      by (simp add: line_room_def Let_def)
    from handleNewOrder_effect [OF inv this, where send = send and now = now and s = s] False NewOrder show ?thesis
      by (simp add: handleLine_def Let_def)
  next
    case Cancel
    with handleCancel_effect [OF inv, of dbg send now conn "parseInbound msg" s] False show ?thesis
      by (simp add: handleLine_def Let_def)
  next
    case Heartbeat
    with False inv show ?thesis by (simp add: handleLine_def Let_def line_effect_same outputs.silent)
  next
    case Unknown
    with False show ?thesis by simp
  qed
qed

section \<open>Sessions\<close>

text \<open>The world \<open>'s\<close> may also move on by itself between two steps; it is free in each rule.\<close>

inductive venue_step :: "bool \<Rightarrow> (u64 \<Rightarrow> string \<Rightarrow> 's \<Rightarrow> 's) \<Rightarrow> ('s \<Rightarrow> string \<times> 's) \<Rightarrow> Venue \<Rightarrow> Venue \<Rightarrow> bool"
  for dbg send now where
  request: "line_room dbg conn text v \<Longrightarrow> handleLine dbg send now conn text v s = Inr (v', s') \<Longrightarrow>
    venue_step dbg send now v v'"
| hangup: "dropConnection dbg conn v = Inr v' \<Longrightarrow> venue_step dbg send now v v'"

inductive venue_reachable :: "bool \<Rightarrow> (u64 \<Rightarrow> string \<Rightarrow> 's \<Rightarrow> 's) \<Rightarrow> ('s \<Rightarrow> string \<times> 's) \<Rightarrow> Venue \<Rightarrow> bool"
  for dbg send now where
  start: "Venue_new bookCapacity softCap = Inr v \<Longrightarrow> softCap < bookCapacity \<Longrightarrow> venue_reachable dbg send now v"
| step: "venue_reachable dbg send now v \<Longrightarrow> venue_step dbg send now v v' \<Longrightarrow> venue_reachable dbg send now v'"

inductive_cases venue_stepE: "venue_step dbg send now v v'"

lemma Venue_new_inv:
  assumes "Venue_new bookCapacity softCap = Inr v" and "softCap < bookCapacity"
  shows "venue_inv v"
proof -
  have "bookCapacity \<noteq> 0" using assms(2) by auto
  then obtain b where b: "OrderBook_new bookCapacity = Inr b" "book_inv b" "op_capacity (ob_pool b) = bookCapacity"
    "abs_book b = \<lparr>sb_bids = [], sb_asks = [], sb_sequence = 0\<rparr>"
    by (rule OrderBook_new_ok)
  let ?T = "\<lparr>vt_softCap = softCap, vt_nextEngineId = 1, vt_hasLastTrade = False,
      vt_lastTradeTicks = 0, vt_byEngineId = [], vt_byConn = []\<rparr>"
  have "v = \<lparr>v_tables = ?T, v_book = b\<rparr>" using assms(1) b(1) by (simp add: Venue_new_def)
  also have "venue_inv \<dots>"
  proof (rule venue_invI)
    show "tables_rep ?T (ord_map (spec_orders (abs_book b)))"
      by (simp add: b(4) spec_orders_def tables_rep_def maps_ok_def live_synced_def records_synced_def live_of_def
        record_of_def)
    show "spec_ok (abs_book b)"
      by (simp add: b(4) spec_ok_def priority_side_def uncrossed_def spec_orders_def)
  qed (use b assms(2) in \<open>simp_all add: spec_orders_def word_less_nat_alt\<close>)
  finally show ?thesis .
qed

lemma venue_step_inv: "venue_step dbg send now v v' \<Longrightarrow> venue_inv v \<Longrightarrow> venue_inv v'"
proof (induction rule: venue_step.induct)
  case (request conn msg v s v' s')
  with handleLine_run [where v = v and dbg = dbg and conn = conn and msg = msg and send = send and now = now and s = s] show ?case by (auto simp: line_effect_def)
next
  case (hangup conn v v')
  with drop_outcome_run [of v dbg conn] show ?case by auto
qed

lemma venue_reachable_inv: "venue_reachable dbg send now v \<Longrightarrow> venue_inv v"
  by (induction rule: venue_reachable.induct) (blast intro: Venue_new_inv venue_step_inv)+

text \<open>C3: Every venue that can be reached, by any requests of any clients in any order and any connections
  that close in between, satisfies the invariant: the tables and the core agree order by order, the book
  is uncrossed and in price-time priority, no more orders rest than the soft cap, and the pool has a slot
  left for the next one.\<close>

theorem venue_always_synced:
  assumes "venue_reachable dbg send now v"
  shows "venue_inv v \<and> spec_ok (abs_book (v_book v)) \<and>
    length (spec_orders (abs_book (v_book v))) \<le> unat (vt_softCap (v_tables v)) \<and>
    0 < op_freeCount (ob_pool (v_book v))"
proof -
  have inv: "venue_inv v" by (rule venue_reachable_inv [OF assms])
  note i = venue_invD [OF inv]
  have "0 < op_freeCount (ob_pool (v_book v))"
    unfolding book_space [OF i(1)] using i(5,6) by linarith
  with inv i(2,5) show ?thesis by simp
qed

text \<open>A new venue after the first request of a client, as the witnesses use it.\<close>

definition first_request :: "Venue \<times> (u64 \<times> string) list" where
  "first_request = projr (handleLine True outbox still 7 (new_order_text [] ''a'' ''SIM1'' OBuy 150 3)
     (projr (Venue_new 6 4)) [])"

lemma first_request_reachable: "venue_reachable True outbox still (fst first_request)"
proof (rule venue_reachable.step [OF venue_reachable.start venue_step.request])
  show "Venue_new 6 4 = Inr (projr (Venue_new 6 4))" by code_simp
  show "(4 :: u64) < 6" by simp
  show "line_room True 7 (new_order_text [] ''a'' ''SIM1'' OBuy 150 3) (projr (Venue_new 6 4))" by code_simp
  show "handleLine True outbox still 7 (new_order_text [] ''a'' ''SIM1'' OBuy 150 3) (projr (Venue_new 6 4)) [] =
    Inr (fst first_request, snd first_request)" by code_simp
qed

theorem venue_always_synced_witness:
  "venue_inv (fst first_request) \<and> spec_ok (abs_book (v_book (fst first_request))) \<and>
    length (spec_orders (abs_book (v_book (fst first_request)))) \<le> unat (vt_softCap (v_tables (fst first_request))) \<and>
    0 < op_freeCount (ob_pool (v_book (fst first_request)))"
  by (rule venue_always_synced [OF first_request_reachable])

text \<open>C7: No request can make a reachable venue fault: whatever the text is, the handler returns, provided only
  that a new order does not use up the 64-bit engine ids and, with asserts compiled in, finds a place for
  its price level. A connection may close at any time. A client's records then only move forward: none is
  lost while the connection lasts, the ids in it stay, \<open>Filled\<close> and \<open>Cancelled\<close> are final, and new records
  are the sender's and carry a fresh engine id.\<close>

theorem requests_never_fault:
  assumes "venue_reachable dbg send now v" and "line_room dbg conn msg v"
  shows "(\<exists>v' s'. handleLine dbg send now conn msg v s = Inr (v', s') \<and>
      venue_reachable dbg send now v' \<and> records_forward conn (v_tables v) (v_tables v')) \<and>
    (\<exists>v'. dropConnection dbg conn v = Inr v' \<and> venue_reachable dbg send now v')"
proof -
  have inv: "venue_inv v" by (rule venue_reachable_inv [OF assms(1)])
  have "\<exists>v' s'. handleLine dbg send now conn msg v s = Inr (v', s') \<and>
      venue_reachable dbg send now v' \<and> records_forward conn (v_tables v) (v_tables v')"
    using handleLine_run [OF inv assms(2), where send = send and now = now and s = s, unfolded line_effect_def]
      venue_reachable.step [OF assms(1) venue_step.request [OF assms(2)]]
    by blast
  moreover have "\<exists>v'. dropConnection dbg conn v = Inr v' \<and> venue_reachable dbg send now v'"
    using drop_outcome_run [OF inv, of dbg conn] venue_reachable.step [OF assms(1) venue_step.hangup] by blast
  ultimately show ?thesis by blast
qed

theorem requests_never_fault_witness:
  "(\<exists>v' s'. handleLine True outbox still 7 (cancel_text [] ''a'') (fst first_request) [] = Inr (v', s') \<and>
      venue_reachable True outbox still v' \<and> records_forward 7 (v_tables (fst first_request)) (v_tables v')) \<and>
    (\<exists>v'. dropConnection True 7 (fst first_request) = Inr v' \<and> venue_reachable True outbox still v')"
  by (rule requests_never_fault [OF first_request_reachable]) code_simp

text \<open>C8: Through the venue nobody trades with himself and no quantity is lost: an accepted order is filled
  only against other owners, within its limit, and what rests afterwards and twice what was traded make
  up what rested before and the new order. The core's self-match rule, which would drop a remainder
  without telling the venue, is never reached.\<close>

theorem order_conserves:
  assumes "venue_inv v" and "admissible conn m (v_tables v)" and "order_room dbg m v"
    and "handleNewOrder dbg send now conn m v s = Inr (v', s')"
  shows "let fs = fst (order_match conn m (abs_book (v_book v))) in
    (\<forall>(r, f) \<in> set fs. o_participantId r \<noteq> conn \<and> crosses (toEngineSide (im_side m)) (im_priceTicks m) (o_price r) \<and>
       0 < f \<and> f \<le> o_quantity r) \<and>
    volume (spec_orders (abs_book (v_book v'))) + 2 * filled fs =
      volume (spec_orders (abs_book (v_book v))) + unat (im_qty m)"
proof -
  let ?sb = "abs_book (v_book v)" and ?side = "toEngineSide (im_side m)"
  note i = venue_invD [OF assms(1)]
  obtain ts s1 where now: "now s = (ts, s1)" by (cases "now s")
  obtain fs q' rs where m: "order_match conn m ?sb = (fs, q', rs)" by (metis prod_cases3)
  note m' = m [unfolded order_match_def]
  have abs: "abs_book (v_book v') = snd (spec_add ?side (im_priceTicks m) (im_qty m) (vt_nextEngineId (v_tables v)) conn ?sb)"
    by (rule acceptOrder_outcome [where now = now and s = s and send = send, OF assms(1-3) m now])
      (use assms(4) in simp)
  have others: "\<not> \<not> crosses ?side (im_priceTicks m) (o_price r) \<longrightarrow> o_participantId r \<noteq> conn" if "r \<in> set (other_side ?side ?sb)" for r
    using assms(2) wouldSelfCross_iff [OF assms(1), of conn "im_side m" "im_priceTicks m"] that by (auto simp: admissible_def)
  have pos: "\<forall>r \<in> set (other_side ?side ?sb). 0 < o_quantity r"
    using i(2) other_side_orders [of _ ?side ?sb] by (auto simp: spec_ok_def)
  have fills: "\<forall>(r, f) \<in> set fs. o_participantId r \<noteq> conn \<and> crosses ?side (im_priceTicks m) (o_price r) \<and> 0 < f \<and> f \<le> o_quantity r"
    using spec_match_fill [OF m'] spec_match_positive [OF m' pos] by fastforce
  have "filled fs + unat q' = unat (im_qty m)"
    using others by (intro spec_match_quantity [OF m']) blast
  moreover have "volume (other_side ?side ?sb) = filled fs + volume rs" by (rule spec_match_volume [OF m'])
  moreover have "volume (spec_orders (abs_book (v_book v'))) + volume (other_side ?side ?sb) =
      volume (spec_orders ?sb) + volume rs + unat q'"
    using m' unfolding abs by (rule_tac spec_add_match [of ?side "im_priceTicks m" conn "im_qty m" ?sb]) simp
  ultimately show ?thesis using fills by (simp add: m)
qed

theorem order_conserves_witness:
  "let fs = fst (order_match 8 (order_msg ''c'' OBuy 101 8) (abs_book (v_book small_venue))) in
    (\<forall>(r, f) \<in> set fs. o_participantId r \<noteq> 8 \<and> crosses (toEngineSide (im_side (order_msg ''c'' OBuy 101 8)))
       (im_priceTicks (order_msg ''c'' OBuy 101 8)) (o_price r) \<and> 0 < f \<and> f \<le> o_quantity r) \<and>
    volume (spec_orders (abs_book (v_book (fst (projr (handleNewOrder True outbox still 8 (order_msg ''c'' OBuy 101 8) small_venue [])))))) +
      2 * filled fs = volume (spec_orders (abs_book (v_book small_venue))) + unat (im_qty (order_msg ''c'' OBuy 101 8))"
  by (rule order_conserves [OF small_venue_inv, where dbg = True and send = outbox and now = still and s = "[]"
        and s' = "snd (projr (handleNewOrder True outbox still 8 (order_msg ''c'' OBuy 101 8) small_venue []))"]) code_simp+

text \<open>C16: The market data tell the truth: the bid and the ask shown are the best prices at which orders rest,
  they are shown exactly if there are any on that side, and the bid is below the ask.\<close>

theorem top_of_book:
  assumes "venue_reachable dbg send now v"
  shows "let t = currentTop v; sb = abs_book (v_book v) in
    top_hasBid t = (sb_bids sb \<noteq> []) \<and> (\<forall>x \<in> set (sb_bids sb). o_price x \<le> top_bidTicks t) \<and>
    (top_hasBid t \<longrightarrow> top_bidTicks t \<in> o_price ` set (sb_bids sb)) \<and>
    top_hasAsk t = (sb_asks sb \<noteq> []) \<and> (\<forall>x \<in> set (sb_asks sb). top_askTicks t \<le> o_price x) \<and>
    (top_hasAsk t \<longrightarrow> top_askTicks t \<in> o_price ` set (sb_asks sb)) \<and>
    (top_hasBid t \<and> top_hasAsk t \<longrightarrow> top_bidTicks t < top_askTicks t)"
proof -
  have inv: "venue_inv v" by (rule venue_reachable_inv [OF assms])
  note i = venue_invD [OF inv]
  let ?sb = "abs_book (v_book v)"
  have bids: "sorted_wrt (\<lambda>x y. o_price y \<le> o_price x) (sb_bids ?sb)" and asks: "sorted_wrt (\<lambda>x y. o_price x \<le> o_price y) (sb_asks ?sb)"
    using i(2) unfolding spec_ok_def priority_side_def by (auto elim!: sorted_wrt_mono_rel [rotated] simp: before_def)
  have uncrossed: "\<forall>x \<in> set (sb_bids ?sb). \<forall>y \<in> set (sb_asks ?sb). o_price x < o_price y"
    using i(2) by (simp add: spec_ok_def uncrossed_def)
  have levels: "map_option pl_price (bestBid (v_book v)) = (case sb_bids ?sb of [] \<Rightarrow> None | x # xs \<Rightarrow> Some (o_price x))"
    "map_option pl_price (bestAsk (v_book v)) = (case sb_asks ?sb of [] \<Rightarrow> None | x # xs \<Rightarrow> Some (o_price x))"
    using best_levels_run [OF i(1)] by (auto split: list.splits)
  have bid: "top_hasBid (currentTop v) = (sb_bids ?sb \<noteq> [])"
    "sb_bids ?sb \<noteq> [] \<Longrightarrow> top_bidTicks (currentTop v) = o_price (hd (sb_bids ?sb))"
    using levels(1) by (auto simp: currentTop_def Let_def split: list.splits)
  have ask: "top_hasAsk (currentTop v) = (sb_asks ?sb \<noteq> [])"
    "sb_asks ?sb \<noteq> [] \<Longrightarrow> top_askTicks (currentTop v) = o_price (hd (sb_asks ?sb))"
    using levels(2) by (auto simp: currentTop_def Let_def split: list.splits)
  have "\<forall>x \<in> set (sb_bids ?sb). o_price x \<le> top_bidTicks (currentTop v)"
    using bid bids by (cases "sb_bids ?sb") auto
  moreover have "\<forall>x \<in> set (sb_asks ?sb). top_askTicks (currentTop v) \<le> o_price x"
    using ask asks by (cases "sb_asks ?sb") auto
  ultimately show ?thesis
    unfolding Let_def using bid ask uncrossed by auto
qed

theorem top_of_book_witness:
  "let t = currentTop (fst first_request); sb = abs_book (v_book (fst first_request)) in
    top_hasBid t = (sb_bids sb \<noteq> []) \<and> (\<forall>x \<in> set (sb_bids sb). o_price x \<le> top_bidTicks t) \<and>
    (top_hasBid t \<longrightarrow> top_bidTicks t \<in> o_price ` set (sb_bids sb)) \<and>
    top_hasAsk t = (sb_asks sb \<noteq> []) \<and> (\<forall>x \<in> set (sb_asks sb). top_askTicks t \<le> o_price x) \<and>
    (top_hasAsk t \<longrightarrow> top_askTicks t \<in> o_price ` set (sb_asks sb)) \<and>
    (top_hasBid t \<and> top_hasAsk t \<longrightarrow> top_bidTicks t < top_askTicks t)"
  by (rule top_of_book [OF first_request_reachable])

end
