(* ===== verification/Server.thy ===== *)
theory Server
  imports VenueSessions Framing
begin

text \<open>
  The server (\<open>venue/server.h\<close>, \<open>venue/server.cpp\<close>): one \<open>poll\<close> loop over non-blocking sockets. What
  the operating system answers is an input: the results of \<open>accept\<close>, \<open>recv\<close> and \<open>send\<close> are lists, one
  element per call, and a pass of the loop gets all answers of its calls as a record. A list that ends
  before the loop that reads it is the fault \<open>OutOfFuel\<close>: the code would go on calling. File
  descriptors are \<open>int\<close>, as in the code; \<open>clock\<close> gives the readings of the system clock in order, broken
  down as \<open>gmtime_r\<close> does, with the milliseconds.
\<close>

section \<open>State\<close>

record Conn =
  cn_fd :: int
  cn_decoder :: FrameDecoder
  cn_out :: string

text \<open>
  What \<open>enqueue\<close>, the \<open>SendFn\<close> of the venue, can change; and two counters of the model, the clock readings so
  far and the descriptors closed.
\<close>

record Net =
  n_conns :: "(int, Conn) umap"
  n_connFd :: "(u64, int) umap"
  n_fdConn :: "(int, u64) umap"
  n_clock :: nat
  n_closed :: "int list"

record Server =
  sv_port :: "16 word"
  sv_heartbeatMs :: int
  sv_listenFd :: int
  sv_nextConnId :: u64
  sv_heartbeatSeq :: u64
  sv_lastTop :: Top
  sv_net :: Net
  sv_venue :: Venue

definition Top_new :: Top where
  "Top_new = \<lparr>top_hasBid = False, top_bidTicks = 0, top_hasAsk = False, top_askTicks = 0,
              top_hasLast = False, top_lastTicks = 0\<rparr>"

definition Server_new :: "16 word \<Rightarrow> u64 \<Rightarrow> u64 \<Rightarrow> int \<Rightarrow> fault + Server" where
  "Server_new port bookCapacity softCap heartbeatMs =
     bindR (Venue_new bookCapacity softCap) (\<lambda>v.
     Inr \<lparr>sv_port = port, sv_heartbeatMs = heartbeatMs, sv_listenFd = -1, sv_nextConnId = 1, sv_heartbeatSeq = 0,
          sv_lastTop = Top_new,
          sv_net = \<lparr>n_conns = [], n_connFd = [], n_fdConn = [], n_clock = 0, n_closed = []\<rparr>, sv_venue = v\<rparr>)"

section \<open>Answers of the operating system\<close>

datatype AcceptResult = Accepted int | AcceptAgain | AcceptIntr | AcceptFailed
datatype RecvResult = RecvData string | RecvEof | RecvAgain | RecvIntr | RecvFailed
datatype SendResult = Sent nat | SendAgain | SendIntr | SendFailed
datatype PollResult = PollReady | PollIntr | PollFailed

text \<open>The three groups of bits of \<open>revents\<close> that the loop looks at: \<open>POLLIN\<close>, \<open>POLLOUT\<close>, and any of
  \<open>POLLHUP | POLLERR | POLLNVAL\<close>.\<close>

record Revents =
  re_in :: bool
  re_out :: bool
  re_hup :: bool

text \<open>
  All answers in one pass. \<open>poll\<close> is asked with the descriptors, the listening one first, whether it is to
  look for room to write, and the timeout. Steady clock readings are in nanoseconds.
\<close>

record PassInput =
  pi_poll :: "(int \<times> bool) list \<Rightarrow> int \<Rightarrow> PollResult \<times> (int \<Rightarrow> Revents)"
  pi_beforePoll :: int
  pi_afterPoll :: int
  pi_afterFeed :: int
  pi_accepts :: "AcceptResult list"
  pi_recvs :: "int \<Rightarrow> RecvResult list"
  pi_sends :: "int \<Rightarrow> SendResult list"

section \<open>Output\<close>

definition clock_now :: "(nat \<Rightarrow> Tm \<times> int) \<Rightarrow> Net \<Rightarrow> string \<times> Net" where
  "clock_now clock n = (case clock (n_clock n) of (tm, ms) \<Rightarrow>
     (isoTimestampNow tm ms, n\<lparr>n_clock := n_clock n + 1\<rparr>))"

definition mdPayload :: "Top \<Rightarrow> string \<Rightarrow> string" where
  "mdPayload t ts = encodeMarketData kSymbol (top_hasBid t) (top_bidTicks t) (top_hasAsk t) (top_askTicks t)
     (top_hasLast t) (top_lastTicks t) ts"

definition enqueue :: "u64 \<Rightarrow> string \<Rightarrow> Net \<Rightarrow> Net" where
  "enqueue cid text n =
     (case um_find (n_connFd n) cid of
        None \<Rightarrow> n
      | Some fd \<Rightarrow> (case um_find (n_conns n) fd of
          None \<Rightarrow> n
        | Some c \<Rightarrow> n\<lparr>n_conns := um_assign (n_conns n) fd (c\<lparr>cn_out := cn_out c @ encodeFrame text\<rparr>)\<rparr>))"

definition broadcastPayload :: "string \<Rightarrow> Net \<Rightarrow> Net" where
  "broadcastPayload text n =
     (let framed = encodeFrame text
      in n\<lparr>n_conns := map (\<lambda>(fd, c). (fd, c\<lparr>cn_out := cn_out c @ framed\<rparr>)) (n_conns n)\<rparr>)"

definition broadcastTop :: "(nat \<Rightarrow> Tm \<times> int) \<Rightarrow> Top \<Rightarrow> Net \<Rightarrow> Net" where
  "broadcastTop clock t n = (case clock_now clock n of (ts, n) \<Rightarrow> broadcastPayload (mdPayload t ts) n)"

definition broadcastFeed :: "(nat \<Rightarrow> Tm \<times> int) \<Rightarrow> bool \<Rightarrow> Server \<Rightarrow> Server" where
  "broadcastFeed clock includeHeartbeat s =
     (let s = (if includeHeartbeat
               then let hb = sv_heartbeatSeq s + 1 in
                 case clock_now clock (sv_net s) of (ts, n) \<Rightarrow>
                   s\<lparr>sv_heartbeatSeq := hb, sv_net := broadcastPayload (encodeHeartbeat hb ts) n\<rparr>
               else s);
          t = currentTop (sv_venue s)
      in s\<lparr>sv_lastTop := t, sv_net := broadcastTop clock t (sv_net s)\<rparr>)"

section \<open>Connections\<close>

definition setNonBlocking :: "int \<Rightarrow> int \<Rightarrow> bool" where
  "setNonBlocking getResult setResult = (if getResult < 0 then False else setResult \<ge> 0)"

text \<open>\<open>setupListen\<close>, with the answers to \<open>socket\<close>, \<open>bind\<close>, \<open>listen\<close> and the two \<open>fcntl\<close> calls.\<close>

definition setupListen :: "int \<Rightarrow> int \<Rightarrow> int \<Rightarrow> int \<Rightarrow> int \<Rightarrow> Server \<Rightarrow> bool \<times> Server" where
  "setupListen sock bnd lsn getResult setResult s =
     (let s = s\<lparr>sv_listenFd := sock\<rparr> in
      if sock < 0 then (False, s)
      else if bnd < 0 then (False, s)
      else if lsn < 0 then (False, s)
      else if \<not> setNonBlocking getResult setResult then (False, s)
      else (True, s))"

fun acceptNew :: "(nat \<Rightarrow> Tm \<times> int) \<Rightarrow> AcceptResult list \<Rightarrow> Server \<Rightarrow> fault + Server" where
  "acceptNew clock [] s = Inl OutOfFuel"
| "acceptNew clock (AcceptAgain # as) s = Inr s"
| "acceptNew clock (AcceptIntr # as) s = acceptNew clock as s"
| "acceptNew clock (AcceptFailed # as) s = Inr s"
| "acceptNew clock (Accepted cfd # as) s =
     (let cid = sv_nextConnId s;
          n = sv_net s;
          n = n\<lparr>n_conns := um_emplace (n_conns n) cfd \<lparr>cn_fd = cfd, cn_decoder = FrameDecoder_new, cn_out = []\<rparr>,
                n_connFd := um_assign (n_connFd n) cid cfd,
                n_fdConn := um_assign (n_fdConn n) cfd cid\<rparr>;
          n = (case clock_now clock n of (ts, n) \<Rightarrow> enqueue cid (mdPayload (currentTop (sv_venue s)) ts) n)
      in acceptNew clock as (s\<lparr>sv_nextConnId := cid + 1, sv_net := n\<rparr>))"

definition closeConn :: "bool \<Rightarrow> int \<Rightarrow> Server \<Rightarrow> fault + Server" where
  "closeConn dbg fd s =
     bindR (case um_find (n_fdConn (sv_net s)) fd of
              None \<Rightarrow> Inr s
            | Some cid \<Rightarrow> bindR (dropConnection dbg cid (sv_venue s)) (\<lambda>v.
                let n = sv_net s
                in Inr (s\<lparr>sv_venue := v, sv_net := n\<lparr>n_connFd := um_erase (n_connFd n) cid,
                                                    n_fdConn := um_erase (n_fdConn n) fd\<rparr>\<rparr>))) (\<lambda>s.
     let n = sv_net s
     in Inr (s\<lparr>sv_net := n\<lparr>n_conns := um_erase (n_conns n) fd, n_closed := n_closed n @ [fd]\<rparr>\<rparr>))"

text \<open>\<open>conns_[fd]\<close> and \<open>fdConn_[fd]\<close>: the subscript makes a default element where there is none.\<close>

definition conn_at :: "int \<Rightarrow> Net \<Rightarrow> Conn \<times> Net" where
  "conn_at fd n =
     (let n = n\<lparr>n_conns := um_emplace (n_conns n) fd \<lparr>cn_fd = 0, cn_decoder = FrameDecoder_new, cn_out = []\<rparr>\<rparr>
      in (case um_find (n_conns n) fd of
            None \<Rightarrow> \<lparr>cn_fd = 0, cn_decoder = FrameDecoder_new, cn_out = []\<rparr>
          | Some c \<Rightarrow> c, n))"

definition set_conn :: "int \<Rightarrow> Conn \<Rightarrow> Net \<Rightarrow> Net" where
  "set_conn fd c n = n\<lparr>n_conns := um_assign (n_conns n) fd c\<rparr>"

definition conn_id_at :: "int \<Rightarrow> Net \<Rightarrow> u64 \<times> Net" where
  "conn_id_at fd n =
     (let n = n\<lparr>n_fdConn := um_emplace (n_fdConn n) fd 0\<rparr>
      in (case um_find (n_fdConn n) fd of None \<Rightarrow> 0 | Some cid \<Rightarrow> cid, n))"

text \<open>The first loop of \<open>handleReadable\<close>; \<open>False\<close> says that the connection is to be closed.\<close>

fun recv_loop :: "int \<Rightarrow> RecvResult list \<Rightarrow> Net \<Rightarrow> fault + bool \<times> Net" where
  "recv_loop fd [] n = Inl OutOfFuel"
| "recv_loop fd (RecvData d # rs) n =
     (case conn_at fd n of (c, n) \<Rightarrow> recv_loop fd rs (set_conn fd (c\<lparr>cn_decoder := feed (cn_decoder c) d\<rparr>) n))"
| "recv_loop fd (RecvEof # rs) n = Inr (False, n)"
| "recv_loop fd (RecvAgain # rs) n = Inr (True, n)"
| "recv_loop fd (RecvIntr # rs) n = recv_loop fd rs n"
| "recv_loop fd (RecvFailed # rs) n = Inr (False, n)"

text \<open>The second loop; each round takes a frame off the buffer, so its length is fuel enough.\<close>

fun frames_loop :: "bool \<Rightarrow> (nat \<Rightarrow> Tm \<times> int) \<Rightarrow> nat \<Rightarrow> int \<Rightarrow> u64 \<Rightarrow> Venue \<Rightarrow> Net \<Rightarrow> fault + Venue \<times> Net" where
  "frames_loop dbg clock 0 fd cid v n = Inl OutOfFuel"
| "frames_loop dbg clock (Suc fuel) fd cid v n =
     (case conn_at fd n of (c, n) \<Rightarrow>
      case decoder_next (cn_decoder c) of (text, d) \<Rightarrow>
      let n = set_conn fd (c\<lparr>cn_decoder := d\<rparr>) n in
      case text of
        None \<Rightarrow> Inr (v, n)
      | Some text \<Rightarrow> bindR (handleLine dbg enqueue (clock_now clock) cid text v n) (\<lambda>(v, n).
          frames_loop dbg clock fuel fd cid v n))"

definition handleReadable :: "bool \<Rightarrow> (nat \<Rightarrow> Tm \<times> int) \<Rightarrow> int \<Rightarrow> RecvResult list \<Rightarrow> Server \<Rightarrow> fault + Server" where
  "handleReadable dbg clock fd rs s =
     bindR (recv_loop fd rs (sv_net s)) (\<lambda>(alive, n).
     if \<not> alive then closeConn dbg fd (s\<lparr>sv_net := n\<rparr>)
     else case conn_id_at fd n of (cid, n) \<Rightarrow>
       let fuel = Suc (length (fd_buf (cn_decoder (fst (conn_at fd n))))) in
       bindR (frames_loop dbg clock fuel fd cid (sv_venue s) n) (\<lambda>(v, n).
       let s = s\<lparr>sv_venue := v, sv_net := snd (conn_at fd n)\<rparr> in
       if fd_error (cn_decoder (fst (conn_at fd n))) then closeConn dbg fd s else Inr s))"

text \<open>The loop of \<open>handleWritable\<close>; \<open>False\<close> says that the connection is to be closed.\<close>

fun send_loop :: "SendResult list \<Rightarrow> string \<Rightarrow> fault + bool \<times> string" where
  "send_loop rs [] = Inr (True, [])"
| "send_loop [] (x # out) = Inl OutOfFuel"
| "send_loop (Sent k # rs) (x # out) = (if 0 < k then send_loop rs (drop k (x # out)) else Inr (False, x # out))"
| "send_loop (SendAgain # rs) (x # out) = Inr (True, x # out)"
| "send_loop (SendIntr # rs) (x # out) = send_loop rs (x # out)"
| "send_loop (SendFailed # rs) (x # out) = Inr (False, x # out)"

definition handleWritable :: "bool \<Rightarrow> int \<Rightarrow> SendResult list \<Rightarrow> Server \<Rightarrow> fault + Server" where
  "handleWritable dbg fd rs s =
     (case conn_at fd (sv_net s) of (c, n) \<Rightarrow>
      bindR (send_loop rs (cn_out c)) (\<lambda>(alive, out).
      let s = s\<lparr>sv_net := set_conn fd (c\<lparr>cn_out := out\<rparr>) n\<rparr>
      in if alive then Inr s else closeConn dbg fd s))"

section \<open>The loop\<close>

definition poll_timeout :: "int \<Rightarrow> int \<Rightarrow> int \<Rightarrow> int" where
  "poll_timeout heartbeatMs nextBeat now =
     (if nextBeat > now
      then let ms = (nextBeat - now) div 1000000 in if ms > heartbeatMs then heartbeatMs else ms
      else 0)"

definition poll_fds :: "Server \<Rightarrow> (int \<times> bool) list" where
  "poll_fds s = (sv_listenFd s, False) # map (\<lambda>(fd, c). (fd, cn_out c \<noteq> [])) (n_conns (sv_net s))"

definition serve_fd :: "bool \<Rightarrow> (nat \<Rightarrow> Tm \<times> int) \<Rightarrow> PassInput \<Rightarrow> (int \<Rightarrow> Revents) \<Rightarrow> int \<Rightarrow> Server \<Rightarrow> fault + Server" where
  "serve_fd dbg clock inp revents fd s =
     (let ev = revents fd in
      if \<not> (re_in ev \<or> re_out ev \<or> re_hup ev) then Inr s
      else if fd = sv_listenFd s then (if re_in ev then acceptNew clock (pi_accepts inp) s else Inr s)
      else if um_find (n_conns (sv_net s)) fd = None then Inr s
      else if re_hup ev then closeConn dbg fd s
      else bindR (if re_in ev then handleReadable dbg clock fd (pi_recvs inp fd) s else Inr s) (\<lambda>s.
        if um_find (n_conns (sv_net s)) fd \<noteq> None \<and> re_out ev
        then handleWritable dbg fd (pi_sends inp fd) s
        else Inr s))"

fun serve_all :: "bool \<Rightarrow> (nat \<Rightarrow> Tm \<times> int) \<Rightarrow> PassInput \<Rightarrow> (int \<Rightarrow> Revents) \<Rightarrow> int list \<Rightarrow> Server \<Rightarrow> fault + Server" where
  "serve_all dbg clock inp revents [] s = Inr s"
| "serve_all dbg clock inp revents (fd # fds) s =
     bindR (serve_fd dbg clock inp revents fd s) (serve_all dbg clock inp revents fds)"

definition publish_top :: "(nat \<Rightarrow> Tm \<times> int) \<Rightarrow> Server \<Rightarrow> Server" where
  "publish_top clock s =
     (let t = currentTop (sv_venue s)
      in if t \<noteq> sv_lastTop s then s\<lparr>sv_lastTop := t, sv_net := broadcastTop clock t (sv_net s)\<rparr> else s)"

text \<open>One pass of the endless loop: it goes on with a new deadline and state, or ends \<open>run\<close> with a code.\<close>

datatype Pass = Continue int Server | Exit int

text \<open>The beginning of \<open>run\<close>, up to the loop; \<open>now\<close> is the reading of the steady clock.\<close>

definition run_start :: "int \<Rightarrow> int \<Rightarrow> int \<Rightarrow> int \<Rightarrow> int \<Rightarrow> int \<Rightarrow> Server \<Rightarrow> Pass" where
  "run_start sock bnd lsn getResult setResult now s =
     (case setupListen sock bnd lsn getResult setResult s of
        (False, s) \<Rightarrow> Exit 1
      | (True, s) \<Rightarrow> Continue (now + sv_heartbeatMs s * 1000000) s)"

definition run_pass :: "bool \<Rightarrow> (nat \<Rightarrow> Tm \<times> int) \<Rightarrow> PassInput \<Rightarrow> int \<Rightarrow> Server \<Rightarrow> fault + Pass" where
  "run_pass dbg clock inp nextBeat s =
     (let pfds = poll_fds s;
          timeoutMs = poll_timeout (sv_heartbeatMs s) nextBeat (pi_beforePoll inp)
      in case pi_poll inp pfds timeoutMs of
        (PollIntr, revents) \<Rightarrow> Inr (Continue nextBeat s)
      | (PollFailed, revents) \<Rightarrow> Inr (Exit 1)
      | (PollReady, revents) \<Rightarrow>
          let (nextBeat, s) = (if pi_afterPoll inp \<ge> nextBeat
                then (pi_afterFeed inp + sv_heartbeatMs s * 1000000, broadcastFeed clock True s)
                else (nextBeat, s))
          in bindR (serve_all dbg clock inp revents (map fst pfds) s) (\<lambda>s. Inr (Continue nextBeat (publish_top clock s))))"

end
