(* ===== verification/ServerInv.thy ===== *)
theory ServerInv
  imports Server
begin

text \<open>
  The invariant of the server. The three maps of \<open>Server\<close> describe one set of connections; every
  record of the venue, and with it every resting order, belongs to a connection that is open; and
  between two passes no decoder holds a complete frame or an error. Every handler keeps it and
  returns, once the operating system's answers end the handler's loops.
\<close>

section \<open>The network state\<close>

definition conn_of :: "Net \<Rightarrow> int \<Rightarrow> Conn option" where
  "conn_of n fd = um_find (n_conns n) fd"

definition id_of :: "Net \<Rightarrow> int \<Rightarrow> u64 option" where
  "id_of n fd = um_find (n_fdConn n) fd"

definition fd_of :: "Net \<Rightarrow> u64 \<Rightarrow> int option" where
  "fd_of n cid = um_find (n_connFd n) cid"

definition net_maps_ok :: "Net \<Rightarrow> bool" where
  "net_maps_ok n \<longleftrightarrow> um_ok (n_conns n) \<and> um_ok (n_connFd n) \<and> um_ok (n_fdConn n)"

definition net_inv :: "u64 \<Rightarrow> Net \<Rightarrow> bool" where
  "net_inv nxt n \<longleftrightarrow> net_maps_ok n \<and>
     (\<forall>fd cid. id_of n fd = Some cid \<longleftrightarrow> fd_of n cid = Some fd) \<and>
     (\<forall>fd. conn_of n fd = None \<longleftrightarrow> id_of n fd = None) \<and>
     (\<forall>cid fd. fd_of n cid = Some fd \<longrightarrow> cid < nxt) \<and>
     (\<forall>fd c. conn_of n fd = Some c \<longrightarrow> cn_fd c = fd)"

text \<open>Output only appends whole frames to the buffers of open connections.\<close>

definition appended :: "Conn \<Rightarrow> string list \<Rightarrow> Conn" where
  "appended c ps = c\<lparr>cn_out := cn_out c @ concat (map encodeFrame ps)\<rparr>"

definition net_grows :: "Net \<Rightarrow> Net \<Rightarrow> bool" where
  "net_grows n n' \<longleftrightarrow> (net_maps_ok n \<longrightarrow> net_maps_ok n') \<and> id_of n' = id_of n \<and> fd_of n' = fd_of n \<and>
     n_closed n' = n_closed n \<and>
     (\<exists>ps. \<forall>fd. conn_of n' fd = map_option (\<lambda>c. appended c (ps fd)) (conn_of n fd))"

lemma appended_simps [simp]: "cn_fd (appended c ps) = cn_fd c" "cn_decoder (appended c ps) = cn_decoder c"
  "appended c [] = c" "appended (appended c ps) qs = appended c (ps @ qs)"
  by (simp_all add: appended_def)

lemma net_grows_refl: "net_grows n n"
  unfolding net_grows_def by (auto intro!: exI [of _ "\<lambda>fd. []"] simp: option.map_ident)

lemma net_grows_trans:
  assumes "net_grows n n1" and "net_grows n1 n2"
  shows "net_grows n n2"
proof -
  obtain ps qs where "\<And>fd. conn_of n1 fd = map_option (\<lambda>c. appended c (ps fd)) (conn_of n fd)"
    "\<And>fd. conn_of n2 fd = map_option (\<lambda>c. appended c (qs fd)) (conn_of n1 fd)"
    using assms unfolding net_grows_def by blast
  then have "\<forall>fd. conn_of n2 fd = map_option (\<lambda>c. appended c (ps fd @ qs fd)) (conn_of n fd)"
    by (simp add: option.map_comp comp_def)
  then have "\<exists>ps. \<forall>fd. conn_of n2 fd = map_option (\<lambda>c. appended c (ps fd)) (conn_of n fd)"
    by (rule exI [of _ "\<lambda>fd. ps fd @ qs fd"])
  with assms show ?thesis by (auto simp: net_grows_def)
qed

lemma net_grows_inv: "net_grows n n' \<Longrightarrow> net_inv nxt n \<Longrightarrow> net_inv nxt n'"
  unfolding net_grows_def net_inv_def by (auto simp: option.map_sel)

lemma net_grows_decoder: "net_grows n n' \<Longrightarrow> map_option cn_decoder (conn_of n' fd) = map_option cn_decoder (conn_of n fd)"
  unfolding net_grows_def by (auto simp: option.map_comp comp_def)

lemma net_grows_None: "net_grows n n' \<Longrightarrow> conn_of n' fd = None \<longleftrightarrow> conn_of n fd = None"
  unfolding net_grows_def by auto

lemma clock_grows: "clock_now clock n = (ts, n') \<Longrightarrow> net_grows n n'"
  unfolding clock_now_def
  by (auto simp: net_grows_def net_maps_ok_def id_of_def fd_of_def conn_of_def option.map_ident fun_eq_iff
    intro!: exI [of _ "\<lambda>fd. []"] split: prod.splits)

lemma enqueue_grows: 
  assumes "net_maps_ok n"
  shows "net_grows n (enqueue cid msg n)"
proof (cases "fd_of n cid")
  case None
  then show ?thesis by (simp add: enqueue_def fd_of_def net_grows_refl)
next
  case (Some fd)
  show ?thesis
  proof (cases "conn_of n fd")
    case None
    with Some show ?thesis by (simp add: enqueue_def fd_of_def conn_of_def net_grows_refl)
  next
    case (Some c)
    with \<open>fd_of n cid = Some fd\<close> have e: "enqueue cid msg n = n\<lparr>n_conns := um_assign (n_conns n) fd (appended c [msg])\<rparr>"
      by (simp add: enqueue_def fd_of_def conn_of_def appended_def)
    have "\<forall>g. conn_of (enqueue cid msg n) g = map_option (\<lambda>c. appended c (if g = fd then [msg] else [])) (conn_of n g)"
      using assms Some by (simp add: e conn_of_def um_simps net_maps_ok_def option.map_ident)
    then have "\<exists>ps. \<forall>g. conn_of (enqueue cid msg n) g = map_option (\<lambda>c. appended c (ps g)) (conn_of n g)"
      by (rule exI [of _ "\<lambda>g. if g = fd then [msg] else []"])
    then show ?thesis
      using assms by (auto simp: net_grows_def e net_maps_ok_def um_simps id_of_def fd_of_def fun_eq_iff)
  qed
qed

lemma um_find_map: "um_find (map (\<lambda>(k, v). (k, f v)) m) k = map_option f (um_find m k)"
  by (induction m) (auto simp: um_find_def)

lemma um_ok_map: "um_ok (map (\<lambda>(k, v). (k, f v)) m) = um_ok m"
  by (simp add: um_ok_def comp_def case_prod_unfold)

lemma broadcastPayload_grows: "net_grows n (broadcastPayload msg n)"
proof -
  have "\<forall>fd. conn_of (broadcastPayload msg n) fd = map_option (\<lambda>c. appended c [msg]) (conn_of n fd)"
    by (simp add: broadcastPayload_def conn_of_def um_find_map appended_def)
  then have "\<exists>ps. \<forall>fd. conn_of (broadcastPayload msg n) fd = map_option (\<lambda>c. appended c (ps fd)) (conn_of n fd)"
    by (rule exI [of _ "\<lambda>fd. [msg]"])
  then show ?thesis
    by (auto simp: net_grows_def broadcastPayload_def net_maps_ok_def um_ok_map id_of_def fd_of_def fun_eq_iff)
qed

lemma broadcastTop_grows: "net_grows n (broadcastTop clock t n)"
  by (auto simp: broadcastTop_def split: prod.split
    intro: net_grows_trans [OF clock_grows broadcastPayload_grows])

lemma outputs_grows: "outputs enqueue (clock_now clock) n n' \<Longrightarrow> net_maps_ok n \<Longrightarrow> net_grows n n'"
proof (induction rule: outputs.induct)
  case silent
  show ?case by (rule net_grows_refl)
next
  case (tick n')
  obtain ts n2 where n2: "clock_now clock n' = (ts, n2)" by force
  with net_grows_trans [OF _ clock_grows [OF n2]] tick show ?case by simp
next
  case (emit n' conn msg)
  then have "net_grows n n'" "net_maps_ok n'" by (auto simp: net_grows_def)
  then show ?case by (blast intro: net_grows_trans enqueue_grows)
qed

section \<open>The invariant\<close>

definition settled :: "FrameDecoder \<Rightarrow> bool" where
  "settled d \<longleftrightarrow> \<not> fd_error d \<and> decoder_next d = (None, d)"

definition conns_inv :: "Server \<Rightarrow> bool" where
  "conns_inv s \<longleftrightarrow> venue_inv (sv_venue s) \<and> net_inv (sv_nextConnId s) (sv_net s) \<and>
     (\<forall>c k. record_of (v_tables (sv_venue s)) c k \<noteq> None \<longrightarrow> fd_of (sv_net s) c \<noteq> None)"

definition server_inv :: "Server \<Rightarrow> bool" where
  "server_inv s \<longleftrightarrow> conns_inv s \<and> (\<forall>fd c. conn_of (sv_net s) fd = Some c \<longrightarrow> settled (cn_decoder c))"

text \<open>The part of a server that its handlers do not change, and what they use up.\<close>

definition venue_small :: "bool \<Rightarrow> Server \<Rightarrow> bool" where
  "venue_small dbg s \<longleftrightarrow> (dbg \<longrightarrow> unat (vt_softCap (v_tables (sv_venue s))) \<le> kDefaultMaxPriceLevels)"

definition next_id :: "Server \<Rightarrow> nat" where
  "next_id s = unat (vt_nextEngineId (v_tables (sv_venue s)))"

lemma server_grows:
  assumes "server_inv s" and "net_grows (sv_net s) n'"
  shows "server_inv (s\<lparr>sv_net := n'\<rparr>)"
proof -
  have "settled (cn_decoder c')" if c': "conn_of n' fd = Some c'" for fd c'
  proof -
    obtain c where "conn_of (sv_net s) fd = Some c" "cn_decoder c' = cn_decoder c"
      using net_grows_decoder [OF assms(2), of fd] c' by (cases "conn_of (sv_net s) fd") auto
    with assms(1) show ?thesis by (simp add: server_inv_def)
  qed
  moreover have "fd_of n' = fd_of (sv_net s)" using assms(2) by (simp add: net_grows_def)
  ultimately show ?thesis
    using assms net_grows_inv [OF assms(2)] by (auto simp: server_inv_def conns_inv_def)
qed

lemma server_inv_top [simp]:
  "server_inv (s\<lparr>sv_lastTop := t\<rparr>) = server_inv s" "server_inv (s\<lparr>sv_heartbeatSeq := k\<rparr>) = server_inv s"
  by (simp_all add: server_inv_def conns_inv_def)

lemma broadcastFeed_run:
  assumes "server_inv s"
  shows "server_inv (broadcastFeed clock hb s)" and "sv_venue (broadcastFeed clock hb s) = sv_venue s"
    and "sv_listenFd (broadcastFeed clock hb s) = sv_listenFd s" and "sv_nextConnId (broadcastFeed clock hb s) = sv_nextConnId s"
    and "net_grows (sv_net s) (sv_net (broadcastFeed clock hb s))" and "sv_heartbeatMs (broadcastFeed clock hb s) = sv_heartbeatMs s"
    and "sv_lastTop (broadcastFeed clock hb s) = currentTop (sv_venue s)"
proof -
  obtain ts n where ts: "clock_now clock (sv_net s) = (ts, n)" by force
  let ?n = "if hb then broadcastPayload (encodeHeartbeat (sv_heartbeatSeq s + 1) ts) n else sv_net s"
  have eq: "broadcastFeed clock hb s = s\<lparr>sv_heartbeatSeq := (if hb then sv_heartbeatSeq s + 1 else sv_heartbeatSeq s),
      sv_lastTop := currentTop (sv_venue s), sv_net := broadcastTop clock (currentTop (sv_venue s)) ?n\<rparr>"
    by (cases hb) (simp_all add: broadcastFeed_def Let_def ts)
  have "net_grows (sv_net s) ?n"
    using net_grows_trans [OF clock_grows [OF ts] broadcastPayload_grows] by (simp add: net_grows_refl)
  then have g: "net_grows (sv_net s) (broadcastTop clock (currentTop (sv_venue s)) ?n)"
    by (rule net_grows_trans [OF _ broadcastTop_grows])
  show "server_inv (broadcastFeed clock hb s)"
    unfolding eq using server_grows [OF assms g] by (simp add: server_inv_def conns_inv_def)
  show "net_grows (sv_net s) (sv_net (broadcastFeed clock hb s))" unfolding eq using g by simp
qed (auto simp: broadcastFeed_def Let_def split: prod.split)

section \<open>Closing\<close>

lemma cancel_all_frame: "cancel_all dbg ids v = Inr v' \<Longrightarrow>
    vt_softCap (v_tables v') = vt_softCap (v_tables v) \<and> vt_nextEngineId (v_tables v') = vt_nextEngineId (v_tables v)"
  by (induction dbg ids v rule: cancel_all.induct) (auto simp: bindR_eq_Inr)

lemma dropConnection_frame: "dropConnection dbg conn v = Inr v' \<Longrightarrow>
    vt_softCap (v_tables v') = vt_softCap (v_tables v) \<and> vt_nextEngineId (v_tables v') = vt_nextEngineId (v_tables v)"
  by (auto simp: dropConnection_def bindR_eq_Inr dest: cancel_all_frame)

text \<open>What the handlers of one descriptor leave alone.\<close>

definition same_frame :: "Server \<Rightarrow> Server \<Rightarrow> bool" where
  "same_frame s s' \<longleftrightarrow> sv_listenFd s' = sv_listenFd s \<and> sv_heartbeatMs s' = sv_heartbeatMs s \<and> sv_port s' = sv_port s \<and>
     vt_softCap (v_tables (sv_venue s')) = vt_softCap (v_tables (sv_venue s))"

lemma same_frame_refl [simp]: "same_frame s s"
  by (simp add: same_frame_def)

lemma same_frame_trans: "same_frame s s1 \<Longrightarrow> same_frame s1 s2 \<Longrightarrow> same_frame s s2"
  by (simp add: same_frame_def)

lemma same_frame_small: "same_frame s s' \<Longrightarrow> venue_small dbg s' = venue_small dbg s"
  by (simp add: same_frame_def venue_small_def)

lemma closeConn_run:
  assumes inv: "conns_inv s" and others: "\<forall>g c. g \<noteq> fd \<and> conn_of (sv_net s) g = Some c \<longrightarrow> settled (cn_decoder c)"
  obtains s' where "closeConn dbg fd s = Inr s'" and "server_inv s'" and "same_frame s s'"
    and "conn_of (sv_net s') = (conn_of (sv_net s))(fd := None)" and "next_id s' = next_id s"
    and "n_closed (sv_net s') = n_closed (sv_net s) @ [fd]" and "sv_nextConnId s' = sv_nextConnId s"
    and "\<And>cid. id_of (sv_net s) fd = Some cid \<Longrightarrow> dropConnection dbg cid (sv_venue s) = Inr (sv_venue s')"
    and "\<And>g. g \<noteq> fd \<Longrightarrow> id_of (sv_net s') g = id_of (sv_net s) g" and "id_of (sv_net s) fd = None \<Longrightarrow> sv_venue s' = sv_venue s"
proof -
  let ?n = "sv_net s"
  have v: "venue_inv (sv_venue s)" and net: "net_inv (sv_nextConnId s) ?n" and ok: "net_maps_ok ?n"
    using inv by (auto simp: conns_inv_def net_inv_def)
  show thesis
  proof (cases "id_of ?n fd")
    case None
    then have none: "conn_of ?n fd = None" using net by (simp add: net_inv_def)
    let ?s = "s\<lparr>sv_net := ?n\<lparr>n_conns := um_erase (n_conns ?n) fd, n_closed := n_closed ?n @ [fd]\<rparr>\<rparr>"
    have c: "conn_of (sv_net ?s) = (conn_of ?n)(fd := None)" "id_of (sv_net ?s) = id_of ?n" "fd_of (sv_net ?s) = fd_of ?n"
      using ok by (auto simp: conn_of_def id_of_def fd_of_def net_maps_ok_def um_simps fun_eq_iff)
    have "net_maps_ok (sv_net ?s)" using ok by (simp add: net_maps_ok_def um_simps)
    with none net have "net_inv (sv_nextConnId s) (sv_net ?s)" unfolding net_inv_def c by auto
    with inv c others have "server_inv ?s" by (auto simp: server_inv_def conns_inv_def)
    moreover have "closeConn dbg fd s = Inr ?s" using None by (simp add: closeConn_def id_of_def Let_def)
    ultimately show thesis using c None by (intro that [of ?s]) (simp_all add: same_frame_def next_id_def)
  next
    case (Some cid)
    obtain v' where v': "dropConnection dbg cid (sv_venue s) = Inr v'" "venue_inv v'"
      and rec: "\<And>c k. record_of (v_tables v') c k = (if c = cid then None else record_of (v_tables (sv_venue s)) c k)"
      using drop_outcome_run [OF v, of dbg cid] by blast
    let ?s = "s\<lparr>sv_venue := v', sv_net := ?n\<lparr>n_connFd := um_erase (n_connFd ?n) cid, n_fdConn := um_erase (n_fdConn ?n) fd,
        n_conns := um_erase (n_conns ?n) fd, n_closed := n_closed ?n @ [fd]\<rparr>\<rparr>"
    have c: "conn_of (sv_net ?s) = (conn_of ?n)(fd := None)" "id_of (sv_net ?s) = (id_of ?n)(fd := None)"
      "fd_of (sv_net ?s) = (fd_of ?n)(cid := None)"
      using ok by (auto simp: conn_of_def id_of_def fd_of_def net_maps_ok_def um_simps fun_eq_iff)
    have "net_maps_ok (sv_net ?s)" using ok by (simp add: net_maps_ok_def um_simps)
    moreover have bij: "id_of ?n g = Some d \<longleftrightarrow> fd_of ?n d = Some g" for g d
      using net by (simp add: net_inv_def)
    have "((id_of ?n)(fd := None)) g = Some d \<longleftrightarrow> ((fd_of ?n)(cid := None)) d = Some g" for g d
      using Some bij [of g d] bij [of fd cid] by auto
    moreover have "\<forall>g. conn_of ?n g = None \<longleftrightarrow> id_of ?n g = None"
      using net by (simp add: net_inv_def)
    ultimately have "net_inv (sv_nextConnId s) (sv_net ?s)"
      using net unfolding net_inv_def c by (simp add: fun_upd_def)
    moreover have "\<forall>c k. record_of (v_tables v') c k \<noteq> None \<longrightarrow> ((fd_of ?n)(cid := None)) c \<noteq> None"
      using inv rec by (simp add: conns_inv_def)
    ultimately have "server_inv ?s"
      using v'(2) others c by (auto simp: server_inv_def conns_inv_def)
    moreover have "closeConn dbg fd s = Inr ?s" using Some v'(1) by (simp add: closeConn_def id_of_def Let_def)
    ultimately show thesis using c Some v'(1) dropConnection_frame [OF v'(1)]
      by (intro that [of ?s]) (simp_all add: same_frame_def next_id_def)
  qed
qed

section \<open>Accepting\<close>

text \<open>The descriptors that a run of \<open>accept\<close> calls hands out before it ends the loop.\<close>

fun accepted :: "AcceptResult list \<Rightarrow> int list" where
  "accepted [] = []"
| "accepted (Accepted fd # as) = fd # accepted as"
| "accepted (AcceptIntr # as) = accepted as"
| "accepted (AcceptAgain # as) = []"
| "accepted (AcceptFailed # as) = []"

definition accept_ends :: "AcceptResult list \<Rightarrow> bool" where
  "accept_ends as \<longleftrightarrow> AcceptAgain \<in> set as \<or> AcceptFailed \<in> set as"

lemma settled_new: "settled FrameDecoder_new"
  by (simp add: settled_def FrameDecoder_new_def decoder_next_eq)

lemma accept_one:
  assumes inv: "server_inv s" and fresh: "conn_of (sv_net s) cfd = None" and room: "sv_nextConnId s + 1 \<noteq> 0"
    and n': "n' = (sv_net s)\<lparr>n_conns := um_emplace (n_conns (sv_net s)) cfd \<lparr>cn_fd = cfd, cn_decoder = FrameDecoder_new, cn_out = []\<rparr>,
                n_connFd := um_assign (n_connFd (sv_net s)) (sv_nextConnId s) cfd,
                n_fdConn := um_assign (n_fdConn (sv_net s)) cfd (sv_nextConnId s)\<rparr>"
  shows "server_inv (s\<lparr>sv_nextConnId := sv_nextConnId s + 1, sv_net := n'\<rparr>)"
    and "conn_of n' = (conn_of (sv_net s))(cfd \<mapsto> \<lparr>cn_fd = cfd, cn_decoder = FrameDecoder_new, cn_out = []\<rparr>)"
    and "net_maps_ok n'"
proof -
  let ?n = "sv_net s" and ?c = "\<lparr>cn_fd = cfd, cn_decoder = FrameDecoder_new, cn_out = []\<rparr>" and ?i = "sv_nextConnId s"
  have net: "net_inv ?i ?n" and ok: "net_maps_ok ?n"
    using inv by (auto simp: server_inv_def conns_inv_def net_inv_def)
  have noid: "id_of ?n cfd = None" using fresh net by (simp add: net_inv_def)
  have nofd: "fd_of ?n ?i = None" using net by (cases "fd_of ?n ?i") (auto simp: net_inv_def)
  show c: "conn_of n' = (conn_of ?n)(cfd \<mapsto> ?c)"
    using ok fresh by (auto simp: n' conn_of_def net_maps_ok_def um_simps fun_eq_iff)
  have i: "id_of n' = (id_of ?n)(cfd \<mapsto> ?i)" and f: "fd_of n' = (fd_of ?n)(?i \<mapsto> cfd)"
    using ok by (auto simp: n' id_of_def fd_of_def net_maps_ok_def um_simps fun_eq_iff)
  show ok': "net_maps_ok n'" using ok by (simp add: n' net_maps_ok_def um_simps)
  have bij: "id_of ?n g = Some d \<longleftrightarrow> fd_of ?n d = Some g" for g d
    using net by (simp add: net_inv_def)
  have "((id_of ?n)(cfd \<mapsto> ?i)) g = Some d \<longleftrightarrow> ((fd_of ?n)(?i \<mapsto> cfd)) d = Some g" for g d
    using noid nofd bij [of g d] bij [of cfd d] bij [of g ?i] by auto
  moreover have "((fd_of ?n)(?i \<mapsto> cfd)) d = Some g \<Longrightarrow> d < ?i + 1" for g d
    using net room sequence_less [of d ?i] self_less [of ?i] by (auto simp: net_inv_def split: if_splits)
  ultimately have "net_inv (?i + 1) n'"
    using net ok' unfolding net_inv_def c i f by (simp add: fun_upd_def)
  then show "server_inv (s\<lparr>sv_nextConnId := ?i + 1, sv_net := n'\<rparr>)"
    using inv settled_new by (auto simp: server_inv_def conns_inv_def c f)
qed

lemma acceptNew_run:
  assumes "server_inv s" and "accept_ends as" and "distinct (accepted as)"
    and "\<forall>fd \<in> set (accepted as). conn_of (sv_net s) fd = None"
    and "unat (sv_nextConnId s) + length (accepted as) < 2 ^ 64"
  shows "\<exists>s'. acceptNew clock as s = Inr s' \<and> server_inv s' \<and> sv_venue s' = sv_venue s \<and> same_frame s s' \<and>
    unat (sv_nextConnId s') = unat (sv_nextConnId s) + length (accepted as) \<and> n_closed (sv_net s') = n_closed (sv_net s) \<and>
    (\<forall>fd. conn_of (sv_net s') fd = None \<longleftrightarrow> conn_of (sv_net s) fd = None \<and> fd \<notin> set (accepted as))"
  using assms
proof (induction as arbitrary: s)
  case Nil
  then show ?case by (simp add: accept_ends_def)
next
  case (Cons a as)
  show ?case
  proof (cases a)
  case (Accepted cfd)
  note prems = Cons.prems [unfolded Accepted]
  let ?i = "sv_nextConnId s"
  define n' where "n' = (sv_net s)\<lparr>n_conns := um_emplace (n_conns (sv_net s)) cfd \<lparr>cn_fd = cfd, cn_decoder = FrameDecoder_new, cn_out = []\<rparr>,
      n_connFd := um_assign (n_connFd (sv_net s)) ?i cfd, n_fdConn := um_assign (n_fdConn (sv_net s)) cfd ?i\<rparr>"
  obtain ts n1 where ts: "clock_now clock n' = (ts, n1)" by force
  let ?n2 = "enqueue ?i (mdPayload (currentTop (sv_venue s)) ts) n1"
  have "unat ?i < 2 ^ 64 - 1" using prems(5) by simp
  from unat_succ_le [OF this] have next_unat: "unat (?i + 1) = Suc (unat ?i)" by simp
  then have room: "?i + 1 \<noteq> 0" by (metis nat.distinct(1) unat_0)
  have fresh: "conn_of (sv_net s) cfd = None" using prems(4) by simp
  note one = accept_one [OF prems(1) fresh room n'_def]
  have "net_grows n' n1" "net_maps_ok n1" using clock_grows [OF ts] one(3) by (auto simp: net_grows_def)
  then have g: "net_grows n' ?n2" by (blast intro: net_grows_trans enqueue_grows)
  let ?s = "s\<lparr>sv_nextConnId := ?i + 1, sv_net := ?n2\<rparr>"
  have inv: "server_inv ?s" using server_grows [OF one(1)] g by simp
  have conns: "conn_of ?n2 fd = None \<longleftrightarrow> conn_of (sv_net s) fd = None \<and> fd \<noteq> cfd" for fd
    by (cases "fd = cfd") (simp_all add: net_grows_None [OF g] one(2))
  have closed: "n_closed ?n2 = n_closed (sv_net s)" using g by (simp add: net_grows_def n'_def)
  have step: "acceptNew clock (Accepted cfd # as) s = acceptNew clock as ?s"
    by (simp add: Let_def n'_def [symmetric] ts)
  have "\<exists>s'. acceptNew clock as ?s = Inr s' \<and> server_inv s' \<and> sv_venue s' = sv_venue ?s \<and> same_frame ?s s' \<and>
    unat (sv_nextConnId s') = unat (sv_nextConnId ?s) + length (accepted as) \<and> n_closed (sv_net s') = n_closed (sv_net ?s) \<and>
    (\<forall>fd. conn_of (sv_net s') fd = None \<longleftrightarrow> conn_of (sv_net ?s) fd = None \<and> fd \<notin> set (accepted as))"
    by (rule Cons.IH [OF inv]) (use prems conns next_unat in \<open>auto simp: accept_ends_def\<close>)
  then show ?thesis
    unfolding Accepted step using next_unat conns closed by (auto simp: same_frame_def)
  qed (use Cons in \<open>auto simp: accept_ends_def\<close>)
qed

end
