(* ===== verification/ServerSteps.thy ===== *)
theory ServerSteps
  imports ServerInv
begin

text \<open>
  Reading: what one call of \<open>handleReadable\<close> does to the connection and to the venue. It returns, keeps
  the invariant, and serves the requests in the order in which their frames arrive.
\<close>

section \<open>Replacing a connection\<close>

lemma conn_at_known: "conn_of n fd = Some c \<Longrightarrow> conn_at fd n = (c, n)"
  by (simp add: conn_at_def conn_of_def um_find_def um_emplace_def)

lemma conn_id_at_known: "id_of n fd = Some cid \<Longrightarrow> conn_id_at fd n = (cid, n)"
  by (simp add: conn_id_at_def id_of_def um_find_def um_emplace_def)

lemma set_conn_simps [simp]:
  "id_of (set_conn fd c n) = id_of n" "fd_of (set_conn fd c n) = fd_of n" "n_closed (set_conn fd c n) = n_closed n"
  "n_clock (set_conn fd c n) = n_clock n"
  by (simp_all add: set_conn_def id_of_def fd_of_def fun_eq_iff)

lemma set_conn_maps: 
  assumes "net_maps_ok n"
  shows "net_maps_ok (set_conn fd c n)" and "conn_of (set_conn fd c n) = (conn_of n)(fd \<mapsto> c)"
  using assms by (simp_all add: set_conn_def net_maps_ok_def conn_of_def um_simps fun_eq_iff)

lemma set_conn_inv:
  assumes "net_inv nxt n" and "conn_of n fd = Some c" and "cn_fd c' = fd"
  shows "net_inv nxt (set_conn fd c' n)"
proof -
  have ok: "net_maps_ok n" using assms(1) by (simp add: net_inv_def)
  have "conn_of n fd = None \<longleftrightarrow> id_of n fd = None" using assms(1) unfolding net_inv_def by blast
  then have "id_of n fd \<noteq> None" using assms(2) by simp
  with assms show ?thesis
    unfolding net_inv_def set_conn_simps set_conn_maps(2) [OF ok] using set_conn_maps(1) [OF ok] by auto
qed

lemma set_conns_inv:
  assumes "conns_inv s" and "conn_of (sv_net s) fd = Some c" and "cn_fd c' = cn_fd c"
  shows "conns_inv (s\<lparr>sv_net := set_conn fd c' (sv_net s)\<rparr>)"
proof -
  have "cn_fd c = fd" using assms(1,2) by (simp add: conns_inv_def net_inv_def)
  with assms show ?thesis by (simp add: conns_inv_def set_conn_inv)
qed

section \<open>Receiving\<close>

text \<open>The bytes that a run of \<open>recv\<close> calls delivers, and whether it leaves the connection open.\<close>

fun received :: "RecvResult list \<Rightarrow> string" where
  "received [] = []"
| "received (RecvData d # rs) = d @ received rs"
| "received (RecvIntr # rs) = received rs"
| "received (RecvEof # rs) = []"
| "received (RecvAgain # rs) = []"
| "received (RecvFailed # rs) = []"

fun recv_open :: "RecvResult list \<Rightarrow> bool option" where
  "recv_open [] = None"
| "recv_open (RecvData d # rs) = recv_open rs"
| "recv_open (RecvIntr # rs) = recv_open rs"
| "recv_open (RecvEof # rs) = Some False"
| "recv_open (RecvAgain # rs) = Some True"
| "recv_open (RecvFailed # rs) = Some False"

lemma feed_append: "feed (feed d x) y = feed d (x @ y)"
  by (simp add: feed_def)

lemma feed_Nil [simp]: "feed d [] = d"
  by (simp add: feed_def)

lemma recv_loop_run:
  assumes "net_maps_ok n" and "conn_of n fd = Some c" and "recv_open rs = Some alive"
  shows "\<exists>n'. recv_loop fd rs n = Inr (alive, n') \<and> net_maps_ok n' \<and> id_of n' = id_of n \<and> fd_of n' = fd_of n \<and>
    n_closed n' = n_closed n \<and> n_clock n' = n_clock n \<and>
    conn_of n' = (conn_of n)(fd \<mapsto> c\<lparr>cn_decoder := feed (cn_decoder c) (received rs)\<rparr>)"
  using assms
proof (induction fd rs n arbitrary: c rule: recv_loop.induct)
  case (2 fd d rs n)
  let ?c = "c\<lparr>cn_decoder := feed (cn_decoder c) d\<rparr>"
  have at: "conn_at fd n = (c, n)" by (rule conn_at_known [OF "2.prems"(2)])
  note m = set_conn_maps [OF "2.prems"(1), of fd ?c]
  have here: "conn_of (set_conn fd ?c n) fd = Some ?c" and rest: "recv_open rs = Some alive"
    using "2.prems"(3) by (simp_all add: m(2))
  from "2.IH" [OF at [symmetric] m(1) here rest, unfolded set_conn_simps]
  obtain n' where "recv_loop fd rs (set_conn fd ?c n) = Inr (alive, n')" "net_maps_ok n'" "id_of n' = id_of n" "fd_of n' = fd_of n"
    "n_closed n' = n_closed n" "n_clock n' = n_clock n"
    "conn_of n' = (conn_of (set_conn fd ?c n))(fd \<mapsto> ?c\<lparr>cn_decoder := feed (cn_decoder ?c) (received rs)\<rparr>)"
    by (elim exE conjE) (rule that)
  then show ?case by (auto simp: at m(2) feed_append fun_eq_iff)
qed (auto simp: fun_upd_idem)

section \<open>Serving the frames\<close>

text \<open>The venue gets from \<open>v\<close> to \<open>v'\<close> by handling exactly these lines of connection \<open>cid\<close>, in this order.\<close>

inductive handles :: "bool \<Rightarrow> (nat \<Rightarrow> Tm \<times> int) \<Rightarrow> u64 \<Rightarrow> string list \<Rightarrow> Venue \<Rightarrow> Venue \<Rightarrow> bool"
  for dbg clock cid where
  nothing: "handles dbg clock cid [] v v"
| one_more: "handleLine dbg enqueue (clock_now clock) cid p v n = Inr (v1, n1) \<Longrightarrow>
    handles dbg clock cid ps v1 v2 \<Longrightarrow> handles dbg clock cid (p # ps) v v2"

inductive_simps handles_simps [simp]: "handles dbg clock cid [] v v'" "handles dbg clock cid (p # ps) v v'"

lemma decode_all_step:
  "decode_all d = (case decoder_next d of
     (None, d') \<Rightarrow> ([], d') | (Some p, d') \<Rightarrow> (p # fst (decode_all d'), snd (decode_all d')))"
  by (subst decode_all.simps) (auto split: prod.split option.split)

lemma net_grows_set:
  assumes "net_grows n n'" and "net_maps_ok n" and "conn_of n fd = Some c"
  obtains c' where "conn_of n' fd = Some c'" and "cn_decoder c' = cn_decoder c" and "cn_fd c' = cn_fd c"
    and "\<And>d. net_grows (set_conn fd (c\<lparr>cn_decoder := d\<rparr>) n) (set_conn fd (c'\<lparr>cn_decoder := d\<rparr>) n')"
proof -
  obtain ps where ps: "\<And>g. conn_of n' g = map_option (\<lambda>c. appended c (ps g)) (conn_of n g)"
    using assms(1) unfolding net_grows_def by blast
  have ok: "net_maps_ok n'" using assms(1,2) by (simp add: net_grows_def)
  let ?c = "appended c (ps fd)"
  have c': "conn_of n' fd = Some ?c" using ps assms(3) by simp
  have "net_grows (set_conn fd (c\<lparr>cn_decoder := d\<rparr>) n) (set_conn fd (?c\<lparr>cn_decoder := d\<rparr>) n')" for d
  proof -
    have "\<forall>g. conn_of (set_conn fd (?c\<lparr>cn_decoder := d\<rparr>) n') g =
        map_option (\<lambda>c. appended c (ps g)) (conn_of (set_conn fd (c\<lparr>cn_decoder := d\<rparr>) n) g)"
      using ps assms(2) ok by (simp add: set_conn_maps(2) appended_def)
    then show ?thesis using assms(1,2) ok by (auto simp: net_grows_def set_conn_maps(1))
  qed
  with c' show thesis by (intro that [of ?c]) simp_all
qed

lemma set_conn_again:
  assumes "net_maps_ok n" shows "net_grows (set_conn fd c n) (set_conn fd c (set_conn fd c1 n))"
proof -
  have "\<forall>g. conn_of (set_conn fd c (set_conn fd c1 n)) g = map_option (\<lambda>c. appended c []) (conn_of (set_conn fd c n) g)"
    using assms by (simp add: set_conn_maps option.map_ident)
  then have "\<exists>ps. \<forall>g. conn_of (set_conn fd c (set_conn fd c1 n)) g = map_option (\<lambda>c. appended c (ps g)) (conn_of (set_conn fd c n) g)"
    by (rule exI [of _ "\<lambda>g. []"])
  with assms show ?thesis by (simp add: net_grows_def set_conn_maps)
qed

lemma frames_loop_run:
  assumes "venue_inv v" and "dbg \<Longrightarrow> unat (vt_softCap (v_tables v)) \<le> kDefaultMaxPriceLevels"
    and "net_maps_ok n" and "conn_of n fd = Some c" and "length (fd_buf (cn_decoder c)) < fuel"
    and "unat (vt_nextEngineId (v_tables v)) + fuel < 2 ^ 64"
  shows "\<exists>v' n'. frames_loop dbg clock fuel fd cid v n = Inr (v', n') \<and> venue_inv v' \<and>
    vt_softCap (v_tables v') = vt_softCap (v_tables v) \<and>
    unat (vt_nextEngineId (v_tables v')) < unat (vt_nextEngineId (v_tables v)) + fuel \<and>
    (\<forall>d k. record_of (v_tables v') d k \<noteq> None \<longrightarrow> record_of (v_tables v) d k \<noteq> None \<or> d = cid) \<and>
    handles dbg clock cid (fst (decode_all (cn_decoder c))) v v' \<and>
    net_grows (set_conn fd (c\<lparr>cn_decoder := snd (decode_all (cn_decoder c))\<rparr>) n) n'"
  using assms
proof (induction fuel arbitrary: v n c)
  case 0
  then show ?case by simp
next
  case (Suc fuel)
  have at: "conn_at fd n = (c, n)" by (rule conn_at_known [OF Suc.prems(4)])
  obtain q d where nx: "decoder_next (cn_decoder c) = (q, d)" by force
  let ?c = "c\<lparr>cn_decoder := d\<rparr>"
  let ?n = "set_conn fd ?c n"
  show ?case
  proof (cases q)
    case None
    then have "decode_all (cn_decoder c) = ([], d)" using nx by (subst decode_all_step) simp
    with None nx at Suc.prems show ?thesis by (simp add: net_grows_refl)
  next
    case (Some p)
    then have all: "decode_all (cn_decoder c) = (p # fst (decode_all d), snd (decode_all d))"
      using nx by (subst decode_all_step) simp
    have less: "length (fd_buf d) < fuel" using decoder_next_less [of "cn_decoder c" p d] nx Some Suc.prems(5) by simp
    have ids: "unat (vt_nextEngineId (v_tables v) + 1) = Suc (unat (vt_nextEngineId (v_tables v)))"
      using unat_succ_le [of "vt_nextEngineId (v_tables v)" "2 ^ 64 - 1"] Suc.prems(6) by simp
    then have nz: "vt_nextEngineId (v_tables v) + 1 \<noteq> 0" by (metis nat.distinct(1) unat_0)
    have room: "line_room dbg cid p v" by (rule small_room [OF Suc.prems(1,2) nz])
    obtain v1 n1 where line: "handleLine dbg enqueue (clock_now clock) cid p v ?n = Inr (v1, n1)"
      and eff: "line_effect enqueue (clock_now clock) cid v ?n v1 n1"
      using handleLine_run [OF Suc.prems(1) room, where send = enqueue and now = "clock_now clock" and s = ?n] by blast
    note m = set_conn_maps [OF Suc.prems(3), of fd ?c]
    have g: "net_grows ?n n1" and v1: "venue_inv v1" "vt_softCap (v_tables v1) = vt_softCap (v_tables v)"
      and nid: "unat (vt_nextEngineId (v_tables v1)) \<le> Suc (unat (vt_nextEngineId (v_tables v)))"
      and rec: "records_forward cid (v_tables v) (v_tables v1)"
      using eff outputs_grows [OF _ m(1)] ids by (auto simp: line_effect_def)
    have ok1: "net_maps_ok n1" using g m(1) by (simp add: net_grows_def)
    have here: "conn_of ?n fd = Some ?c" by (simp add: m(2))
    obtain c1 where c1: "conn_of n1 fd = Some c1" "cn_decoder c1 = d"
      and g1: "\<And>e. net_grows (set_conn fd (?c\<lparr>cn_decoder := e\<rparr>) ?n) (set_conn fd (c1\<lparr>cn_decoder := e\<rparr>) n1)"
      using net_grows_set [OF g m(1) here] by auto
    have small1: "dbg \<Longrightarrow> unat (vt_softCap (v_tables v1)) \<le> kDefaultMaxPriceLevels"
      using Suc.prems(2) v1(2) by simp
    have less1: "length (fd_buf (cn_decoder c1)) < fuel" using less c1(2) by simp
    have ids1: "unat (vt_nextEngineId (v_tables v1)) + fuel < 2 ^ 64" using nid Suc.prems(6) by simp
    obtain v2 n2 where 2: "frames_loop dbg clock fuel fd cid v1 n1 = Inr (v2, n2)" "venue_inv v2"
      "vt_softCap (v_tables v2) = vt_softCap (v_tables v1)"
      "unat (vt_nextEngineId (v_tables v2)) < unat (vt_nextEngineId (v_tables v1)) + fuel"
      and rec2: "\<forall>d k. record_of (v_tables v2) d k \<noteq> None \<longrightarrow> record_of (v_tables v1) d k \<noteq> None \<or> d = cid"
      and h2: "handles dbg clock cid (fst (decode_all (cn_decoder c1))) v1 v2"
      and g2: "net_grows (set_conn fd (c1\<lparr>cn_decoder := snd (decode_all (cn_decoder c1))\<rparr>) n1) n2"
      using Suc.IH [OF v1(1) small1 ok1 c1(1) less1 ids1] by blast
    have run: "frames_loop dbg clock (Suc fuel) fd cid v n = Inr (v2, n2)"
      using at nx Some line 2(1) by simp
    have rec': "\<forall>d k. record_of (v_tables v2) d k \<noteq> None \<longrightarrow> record_of (v_tables v) d k \<noteq> None \<or> d = cid"
      using rec rec2 unfolding records_forward_def by (metis not_None_eq)
    have h: "handles dbg clock cid (fst (decode_all (cn_decoder c))) v v2"
      using line h2 unfolding all c1(2) by auto
    let ?e = "snd (decode_all d)"
    have "net_grows (set_conn fd (c\<lparr>cn_decoder := ?e\<rparr>) n) (set_conn fd (?c\<lparr>cn_decoder := ?e\<rparr>) ?n)"
      using set_conn_again [OF Suc.prems(3), of fd "c\<lparr>cn_decoder := ?e\<rparr>" ?c] by simp
    from net_grows_trans [OF net_grows_trans [OF this g1 [of ?e]] g2 [unfolded c1(2)]]
    have "net_grows (set_conn fd (c\<lparr>cn_decoder := snd (decode_all (cn_decoder c))\<rparr>) n) n2" by (simp add: all)
    with run 2 v1(2) nid rec' h show ?thesis by (intro exI [of _ v2] exI [of _ n2]) simp
  qed
qed

section \<open>Reading\<close>

lemma settled_all:
  assumes "\<not> fd_error (snd (decode_all d))"
  shows "settled (snd (decode_all d))"
proof -
  have "decode_all (snd (decode_all d)) = ([], snd (decode_all d))"
    by (rule decoder.drain_idem [of d "fst (decode_all d)"]) simp
  then have "decoder_next (snd (decode_all d)) = (None, snd (decode_all d))"
    by (subst (asm) decode_all.simps) (auto split: prod.splits option.splits)
  with assms show ?thesis by (simp add: settled_def)
qed

text \<open>The share of the engine ids that one pass may use up for a descriptor.\<close>

definition read_cost :: "RecvResult list \<Rightarrow> nat" where
  "read_cost rs = length (received rs) + 1048600"

lemma settled_length: "settled d \<Longrightarrow> length (fd_buf d) + 9 < 1048600"
  using idle_bound [of d] by (simp add: settled_def kFrameHeaderBytes_def kMaxPayloadBytes_unat)

text \<open>What a call of \<open>handleReadable\<close> comes to: the venue's way, and whether the connection is still there.\<close>

definition read_outcome :: "bool \<Rightarrow> (nat \<Rightarrow> Tm \<times> int) \<Rightarrow> int \<Rightarrow> Conn \<Rightarrow> RecvResult list \<Rightarrow> Server \<Rightarrow> Server \<Rightarrow> bool" where
  "read_outcome dbg clock fd c rs s s' \<longleftrightarrow>
     (\<exists>cid. id_of (sv_net s) fd = Some cid \<and>
       (case decode_all (feed (cn_decoder c) (received rs)) of (ps, d) \<Rightarrow>
          if recv_open rs = Some True
          then (\<exists>v. handles dbg clock cid ps (sv_venue s) v \<and>
             (if fd_error d then dropConnection dbg cid v = Inr (sv_venue s') \<and> conn_of (sv_net s') fd = None
              else sv_venue s' = v \<and> map_option cn_decoder (conn_of (sv_net s') fd) = Some d))
          else dropConnection dbg cid (sv_venue s) = Inr (sv_venue s') \<and> conn_of (sv_net s') fd = None))"

lemma conn_owner:
  assumes "conns_inv s" and "conn_of (sv_net s) fd = Some c"
  obtains cid where "id_of (sv_net s) fd = Some cid" and "fd_of (sv_net s) cid = Some fd" and "cn_fd c = fd"
proof -
  have net: "net_inv (sv_nextConnId s) (sv_net s)" using assms(1) by (simp add: conns_inv_def)
  then have "conn_of (sv_net s) fd = None \<longleftrightarrow> id_of (sv_net s) fd = None" unfolding net_inv_def by blast
  then obtain cid where "id_of (sv_net s) fd = Some cid" using assms(2) by auto
  with net assms(2) that show thesis by (simp add: net_inv_def)
qed

text \<open>The first loop: the bytes are in the decoder, and nothing else has changed.\<close>

lemma read_bytes:
  assumes inv: "server_inv s" and c: "conn_of (sv_net s) fd = Some c" and alive: "recv_open rs = Some alive"
  obtains n1 where "recv_loop fd rs (sv_net s) = Inr (alive, n1)" and "conns_inv (s\<lparr>sv_net := n1\<rparr>)"
    and "id_of n1 = id_of (sv_net s)" and "fd_of n1 = fd_of (sv_net s)"
    and "conn_of n1 = (conn_of (sv_net s))(fd \<mapsto> c\<lparr>cn_decoder := feed (cn_decoder c) (received rs)\<rparr>)"
proof -
  let ?n = "sv_net s" and ?c = "c\<lparr>cn_decoder := feed (cn_decoder c) (received rs)\<rparr>"
  have cinv: "conns_inv s" and ok: "net_maps_ok ?n" and net: "net_inv (sv_nextConnId s) ?n"
    using inv by (auto simp: server_inv_def conns_inv_def net_inv_def)
  obtain n1 where n1: "recv_loop fd rs ?n = Inr (alive, n1)" "net_maps_ok n1" "id_of n1 = id_of ?n" "fd_of n1 = fd_of ?n"
    and conn1: "conn_of n1 = (conn_of ?n)(fd \<mapsto> ?c)"
    using recv_loop_run [OF ok c alive] by (elim exE conjE) (rule that)
  obtain cid where "id_of ?n fd = Some cid" "cn_fd c = fd" by (rule conn_owner [OF cinv c])
  then have "net_inv (sv_nextConnId s) n1" using net n1 c unfolding net_inv_def conn1 by auto
  then have "conns_inv (s\<lparr>sv_net := n1\<rparr>)" using cinv n1 by (simp add: conns_inv_def)
  with n1 conn1 show thesis by (intro that [of n1])
qed

text \<open>The second loop, on a network in which the bytes of connection \<open>fd\<close> are in its decoder \<open>d\<close>.\<close>

lemma serve_frames:
  assumes inv: "conns_inv s" and c: "conn_of (sv_net s) fd = Some c" and small: "venue_small dbg s"
    and ids: "next_id s + Suc (length (fd_buf (cn_decoder c))) < 2 ^ 64" and cid: "id_of (sv_net s) fd = Some cid"
  obtains v n c' where
    "frames_loop dbg clock (Suc (length (fd_buf (cn_decoder c)))) fd cid (sv_venue s) (sv_net s) = Inr (v, n)"
    and "conns_inv (s\<lparr>sv_venue := v, sv_net := n\<rparr>)" and "same_frame s (s\<lparr>sv_venue := v, sv_net := n\<rparr>)"
    and "unat (vt_nextEngineId (v_tables v)) < next_id s + Suc (length (fd_buf (cn_decoder c)))"
    and "handles dbg clock cid (fst (decode_all (cn_decoder c))) (sv_venue s) v"
    and "id_of n = id_of (sv_net s)" and "conn_of n fd = Some c'" and "cn_decoder c' = snd (decode_all (cn_decoder c))"
    and "\<And>g. g \<noteq> fd \<Longrightarrow> map_option cn_decoder (conn_of n g) = map_option cn_decoder (conn_of (sv_net s) g)"
proof -
  let ?n = "sv_net s" and ?fuel = "Suc (length (fd_buf (cn_decoder c)))"
    and ?c = "c\<lparr>cn_decoder := snd (decode_all (cn_decoder c))\<rparr>"
  have net: "net_inv (sv_nextConnId s) ?n" and ok: "net_maps_ok ?n" and v: "venue_inv (sv_venue s)"
    using inv by (auto simp: conns_inv_def net_inv_def)
  obtain v2 n2 where 2: "frames_loop dbg clock ?fuel fd cid (sv_venue s) ?n = Inr (v2, n2)" "venue_inv v2"
    "vt_softCap (v_tables v2) = vt_softCap (v_tables (sv_venue s))" "unat (vt_nextEngineId (v_tables v2)) < next_id s + ?fuel"
    and rec: "\<forall>d k. record_of (v_tables v2) d k \<noteq> None \<longrightarrow> record_of (v_tables (sv_venue s)) d k \<noteq> None \<or> d = cid"
    and h: "handles dbg clock cid (fst (decode_all (cn_decoder c))) (sv_venue s) v2"
    and g: "net_grows (set_conn fd ?c ?n) n2"
    using frames_loop_run [OF v _ ok c, where fuel = ?fuel and dbg = dbg and clock = clock and cid = cid] small ids
    by (simp add: venue_small_def next_id_def) blast
  have owner: "cn_fd c = fd" "fd_of ?n cid = Some fd"
    using conn_owner [OF inv c] cid by (metis option.inject)+
  have "net_inv (sv_nextConnId s) (set_conn fd ?c ?n)"
    using set_conn_inv [OF net c, of ?c] owner(1) by simp
  then have net2: "net_inv (sv_nextConnId s) n2" by (rule net_grows_inv [OF g])
  have links: "id_of n2 = id_of ?n" "fd_of n2 = fd_of ?n" using g by (simp_all add: net_grows_def)
  have known: "fd_of ?n d \<noteq> None" if "d = cid \<or> record_of (v_tables (sv_venue s)) d k \<noteq> None" for d k
    using that inv owner(2) unfolding conns_inv_def by (metis option.distinct(1))
  have "fd_of ?n d \<noteq> None" if "record_of (v_tables v2) d k \<noteq> None" for d k
    using known rec that by blast
  then have inv2: "conns_inv (s\<lparr>sv_venue := v2, sv_net := n2\<rparr>)"
    using 2(2) net2 by (simp add: conns_inv_def links)
  have dec: "map_option cn_decoder (conn_of n2 g) = map_option cn_decoder (((conn_of ?n)(fd \<mapsto> ?c)) g)" for g
    using net_grows_decoder [OF g, of g] by (simp add: set_conn_maps(2) [OF ok])
  obtain c3 where "conn_of n2 fd = Some c3" "cn_decoder c3 = snd (decode_all (cn_decoder c))"
    using dec [of fd] by auto
  moreover have "map_option cn_decoder (conn_of n2 g) = map_option cn_decoder (conn_of ?n g)" if "g \<noteq> fd" for g
    using dec [of g] that by simp
  ultimately show thesis
    using 2 h inv2 links(1) by (intro that [of v2 n2 c3]) (simp_all add: same_frame_def)
qed

lemma handleReadable_run:
  assumes inv: "server_inv s" and c: "conn_of (sv_net s) fd = Some c" and ends: "recv_open rs \<noteq> None"
    and small: "venue_small dbg s" and ids: "next_id s + read_cost rs < 2 ^ 64"
  obtains s' where "handleReadable dbg clock fd rs s = Inr s'" and "server_inv s'" and "same_frame s s'"
    and "sv_nextConnId s' = sv_nextConnId s" and "next_id s' < next_id s + read_cost rs"
    and "\<And>g. g \<noteq> fd \<Longrightarrow> conn_of (sv_net s') g = None \<longleftrightarrow> conn_of (sv_net s) g = None"
    and "read_outcome dbg clock fd c rs s s'"
proof -
  let ?d = "feed (cn_decoder c) (received rs)"
  let ?c = "c\<lparr>cn_decoder := ?d\<rparr>"
  obtain alive where alive: "recv_open rs = Some alive" using ends by blast
  have cinv: "conns_inv s" using inv by (simp add: server_inv_def)
  obtain cid where cid: "id_of (sv_net s) fd = Some cid" by (rule conn_owner [OF cinv c])
  have others: "settled (cn_decoder c')" if "conn_of (sv_net s) g = Some c'" for g c'
    using inv that by (auto simp: server_inv_def)
  obtain n1 where n1: "recv_loop fd rs (sv_net s) = Inr (alive, n1)" "id_of n1 = id_of (sv_net s)"
    and inv1: "conns_inv (s\<lparr>sv_net := n1\<rparr>)" and conn1: "conn_of n1 = (conn_of (sv_net s))(fd \<mapsto> ?c)"
    by (rule read_bytes [OF inv c alive])
  let ?s1 = "s\<lparr>sv_net := n1\<rparr>"
  show thesis
  proof (cases alive)
    case False
    obtain s' where s': "closeConn dbg fd ?s1 = Inr s'" "server_inv s'" "same_frame ?s1 s'"
      "conn_of (sv_net s') = (conn_of (sv_net ?s1))(fd := None)" "next_id s' = next_id ?s1" "sv_nextConnId s' = sv_nextConnId ?s1"
      and drop: "\<And>cid. id_of (sv_net ?s1) fd = Some cid \<Longrightarrow> dropConnection dbg cid (sv_venue ?s1) = Inr (sv_venue s')"
      by (rule closeConn_run [OF inv1, of fd dbg]) (use others in \<open>auto simp: conn1\<close>)
    have "handleReadable dbg clock fd rs s = Inr s'"
      using n1(1) False s'(1) by (simp add: handleReadable_def)
    moreover have "read_outcome dbg clock fd c rs s s'"
      using cid drop alive False s'(4) n1(2) by (simp add: read_outcome_def split: prod.split)
    ultimately show thesis
      using s' by (intro that [of s']) (simp_all add: same_frame_def next_id_def read_cost_def conn1)
  next
    case True
    let ?fuel = "Suc (length (fd_buf (cn_decoder ?c)))"
    have cost: "?fuel < read_cost rs"
      using settled_length [OF others [OF c]] by (simp add: read_cost_def)
    have c1: "conn_of (sv_net ?s1) fd = Some ?c" by (simp add: conn1)
    obtain v2 n2 c3 where 2: "frames_loop dbg clock ?fuel fd cid (sv_venue s) n1 = Inr (v2, n2)"
      "unat (vt_nextEngineId (v_tables v2)) < next_id s + ?fuel" "handles dbg clock cid (fst (decode_all ?d)) (sv_venue s) v2"
      and inv2: "conns_inv (s\<lparr>sv_venue := v2, sv_net := n2\<rparr>)" and frame: "same_frame s (s\<lparr>sv_venue := v2, sv_net := n2\<rparr>)"
      and id2: "id_of n2 = id_of (sv_net s)" and c3: "conn_of n2 fd = Some c3" "cn_decoder c3 = snd (decode_all ?d)"
      and rest: "\<And>g. g \<noteq> fd \<Longrightarrow> map_option cn_decoder (conn_of n2 g) = map_option cn_decoder (conn_of (sv_net s) g)"
      by (rule serve_frames [OF inv1 c1, of dbg cid clock])
        (use small ids cost cid n1 conn1 in \<open>simp_all add: venue_small_def next_id_def same_frame_def\<close>)
    let ?s2 = "s\<lparr>sv_venue := v2, sv_net := n2\<rparr>"
    have others2: "\<forall>g c'. g \<noteq> fd \<and> conn_of n2 g = Some c' \<longrightarrow> settled (cn_decoder c')"
    proof (intro allI impI)
      fix g c' assume a: "g \<noteq> fd \<and> conn_of n2 g = Some c'"
      with rest [of g] obtain c0 where "conn_of (sv_net s) g = Some c0" "cn_decoder c' = cn_decoder c0"
        by (cases "conn_of (sv_net s) g") auto
      with others show "settled (cn_decoder c')" by simp
    qed
    have none2: "conn_of n2 g = None \<longleftrightarrow> conn_of (sv_net s) g = None" if "g \<noteq> fd" for g
      using rest [OF that] by (metis option.map_disc_iff)
    have "conn_at fd n1 = (?c, n1)" "conn_id_at fd n1 = (cid, n1)" "conn_at fd n2 = (c3, n2)"
      using c1 c3(1) n1(2) cid by (auto intro: conn_at_known conn_id_at_known)
    with n1(1) True 2(1) c3(2) have run: "handleReadable dbg clock fd rs s =
        (if fd_error (snd (decode_all ?d)) then closeConn dbg fd ?s2 else Inr ?s2)"
      by (simp add: handleReadable_def Let_def del: frames_loop.simps)
    show thesis
    proof (cases "fd_error (snd (decode_all ?d))")
      case err: True
      obtain s' where s': "closeConn dbg fd ?s2 = Inr s'" "server_inv s'" "same_frame ?s2 s'"
        "conn_of (sv_net s') = (conn_of (sv_net ?s2))(fd := None)" "next_id s' = next_id ?s2" "sv_nextConnId s' = sv_nextConnId ?s2"
        and drop: "\<And>cid. id_of (sv_net ?s2) fd = Some cid \<Longrightarrow> dropConnection dbg cid (sv_venue ?s2) = Inr (sv_venue s')"
        by (rule closeConn_run [OF inv2, of fd dbg]) (use others2 in auto)
      have "read_outcome dbg clock fd c rs s s'"
        using cid 2(3) drop alive True err s'(4) id2 by (auto simp: read_outcome_def split: prod.split)
      with run err s' 2(2) cost none2 same_frame_trans [OF frame s'(3)] show thesis
        by (intro that [of s']) (simp_all add: next_id_def)
    next
      case False
      then have "settled (cn_decoder c3)" using settled_all c3(2) by simp
      with others2 c3(1) inv2 have "server_inv ?s2" by (auto simp: server_inv_def) (metis option.inject)
      moreover have "read_outcome dbg clock fd c rs s ?s2"
        using cid 2(3) alive True False c3 by (auto simp: read_outcome_def split: prod.split)
      ultimately show thesis
        using run False frame 2(2) cost none2 by (intro that [of ?s2]) (simp_all add: next_id_def)
    qed
  qed
qed

end
