(* ===== verification/ServerTheorems.thy ===== *)
theory ServerTheorems
  imports ServerSteps
begin

text \<open>
  A pass of the server's loop as a whole, and the properties of the server: it always gets back to
  \<open>poll\<close> and sends what it has to publish, every resting order belongs to an open connection, and
  requests are served in the order in which they arrive.
\<close>

section \<open>Writing\<close>

definition send_ends :: "SendResult list \<Rightarrow> bool" where
  "send_ends rs \<longleftrightarrow> SendAgain \<in> set rs \<or> SendFailed \<in> set rs"

lemma send_loop_run: "send_ends rs \<Longrightarrow> \<exists>alive k. send_loop rs out = Inr (alive, drop k out)"
proof (induction rs out rule: send_loop.induct)
  case (3 k rs x out)
  show ?case
  proof (cases "0 < k")
    case True
    with 3 obtain alive j where "send_loop rs (drop k (x # out)) = Inr (alive, drop j (drop k (x # out)))"
      by (auto simp: send_ends_def)
    with True have "send_loop (Sent k # rs) (x # out) = Inr (alive, drop (j + k) (x # out))"
      by (simp add: add.commute)
    then show ?thesis by blast
  next
    case False
    then show ?thesis by (intro exI [of _ False] exI [of _ 0]) simp
  qed
next
  case (4 rs x out)
  then show ?case by (intro exI [of _ True] exI [of _ 0]) simp
next
  case (6 rs x out)
  then show ?case by (intro exI [of _ False] exI [of _ 0]) simp
qed (auto simp: send_ends_def)

lemma handleWritable_run:
  assumes inv: "server_inv s" and c: "conn_of (sv_net s) fd = Some c" and ends: "send_ends rs"
  obtains s' where "handleWritable dbg fd rs s = Inr s'" and "server_inv s'" and "same_frame s s'"
    and "sv_nextConnId s' = sv_nextConnId s" and "next_id s' = next_id s"
    and "\<And>g. g \<noteq> fd \<Longrightarrow> conn_of (sv_net s') g = None \<longleftrightarrow> conn_of (sv_net s) g = None"
proof -
  obtain alive k where out: "send_loop rs (cn_out c) = Inr (alive, drop k (cn_out c))"
    using send_loop_run [OF ends] by blast
  let ?c = "c\<lparr>cn_out := drop k (cn_out c)\<rparr>"
  let ?s = "s\<lparr>sv_net := set_conn fd ?c (sv_net s)\<rparr>"
  have cinv: "conns_inv s" and ok: "net_maps_ok (sv_net s)"
    using inv by (auto simp: server_inv_def conns_inv_def net_inv_def)
  have inv1: "conns_inv ?s" by (rule set_conns_inv [OF cinv c]) simp
  have conns: "conn_of (set_conn fd ?c (sv_net s)) = (conn_of (sv_net s))(fd \<mapsto> ?c)" by (simp add: set_conn_maps(2) [OF ok])
  have all: "\<forall>g c'. conn_of (sv_net ?s) g = Some c' \<longrightarrow> settled (cn_decoder c')"
    using inv c by (auto simp: server_inv_def conns)
  have run: "handleWritable dbg fd rs s = (if alive then Inr ?s else closeConn dbg fd ?s)"
    by (simp add: handleWritable_def conn_at_known [OF c] out Let_def)
  show thesis
  proof (cases alive)
    case True
    with run inv1 all conns show thesis
      by (intro that [of ?s]) (auto simp: server_inv_def same_frame_def next_id_def)
  next
    case False
    obtain s' where "closeConn dbg fd ?s = Inr s'" "server_inv s'" "same_frame ?s s'" "next_id s' = next_id ?s"
      "conn_of (sv_net s') = (conn_of (sv_net ?s))(fd := None)" "sv_nextConnId s' = sv_nextConnId ?s"
      by (rule closeConn_run [OF inv1, of fd dbg]) (use all in auto)
    with run False conns show thesis
      by (intro that [of s']) (simp_all add: same_frame_def next_id_def)
  qed
qed

section \<open>One pass\<close>

text \<open>
  What the answers of the operating system have to satisfy: the loops over \<open>recv\<close>, \<open>send\<close> and \<open>accept\<close>
  come to an end, and \<open>accept\<close> hands out descriptors that are not in use.
\<close>

definition answers_end :: "PassInput \<Rightarrow> int list \<Rightarrow> bool" where
  "answers_end inp fds \<longleftrightarrow> accept_ends (pi_accepts inp) \<and>
     (\<forall>fd \<in> set fds. recv_open (pi_recvs inp fd) \<noteq> None \<and> send_ends (pi_sends inp fd))"

definition pass_cost :: "PassInput \<Rightarrow> int list \<Rightarrow> nat" where
  "pass_cost inp fds = sum_list (map (\<lambda>fd. read_cost (pi_recvs inp fd)) fds)"

lemma serve_conn_run:
  assumes inv: "server_inv s" and fd: "fd \<noteq> sv_listenFd s" and small: "venue_small dbg s"
    and ends: "recv_open (pi_recvs inp fd) \<noteq> None" "send_ends (pi_sends inp fd)"
    and ids: "next_id s + read_cost (pi_recvs inp fd) < 2 ^ 64"
  obtains s' where "serve_fd dbg clock inp revents fd s = Inr s'" and "server_inv s'" and "same_frame s s'"
    and "sv_nextConnId s' = sv_nextConnId s" and "next_id s' \<le> next_id s + read_cost (pi_recvs inp fd)"
    and "\<And>g. g \<noteq> fd \<Longrightarrow> conn_of (sv_net s') g = None \<longleftrightarrow> conn_of (sv_net s) g = None"
proof -
  let ?ev = "revents fd"
  consider "\<not> (re_in ?ev \<or> re_out ?ev \<or> re_hup ?ev) \<or> conn_of (sv_net s) fd = None"
    | c where "re_in ?ev \<or> re_out ?ev \<or> re_hup ?ev" "conn_of (sv_net s) fd = Some c" "re_hup ?ev"
    | c where "re_in ?ev \<or> re_out ?ev \<or> re_hup ?ev" "conn_of (sv_net s) fd = Some c" "\<not> re_hup ?ev"
    by (cases "conn_of (sv_net s) fd") auto
  then show thesis
  proof cases
    case 1
    then have "serve_fd dbg clock inp revents fd s = Inr s"
      using fd by (auto simp: serve_fd_def Let_def conn_of_def)
    with inv show thesis by (intro that [of s]) simp_all
  next
    case (2 c)
    have cinv: "conns_inv s" using inv by (simp add: server_inv_def)
    obtain s' where "closeConn dbg fd s = Inr s'" "server_inv s'" "same_frame s s'" "next_id s' = next_id s"
      "conn_of (sv_net s') = (conn_of (sv_net s))(fd := None)" "sv_nextConnId s' = sv_nextConnId s"
      by (rule closeConn_run [OF cinv, of fd dbg]) (use inv in \<open>auto simp: server_inv_def\<close>)
    with 2 fd show thesis
      by (intro that [of s']) (simp_all add: serve_fd_def Let_def conn_of_def)
  next
    case (3 c)
    obtain s1 where s1: "(if re_in ?ev then handleReadable dbg clock fd (pi_recvs inp fd) s else Inr s) = Inr s1"
      "server_inv s1" "same_frame s s1" "sv_nextConnId s1 = sv_nextConnId s" "next_id s1 \<le> next_id s + read_cost (pi_recvs inp fd)"
      and conns1: "\<And>g. g \<noteq> fd \<Longrightarrow> conn_of (sv_net s1) g = None \<longleftrightarrow> conn_of (sv_net s) g = None"
    proof (cases "re_in ?ev")
      case True
      obtain s1 where "handleReadable dbg clock fd (pi_recvs inp fd) s = Inr s1" "server_inv s1" "same_frame s s1"
        "sv_nextConnId s1 = sv_nextConnId s" "next_id s1 < next_id s + read_cost (pi_recvs inp fd)"
        "\<And>g. g \<noteq> fd \<Longrightarrow> conn_of (sv_net s1) g = None \<longleftrightarrow> conn_of (sv_net s) g = None"
        by (rule handleReadable_run [OF inv 3(2) ends(1) small ids, where clock = clock]) blast
      with True show thesis by (intro that [of s1]) simp_all
    next
      case False
      with inv show thesis by (intro that [of s]) simp_all
    qed
    have step: "serve_fd dbg clock inp revents fd s = (if conn_of (sv_net s1) fd \<noteq> None \<and> re_out ?ev
        then handleWritable dbg fd (pi_sends inp fd) s1 else Inr s1)"
      using 3 fd s1(1) unfolding serve_fd_def Let_def conn_of_def by auto
    show thesis
    proof (cases "conn_of (sv_net s1) fd \<noteq> None \<and> re_out ?ev")
      case True
      then obtain c1 where c1: "conn_of (sv_net s1) fd = Some c1" by auto
      obtain s2 where "handleWritable dbg fd (pi_sends inp fd) s1 = Inr s2" "server_inv s2" "same_frame s1 s2"
        "sv_nextConnId s2 = sv_nextConnId s1" "next_id s2 = next_id s1"
        "\<And>g. g \<noteq> fd \<Longrightarrow> conn_of (sv_net s2) g = None \<longleftrightarrow> conn_of (sv_net s1) g = None"
        using handleWritable_run [OF s1(2) c1 ends(2)] by blast
      with True step s1 conns1 show thesis
        by (intro that [of s2]) (auto intro: same_frame_trans)
    next
      case False
      with step s1 conns1 show thesis by (intro that [of s1]) auto
    qed
  qed
qed

lemma serve_conns_run:
  assumes "server_inv s" and "sv_listenFd s \<notin> set fds" and "venue_small dbg s"
    and "\<forall>fd \<in> set fds. recv_open (pi_recvs inp fd) \<noteq> None \<and> send_ends (pi_sends inp fd)"
    and "next_id s + pass_cost inp fds < 2 ^ 64"
  shows "\<exists>s'. serve_all dbg clock inp revents fds s = Inr s' \<and> server_inv s' \<and> same_frame s s' \<and>
    sv_nextConnId s' = sv_nextConnId s \<and> next_id s' \<le> next_id s + pass_cost inp fds \<and>
    (\<forall>g. g \<notin> set fds \<longrightarrow> (conn_of (sv_net s') g = None \<longleftrightarrow> conn_of (sv_net s) g = None))"
  using assms
proof (induction fds arbitrary: s)
  case Nil
  then show ?case by simp
next
  case (Cons fd fds)
  have cost: "pass_cost inp (fd # fds) = read_cost (pi_recvs inp fd) + pass_cost inp fds" by (simp add: pass_cost_def)
  obtain s1 where s1: "serve_fd dbg clock inp revents fd s = Inr s1" "server_inv s1" "same_frame s s1"
    "sv_nextConnId s1 = sv_nextConnId s" "next_id s1 \<le> next_id s + read_cost (pi_recvs inp fd)"
    and conns1: "\<And>g. g \<noteq> fd \<Longrightarrow> conn_of (sv_net s1) g = None \<longleftrightarrow> conn_of (sv_net s) g = None"
    by (rule serve_conn_run [of s fd dbg inp clock revents]) (use Cons.prems cost in auto)
  have "sv_listenFd s1 \<notin> set fds" using Cons.prems(2) s1(3) by (simp add: same_frame_def)
  moreover have "venue_small dbg s1" using Cons.prems(3) same_frame_small [OF s1(3)] by simp
  moreover have "\<forall>fd \<in> set fds. recv_open (pi_recvs inp fd) \<noteq> None \<and> send_ends (pi_sends inp fd)" using Cons.prems(4) by simp
  moreover have "next_id s1 + pass_cost inp fds < 2 ^ 64" using Cons.prems(5) s1(5) by (simp add: cost)
  ultimately obtain s2 where s2: "serve_all dbg clock inp revents fds s1 = Inr s2" "server_inv s2" "same_frame s1 s2"
    "sv_nextConnId s2 = sv_nextConnId s1" "next_id s2 \<le> next_id s1 + pass_cost inp fds"
    and conns2: "\<And>g. g \<notin> set fds \<Longrightarrow> conn_of (sv_net s2) g = None \<longleftrightarrow> conn_of (sv_net s1) g = None"
    using Cons.IH [OF s1(2)] by blast
  have "next_id s2 \<le> next_id s + pass_cost inp (fd # fds)" using s1(5) s2(5) cost by linarith
  with s1 s2 conns1 conns2 same_frame_trans [OF s1(3) s2(3)] show ?case by auto
qed

text \<open>Only the two broadcasts of the loop touch the top that was last published.\<close>

lemma closeConn_top: "closeConn dbg fd s = Inr s' \<Longrightarrow> sv_lastTop s' = sv_lastTop s"
  by (auto simp: closeConn_def bindR_eq_Inr Let_def split: option.splits)

lemma acceptNew_top: "acceptNew clock as s = Inr s' \<Longrightarrow> sv_lastTop s' = sv_lastTop s"
  by (induction clock as s rule: acceptNew.induct) (auto simp: Let_def split: prod.splits)

lemma handleReadable_top: "handleReadable dbg clock fd rs s = Inr s' \<Longrightarrow> sv_lastTop s' = sv_lastTop s"
  by (auto simp: handleReadable_def bindR_eq_Inr Let_def dest!: closeConn_top split: if_splits prod.splits)

lemma handleWritable_top: "handleWritable dbg fd rs s = Inr s' \<Longrightarrow> sv_lastTop s' = sv_lastTop s"
  by (auto simp: handleWritable_def bindR_eq_Inr Let_def dest!: closeConn_top split: if_splits prod.splits)

lemma serve_fd_top: "serve_fd dbg clock inp revents fd s = Inr s' \<Longrightarrow> sv_lastTop s' = sv_lastTop s"
  by (auto simp: serve_fd_def bindR_eq_Inr Let_def
    dest!: closeConn_top acceptNew_top handleReadable_top handleWritable_top split: if_splits)

lemma serve_all_top: "serve_all dbg clock inp revents fds s = Inr s' \<Longrightarrow> sv_lastTop s' = sv_lastTop s"
  by (induction fds arbitrary: s) (auto simp: bindR_eq_Inr dest: serve_fd_top)

text \<open>The broadcasts: every open connection gets the same frames behind what it has still to be sent.\<close>

definition stamp :: "(nat \<Rightarrow> Tm \<times> int) \<Rightarrow> nat \<Rightarrow> string" where
  "stamp clock k = (case clock k of (tm, ms) \<Rightarrow> isoTimestampNow tm ms)"

definition sends_all :: "string list \<Rightarrow> Net \<Rightarrow> Net \<Rightarrow> bool" where
  "sends_all ps n n' \<longleftrightarrow> id_of n' = id_of n \<and> fd_of n' = fd_of n \<and>
     (\<forall>fd. conn_of n' fd = map_option (\<lambda>c. appended c ps) (conn_of n fd))"

lemma sends_none [simp]: "sends_all [] n n"
  by (simp add: sends_all_def option.map_ident)

lemma sends_trans: "sends_all ps n n1 \<Longrightarrow> sends_all qs n1 n2 \<Longrightarrow> sends_all (ps @ qs) n n2"
  by (simp add: sends_all_def option.map_comp comp_def)

lemma clock_now_stamp: "clock_now clock n = (stamp clock (n_clock n), n\<lparr>n_clock := Suc (n_clock n)\<rparr>)"
  by (simp add: clock_now_def stamp_def split: prod.split)

lemma broadcastPayload_sends: "sends_all [msg] n (broadcastPayload msg (n\<lparr>n_clock := k\<rparr>))"
  by (simp add: sends_all_def broadcastPayload_def conn_of_def id_of_def fd_of_def um_find_map appended_def fun_eq_iff)

lemma broadcastPayload_clock [simp]: "n_clock (broadcastPayload msg n) = n_clock n"
  by (simp add: broadcastPayload_def Let_def)

lemma broadcastTop_sends: "sends_all [mdPayload t (stamp clock (n_clock n))] n (broadcastTop clock t n)"
  by (simp add: broadcastTop_def clock_now_stamp broadcastPayload_sends)

lemma broadcastFeed_sends:
  "sends_all [encodeHeartbeat (sv_heartbeatSeq s + 1) (stamp clock (n_clock (sv_net s))),
     mdPayload (currentTop (sv_venue s)) (stamp clock (Suc (n_clock (sv_net s))))] (sv_net s) (sv_net (broadcastFeed clock True s))"
  "sv_heartbeatSeq (broadcastFeed clock True s) = sv_heartbeatSeq s + 1"
proof -
  let ?n = "broadcastPayload (encodeHeartbeat (sv_heartbeatSeq s + 1) (stamp clock (n_clock (sv_net s))))
    ((sv_net s)\<lparr>n_clock := Suc (n_clock (sv_net s))\<rparr>)"
  have "sv_net (broadcastFeed clock True s) = broadcastTop clock (currentTop (sv_venue s)) ?n"
    by (simp add: broadcastFeed_def clock_now_stamp Let_def)
  moreover have "n_clock ?n = Suc (n_clock (sv_net s))" by simp
  ultimately show "sends_all [encodeHeartbeat (sv_heartbeatSeq s + 1) (stamp clock (n_clock (sv_net s))),
     mdPayload (currentTop (sv_venue s)) (stamp clock (Suc (n_clock (sv_net s))))] (sv_net s) (sv_net (broadcastFeed clock True s))"
    using sends_trans [OF broadcastPayload_sends broadcastTop_sends [of "currentTop (sv_venue s)" clock ?n]] by simp
  show "sv_heartbeatSeq (broadcastFeed clock True s) = sv_heartbeatSeq s + 1"
    by (simp add: broadcastFeed_def clock_now_stamp Let_def)
qed

lemma publish_top_sends:
  "sends_all (if currentTop (sv_venue s) = sv_lastTop s then []
     else [mdPayload (currentTop (sv_venue s)) (stamp clock (n_clock (sv_net s)))]) (sv_net s) (sv_net (publish_top clock s))"
  by (simp add: publish_top_def Let_def broadcastTop_sends)

lemma publish_top_run:
  assumes "server_inv s"
  shows "server_inv (publish_top clock s)" and "sv_venue (publish_top clock s) = sv_venue s"
    and "same_frame s (publish_top clock s)" and "sv_nextConnId (publish_top clock s) = sv_nextConnId s"
    and "sv_lastTop (publish_top clock s) = currentTop (sv_venue s)"
    and "net_grows (sv_net s) (sv_net (publish_top clock s))"
proof -
  let ?t = "currentTop (sv_venue s)"
  have g: "net_grows (sv_net s) (broadcastTop clock ?t (sv_net s))" by (rule broadcastTop_grows)
  have "server_inv (s\<lparr>sv_lastTop := ?t, sv_net := broadcastTop clock ?t (sv_net s)\<rparr>)"
    using server_grows [OF assms g] unfolding server_inv_def conns_inv_def by simp
  with assms g show "server_inv (publish_top clock s)" "net_grows (sv_net s) (sv_net (publish_top clock s))"
    by (simp_all add: publish_top_def Let_def net_grows_refl)
qed (simp_all add: publish_top_def Let_def same_frame_def)

definition conn_fds :: "Server \<Rightarrow> int list" where
  "conn_fds s = map fst (n_conns (sv_net s))"

lemma conn_fds_conn: "fd \<in> set (conn_fds s) \<longleftrightarrow> conn_of (sv_net s) fd \<noteq> None"
  by (auto simp: conn_fds_def conn_of_def um_find_def map_of_eq_None_iff)

text \<open>
  The conditions under which a pass is sure to come back, as a check: the answers end and \<open>accept\<close> gives
  unused descriptors, neither connection ids nor engine ids run out, and with asserts compiled in the
  venue admits no more than 4096 orders.
\<close>

definition pass_ok :: "bool \<Rightarrow> PassInput \<Rightarrow> Server \<Rightarrow> bool" where
  "pass_ok dbg inp s \<longleftrightarrow> venue_small dbg s \<and> answers_end inp (conn_fds s) \<and> distinct (accepted (pi_accepts inp)) \<and>
     list_all (\<lambda>fd. conn_of (sv_net s) fd = None \<and> fd \<noteq> sv_listenFd s) (accepted (pi_accepts inp)) \<and>
     unat (sv_nextConnId s) + length (accepted (pi_accepts inp)) < 2 ^ 64 \<and>
     next_id s + pass_cost inp (conn_fds s) < 2 ^ 64"

lemma broadcastFeed_same: "server_inv s \<Longrightarrow> same_frame s (broadcastFeed clock hb s)"
  using broadcastFeed_run(2,3,6) [of s clock hb]
  by (auto simp: same_frame_def broadcastFeed_def Let_def split: prod.split)

lemma run_pass_ready:
  assumes inv: "server_inv s" and listen: "conn_of (sv_net s) (sv_listenFd s) = None" and ok: "pass_ok dbg inp s"
    and poll: "pi_poll inp (poll_fds s) (poll_timeout (sv_heartbeatMs s) nextBeat (pi_beforePoll inp)) = (PollReady, revents)"
  obtains s' where "run_pass dbg clock inp nextBeat s = Inr (Continue
      (if pi_afterPoll inp \<ge> nextBeat then pi_afterFeed inp + sv_heartbeatMs s * 1000000 else nextBeat) s')"
    and "server_inv s'" and "same_frame s s'" and "conn_of (sv_net s') (sv_listenFd s') = None"
    and "next_id s' \<le> next_id s + pass_cost inp (conn_fds s)"
    and "\<exists>s1. serve_all dbg clock inp revents (map fst (poll_fds s))
      (if pi_afterPoll inp \<ge> nextBeat then broadcastFeed clock True s else s) = Inr s1 \<and> s' = publish_top clock s1"
proof -
  have ok': "conn_of (sv_net s) (sv_listenFd s) = None" "venue_small dbg s" "answers_end inp (conn_fds s)"
    "distinct (accepted (pi_accepts inp))" "unat (sv_nextConnId s) + length (accepted (pi_accepts inp)) < 2 ^ 64"
    "next_id s + pass_cost inp (conn_fds s) < 2 ^ 64"
    and fresh: "\<forall>fd \<in> set (accepted (pi_accepts inp)). conn_of (sv_net s) fd = None \<and> fd \<noteq> sv_listenFd s"
    using ok listen by (simp_all add: pass_ok_def list_all_iff)
  let ?due = "pi_afterPoll inp \<ge> nextBeat"
  define s0 where "s0 = (if ?due then broadcastFeed clock True s else s)"
  have s0: "server_inv s0" "same_frame s s0" "sv_nextConnId s0 = sv_nextConnId s" "sv_venue s0 = sv_venue s"
    "net_grows (sv_net s) (sv_net s0)"
    using inv broadcastFeed_run [OF inv, of clock True] broadcastFeed_same [OF inv, of clock True]
    by (simp_all add: s0_def net_grows_refl)
  have conns0: "conn_of (sv_net s0) g = None \<longleftrightarrow> conn_of (sv_net s) g = None" for g
    by (rule net_grows_None [OF s0(5)])
  obtain s1 where s1: "serve_fd dbg clock inp revents (sv_listenFd s) s0 = Inr s1" "server_inv s1" "same_frame s0 s1"
    "sv_venue s1 = sv_venue s0"
    and conns1: "conn_of (sv_net s1) (sv_listenFd s) = None"
  proof -
    have "sv_listenFd s0 = sv_listenFd s" using s0(2) by (simp add: same_frame_def)
    then have step: "serve_fd dbg clock inp revents (sv_listenFd s) s0 =
        (if re_in (revents (sv_listenFd s)) then acceptNew clock (pi_accepts inp) s0 else Inr s0)"
      by (simp add: serve_fd_def Let_def)
    obtain s1 where "acceptNew clock (pi_accepts inp) s0 = Inr s1" "server_inv s1" "sv_venue s1 = sv_venue s0" "same_frame s0 s1"
      "\<And>fd. conn_of (sv_net s1) fd = None \<longleftrightarrow> conn_of (sv_net s0) fd = None \<and> fd \<notin> set (accepted (pi_accepts inp))"
      using acceptNew_run [OF s0(1), of "pi_accepts inp" clock] ok' fresh conns0 s0(3) by (auto simp: answers_end_def)
    with step s0(1) ok'(1) fresh conns0 that show thesis
      by (cases "re_in (revents (sv_listenFd s))") auto
  qed
  have frame1: "same_frame s s1" by (rule same_frame_trans [OF s0(2) s1(3)])
  have "sv_listenFd s1 \<notin> set (conn_fds s)"
    using frame1 ok'(1) by (simp add: conn_fds_conn same_frame_def)
  moreover have "venue_small dbg s1" using ok'(2) same_frame_small [OF frame1] by simp
  moreover have "\<forall>fd \<in> set (conn_fds s). recv_open (pi_recvs inp fd) \<noteq> None \<and> send_ends (pi_sends inp fd)"
    using ok'(3) by (simp add: answers_end_def)
  moreover have next1: "next_id s1 = next_id s" using s1(4) s0(4) by (simp add: next_id_def)
  ultimately obtain s2 where s2: "serve_all dbg clock inp revents (conn_fds s) s1 = Inr s2" "server_inv s2" "same_frame s1 s2"
    "next_id s2 \<le> next_id s1 + pass_cost inp (conn_fds s)"
    and conns2: "\<And>g. g \<notin> set (conn_fds s) \<Longrightarrow> conn_of (sv_net s2) g = None \<longleftrightarrow> conn_of (sv_net s1) g = None"
    using serve_conns_run [OF s1(2), of "conn_fds s" dbg inp clock revents] ok'(6) by auto
  note pub = publish_top_run [OF s2(2), of clock]
  let ?s' = "publish_top clock s2"
  have frame: "same_frame s ?s'"
    using same_frame_trans [OF frame1 same_frame_trans [OF s2(3) pub(3)]] .
  have "sv_listenFd s \<notin> set (conn_fds s)" using ok'(1) by (simp add: conn_fds_conn)
  then have "conn_of (sv_net ?s') (sv_listenFd ?s') = None"
    using frame conns1 conns2 net_grows_None [OF pub(6)] by (simp add: same_frame_def)
  moreover have "map fst (poll_fds s) = sv_listenFd s # conn_fds s"
    by (simp add: poll_fds_def conn_fds_def case_prod_unfold)
  then have all: "serve_all dbg clock inp revents (map fst (poll_fds s)) s0 = Inr s2"
    using s1(1) s2(1) by simp
  then have "run_pass dbg clock inp nextBeat s = Inr (Continue
      (if ?due then pi_afterFeed inp + sv_heartbeatMs s * 1000000 else nextBeat) ?s')"
    using poll unfolding s0_def by (cases ?due) (simp_all add: run_pass_def Let_def)
  ultimately show thesis
    using pub frame s2(4) next1 all unfolding s0_def by (intro that [of ?s']) (auto simp: next_id_def)
qed

section \<open>Runs of the server\<close>

text \<open>
  The states between two passes, with the deadline of the next heartbeat: what the beginning of \<open>run\<close> makes of a
  new server when the set-up succeeds, and what any pass makes of it that is given answers as above.
\<close>

inductive server_run :: "bool \<Rightarrow> (nat \<Rightarrow> Tm \<times> int) \<Rightarrow> int \<Rightarrow> Server \<Rightarrow> bool" for dbg clock where
  listening: "Server_new port bookCapacity softCap heartbeatMs = Inr s \<Longrightarrow> softCap < bookCapacity \<Longrightarrow>
    run_start sock bnd lsn getResult setResult now s = Continue nextBeat s' \<Longrightarrow> server_run dbg clock nextBeat s'"
| pass: "server_run dbg clock nextBeat s \<Longrightarrow> pass_ok dbg inp s \<Longrightarrow>
    run_pass dbg clock inp nextBeat s = Inr (Continue nextBeat' s') \<Longrightarrow> server_run dbg clock nextBeat' s'"

lemma Server_new_inv:
  assumes "Server_new port bookCapacity softCap heartbeatMs = Inr s" and "softCap < bookCapacity"
  shows "server_inv s" and "n_conns (sv_net s) = []"
proof -
  obtain v where v: "Venue_new bookCapacity softCap = Inr v" and "sv_venue s = v" and "vt_byConn (v_tables v) = []"
    and net: "sv_net s = \<lparr>n_conns = [], n_connFd = [], n_fdConn = [], n_clock = 0, n_closed = []\<rparr>"
    using assms(1) by (auto simp: Server_new_def Venue_new_def bindR_eq_Inr)
  then show "server_inv s"
    using Venue_new_inv [OF v assms(2)]
    by (simp add: server_inv_def conns_inv_def net_inv_def net_maps_ok_def conn_of_def id_of_def fd_of_def
      record_of_def um_find_def um_ok_def)
  show "n_conns (sv_net s) = []" by (simp add: net)
qed

lemma server_run_inv:
  "server_run dbg clock nextBeat s \<Longrightarrow> server_inv s \<and> conn_of (sv_net s) (sv_listenFd s) = None"
proof (induction rule: server_run.induct)
  case (listening port bookCapacity softCap heartbeatMs s sock bnd lsn getResult setResult now nextBeat s')
  have "s' = s\<lparr>sv_listenFd := sock\<rparr>"
    using listening(3) by (auto simp: run_start_def setupListen_def Let_def split: if_splits)
  with Server_new_inv [OF listening(1,2)] show ?case
    by (simp add: server_inv_def conns_inv_def conn_of_def um_find_def)
next
  case (pass nextBeat s inp nextBeat' s')
  let ?poll = "pi_poll inp (poll_fds s) (poll_timeout (sv_heartbeatMs s) nextBeat (pi_beforePoll inp))"
  have inv: "server_inv s" "conn_of (sv_net s) (sv_listenFd s) = None" using pass.IH by auto
  obtain pr revents where poll: "?poll = (pr, revents)" by force
  show ?case
  proof (cases pr)
    case PollReady
    with run_pass_ready [OF inv pass(2) poll [unfolded PollReady]] pass(3) show ?thesis by (metis Inr_inject Pass.inject(1))
  next
    case PollIntr
    with poll pass(3) inv show ?thesis by (simp add: run_pass_def Let_def)
  next
    case PollFailed
    with poll pass(3) show ?thesis by (simp add: run_pass_def Let_def)
  qed
qed

lemma server_venue: "server_inv s \<Longrightarrow> venue_inv (sv_venue s)"
  by (simp add: server_inv_def conns_inv_def)

lemma record_owner:
  assumes inv: "server_inv s" and "record_of (v_tables (sv_venue s)) cid k \<noteq> None"
  obtains fd c where "fd_of (sv_net s) cid = Some fd" and "id_of (sv_net s) fd = Some cid" and "conn_of (sv_net s) fd = Some c"
proof -
  have net: "net_inv (sv_nextConnId s) (sv_net s)" and "fd_of (sv_net s) cid \<noteq> None"
    using assms by (auto simp: server_inv_def conns_inv_def)
  then obtain fd where fd: "fd_of (sv_net s) cid = Some fd" by blast
  with net have "id_of (sv_net s) fd = Some cid" "conn_of (sv_net s) fd \<noteq> None" by (auto simp: net_inv_def)
  with fd that show thesis by blast
qed

lemma order_record:
  assumes "venue_inv v" and "x \<in> set (spec_orders (abs_book (v_book v)))"
  obtains k where "record_of (v_tables v) (o_participantId x) k \<noteq> None"
proof -
  note i = venue_invD [OF assms(1)]
  obtain y where "ord_map (spec_orders (abs_book (v_book v))) (o_orderId x) = Some y"
    using assms(2) ord_map_None [of "spec_orders (abs_book (v_book v))" "o_orderId x"] by (cases "ord_map (spec_orders (abs_book (v_book v))) (o_orderId x)") auto
  moreover have "distinct (map o_orderId (spec_orders (abs_book (v_book v))))" by (rule book_inv_ids [OF i(1)])
  ultimately have "ord_map (spec_orders (abs_book (v_book v))) (o_orderId x) = Some x"
    using assms(2) ord_map_Some [of "spec_orders (abs_book (v_book v))" "o_orderId x"] by blast
  from tables_rep_live [OF i(3) this] that show thesis by (metis option.distinct(1) shows_order_def)
qed

section \<open>The properties of the server\<close>


text \<open>C5: A pass of the server always gets back to \<open>poll\<close>, whatever bytes the clients have sent: it does not
  fault and the server stays in a reachable state. When the heartbeat is due, every open connection is
  first sent a heartbeat with the next number and the top of the book; then the descriptors are served;
  and when the top is then another than the one published last, every connection that is still open is
  sent the new one, otherwise nothing. Sent means that exactly these frames are put behind what the
  connection has still to be sent. Only a failure of \<open>poll\<close> itself ends the loop, with code 1. The conditions
  are on the operating system, whose answers end the loops over \<open>recv\<close>, \<open>send\<close> and \<open>accept\<close>, and on the
  64-bit ids.\<close>

theorem server_pass:
  assumes "server_run dbg clock nextBeat s" and "pass_ok dbg inp s"
  shows "case pi_poll inp (poll_fds s) (poll_timeout (sv_heartbeatMs s) nextBeat (pi_beforePoll inp)) of (answer, revents) \<Rightarrow>
    case answer of
      PollReady \<Rightarrow> \<exists>s0 s1 s'.
        let due = (pi_afterPoll inp \<ge> nextBeat); top = currentTop (sv_venue s); top' = currentTop (sv_venue s1);
            published = (if due then top else sv_lastTop s); k = n_clock (sv_net s);
            beat = (if due then pi_afterFeed inp + sv_heartbeatMs s * 1000000 else nextBeat) in
        run_pass dbg clock inp nextBeat s = Inr (Continue beat s') \<and> server_run dbg clock beat s' \<and>
        (if due
         then sv_venue s0 = sv_venue s \<and> sv_heartbeatSeq s0 = sv_heartbeatSeq s + 1 \<and>
              sends_all [encodeHeartbeat (sv_heartbeatSeq s + 1) (stamp clock k), mdPayload top (stamp clock (Suc k))]
                (sv_net s) (sv_net s0)
         else s0 = s) \<and>
        serve_all dbg clock inp revents (map fst (poll_fds s)) s0 = Inr s1 \<and>
        sv_venue s' = sv_venue s1 \<and> sv_lastTop s' = top' \<and>
        sends_all (if top' = published then [] else [mdPayload top' (stamp clock (n_clock (sv_net s1)))])
          (sv_net s1) (sv_net s')
    | PollIntr \<Rightarrow> run_pass dbg clock inp nextBeat s = Inr (Continue nextBeat s)
    | PollFailed \<Rightarrow> run_pass dbg clock inp nextBeat s = Inr (Exit 1)"
proof -
  let ?poll = "pi_poll inp (poll_fds s) (poll_timeout (sv_heartbeatMs s) nextBeat (pi_beforePoll inp))"
  let ?due = "pi_afterPoll inp \<ge> nextBeat"
  let ?s0 = "if ?due then broadcastFeed clock True s else s"
  have inv: "server_inv s" "conn_of (sv_net s) (sv_listenFd s) = None"
    using server_run_inv [OF assms(1)] by auto
  obtain pr revents where poll: "?poll = (pr, revents)" by force
  show ?thesis
  proof (cases pr)
    case PollReady
    obtain s' s1 where s': "run_pass dbg clock inp nextBeat s = Inr (Continue
        (if ?due then pi_afterFeed inp + sv_heartbeatMs s * 1000000 else nextBeat) s')"
      and s1: "serve_all dbg clock inp revents (map fst (poll_fds s)) ?s0 = Inr s1" and pub: "s' = publish_top clock s1"
      using run_pass_ready [OF inv assms(2) poll [unfolded PollReady], where clock = clock] by metis
    have feed: "sv_venue (broadcastFeed clock True s) = sv_venue s" "sv_heartbeatSeq (broadcastFeed clock True s) = sv_heartbeatSeq s + 1"
      "sv_lastTop (broadcastFeed clock True s) = currentTop (sv_venue s)"
      using broadcastFeed_run(2,7) [OF inv(1)] broadcastFeed_sends(2) by simp_all
    have last: "sv_lastTop s1 = (if ?due then currentTop (sv_venue s) else sv_lastTop s)"
      using serve_all_top [OF s1] feed by simp
    have fields: "sv_venue s' = sv_venue s1" "sv_lastTop s' = currentTop (sv_venue s1)"
      by (simp_all add: pub publish_top_def Let_def)
    note sends = publish_top_sends [of s1 clock, folded pub, unfolded last]
    show ?thesis
      unfolding poll PollReady case_prod_conv PollResult.case Let_def
      by (intro exI [of _ ?s0] exI [of _ s1] exI [of _ s'] conjI s' server_run.pass [OF assms s'] s1 fields sends)
        (simp add: feed broadcastFeed_sends(1))
  qed (use poll in \<open>simp_all add: run_pass_def Let_def\<close>)
qed

text \<open>C9: Every order that rests in the book belongs to a connection that is still open: its participant is the id of
  exactly one open descriptor. No order outlives its client, and none is left that nobody could cancel.\<close>

theorem orders_have_owner:
  assumes "server_run dbg clock nextBeat s" and "x \<in> set (spec_orders (abs_book (v_book (sv_venue s))))"
  shows "\<exists>!fd. conn_of (sv_net s) fd \<noteq> None \<and> id_of (sv_net s) fd = Some (o_participantId x)"
proof -
  have inv: "server_inv s" using server_run_inv [OF assms(1)] by simp
  obtain k where "record_of (v_tables (sv_venue s)) (o_participantId x) k \<noteq> None"
    by (rule order_record [OF server_venue [OF inv] assms(2)])
  then obtain fd c where "id_of (sv_net s) fd = Some (o_participantId x)" "conn_of (sv_net s) fd = Some c"
    "fd_of (sv_net s) (o_participantId x) = Some fd"
    by (rule record_owner [OF inv])
  moreover have "\<forall>g. id_of (sv_net s) g = Some (o_participantId x) \<longrightarrow> fd_of (sv_net s) (o_participantId x) = Some g"
    using inv by (simp add: server_inv_def conns_inv_def net_inv_def)
  ultimately show ?thesis by (intro ex1I [of _ fd]) (auto, metis option.inject)
qed

text \<open>C10: Requests are served in the order of arrival, however \<open>recv\<close> cuts the stream: when the bytes left over from
  earlier passes and those that arrive now are frames and a beginning of a further one, \<open>handleReadable\<close>
  gives the venue exactly the payloads of these frames, one after the other, for the connection's id, and
  keeps the beginning for the next call. The connection stays open.\<close>

theorem requests_in_order:
  assumes "server_run dbg clock nextBeat s" and "conn_of (sv_net s) fd = Some c"
    and "fd_buf (cn_decoder c) @ received rs = concat (map encodeFrame payloads) @ rest"
    and "\<forall>p \<in> set payloads. length p \<le> unat kMaxPayloadBytes" and "settled \<lparr>fd_buf = rest, fd_error = False\<rparr>"
    and "recv_open rs = Some True" and "venue_small dbg s" and "next_id s + read_cost rs < 2 ^ 64"
  shows "\<exists>cid s'. handleReadable dbg clock fd rs s = Inr s' \<and> id_of (sv_net s) fd = Some cid \<and>
    handles dbg clock cid payloads (sv_venue s) (sv_venue s') \<and>
    map_option cn_decoder (conn_of (sv_net s') fd) = Some \<lparr>fd_buf = rest, fd_error = False\<rparr>"
proof -
  have inv: "server_inv s" using server_run_inv [OF assms(1)] by simp
  have "\<not> fd_error (cn_decoder c)" using inv assms(2) by (simp add: server_inv_def settled_def)
  then have d: "\<not> fd_error (feed (cn_decoder c) (received rs))" by simp
  let ?r = "\<lparr>fd_buf = rest, fd_error = False\<rparr>"
  have "decode_all ?r = ([], ?r)" using assms(5) by (simp add: decode_all_step settled_def)
  moreover have "(feed (cn_decoder c) (received rs))\<lparr>fd_buf := rest\<rparr> = ?r" using d by simp
  ultimately have all: "decode_all (feed (cn_decoder c) (received rs)) = (payloads, ?r)"
    using decode_all_encoded [OF d, of payloads rest] assms(3,4) by (simp add: kMaxPayloadBytes_unat)
  obtain s' where "handleReadable dbg clock fd rs s = Inr s'" "read_outcome dbg clock fd c rs s s'"
    using handleReadable_run [OF inv assms(2) _ assms(7,8), where clock = clock] assms(6) by auto
  then show ?thesis using assms(6) by (auto simp: read_outcome_def all)
qed

text \<open>C32: When the peer's end of the stream, or an error, arrives in the same pass as frames before it, none of these
  frames is served: the venue only loses the orders and records of the connection, as if nothing had been
  received.\<close>

theorem eof_discards_requests:
  assumes "server_run dbg clock nextBeat s" and "conn_of (sv_net s) fd = Some c" and "recv_open rs = Some False"
    and "venue_small dbg s" and "next_id s + read_cost rs < 2 ^ 64"
  shows "\<exists>cid s'. handleReadable dbg clock fd rs s = Inr s' \<and> id_of (sv_net s) fd = Some cid \<and>
    dropConnection dbg cid (sv_venue s) = Inr (sv_venue s') \<and> conn_of (sv_net s') fd = None"
proof -
  have inv: "server_inv s" using server_run_inv [OF assms(1)] by simp
  obtain s' where "handleReadable dbg clock fd rs s = Inr s'" "read_outcome dbg clock fd c rs s s'"
    using handleReadable_run [OF inv assms(2) _ assms(4,5), where clock = clock] assms(3) by auto
  then show ?thesis using assms(3) by (auto simp: read_outcome_def split: prod.splits)
qed

text \<open>C33: The time \<open>poll\<close> may sleep is never negative nor longer than a heartbeat, it ends before the next heartbeat is
  due, and it is not cut short by a whole millisecond unless by the length of a heartbeat. From a
  heartbeat that is due it does not sleep at all.\<close>

theorem poll_timeout_bounds:
  assumes "0 \<le> heartbeatMs"
  shows "let t = poll_timeout heartbeatMs nextBeat now in
    0 \<le> t \<and> t \<le> heartbeatMs \<and> (nextBeat \<le> now \<longrightarrow> t = 0) \<and> (now < nextBeat \<longrightarrow> now + t * 1000000 \<le> nextBeat) \<and>
    (t = heartbeatMs \<or> nextBeat < now + (t + 1) * 1000000)"
proof (cases "nextBeat > now")
  case True
  let ?d = "nextBeat - now"
  have "0 \<le> ?d mod 1000000" "?d mod 1000000 < 1000000" "?d div 1000000 * 1000000 + ?d mod 1000000 = ?d" by simp_all
  moreover from True have "0 \<le> ?d div 1000000" by (simp add: pos_imp_zdiv_nonneg_iff)
  ultimately show ?thesis using True assms by (auto simp: poll_timeout_def Let_def)
next
  case False
  with assms show ?thesis by (simp add: poll_timeout_def Let_def)
qed

section \<open>A run\<close>

text \<open>A server for at most 4 orders accepts a client, which sends an order, as the witnesses use it.\<close>

definition demo_clock :: "nat \<Rightarrow> Tm \<times> int" where
  "demo_clock n = (\<lparr>tm_year = -1900, tm_mon = 0, tm_mday = 1, tm_hour = 0, tm_min = 0, tm_sec = 0\<rparr>, 7)"

definition demo_frame :: string where
  "demo_frame = encodeFrame (new_order_text [] ''a'' ''SIM1'' OBuy 150 3)"

definition demo_input :: "AcceptResult list \<Rightarrow> string \<Rightarrow> PassInput" where
  "demo_input as d = \<lparr>pi_poll = (\<lambda>fds t. (PollReady, \<lambda>fd. \<lparr>re_in = True, re_out = False, re_hup = False\<rparr>)),
     pi_beforePoll = 10, pi_afterPoll = 10, pi_afterFeed = 10, pi_accepts = as,
     pi_recvs = (\<lambda>fd. [RecvData d, RecvIntr, RecvAgain]), pi_sends = (\<lambda>fd. [SendAgain])\<rparr>"

definition pass_of :: "PassInput \<Rightarrow> Server \<Rightarrow> Server" where
  "pass_of inp s = (case run_pass True demo_clock inp 1000000000 s of Inr (Continue b s') \<Rightarrow> s' | _ \<Rightarrow> s)"

definition demo_listening :: Server where
  "demo_listening = snd (setupListen 3 0 0 2 0 (projr (Server_new 9200 6 4 1000)))"

definition demo_client :: Server where
  "demo_client = pass_of (demo_input [Accepted 5, AcceptAgain] []) demo_listening"

definition demo_server :: Server where
  "demo_server = pass_of (demo_input [AcceptAgain] demo_frame) demo_client"

lemma demo_pass:
  assumes "server_run True demo_clock 1000000000 s" and "pass_ok True (demo_input as d) s"
  shows "server_run True demo_clock 1000000000 (pass_of (demo_input as d) s)"
proof -
  have inv: "server_inv s" "conn_of (sv_net s) (sv_listenFd s) = None" using server_run_inv [OF assms(1)] by auto
  obtain s' where "run_pass True demo_clock (demo_input as d) 1000000000 s = Inr (Continue 1000000000 s')"
    by (rule run_pass_ready [OF inv assms(2), where clock = demo_clock and nextBeat = 1000000000])
      (simp_all add: demo_input_def)
  then show ?thesis using server_run.pass [OF assms] by (simp add: pass_of_def)
qed

text \<open>The numbers of \<open>pass_ok\<close> are too big to count up to; these bounds on the state are enough.\<close>

definition demo_ok :: "AcceptResult list \<Rightarrow> string \<Rightarrow> Server \<Rightarrow> bool" where
  "demo_ok as d s \<longleftrightarrow> length (conn_fds s) \<le> 1 \<and> vt_softCap (v_tables (sv_venue s)) = 4 \<and>
     vt_nextEngineId (v_tables (sv_venue s)) < 10 \<and> sv_nextConnId s < 10 \<and>
     AcceptAgain \<in> set as \<and> distinct (accepted as) \<and> length (accepted as) \<le> 10 \<and>
     list_all (\<lambda>fd. conn_of (sv_net s) fd = None \<and> fd \<noteq> sv_listenFd s) (accepted as)"

lemma demo_ok_pass:
  assumes "demo_ok as d s" and "length d \<le> 1000"
  shows "pass_ok True (demo_input as d) s"
proof -
  have "next_id s < 10" "unat (sv_nextConnId s) < 10"
    using assms(1) by (simp_all add: demo_ok_def next_id_def word_less_nat_alt)
  moreover have "pass_cost (demo_input as d) (conn_fds s) \<le> 1049600"
  proof (cases "conn_fds s")
    case (Cons fd fds)
    with assms show ?thesis by (simp add: demo_ok_def pass_cost_def read_cost_def demo_input_def)
  qed (simp add: pass_cost_def)
  ultimately show ?thesis
    using assms by (simp add: demo_ok_def pass_ok_def venue_small_def kDefaultMaxPriceLevels_def answers_end_def
      accept_ends_def send_ends_def demo_input_def)
qed

lemma demo_listening_run: "server_run True demo_clock 1000000000 demo_listening"
proof -
  have "Server_new 9200 6 4 1000 = Inr (projr (Server_new 9200 6 4 1000))" by code_simp
  moreover have "run_start 3 0 0 2 0 0 (projr (Server_new 9200 6 4 1000)) = Continue 1000000000 demo_listening"
    unfolding demo_listening_def by code_simp
  moreover have "(4 :: u64) < 6" by simp
  ultimately show ?thesis using server_run.listening by blast
qed

lemma demo_client_run: "server_run True demo_clock 1000000000 demo_client"
  unfolding demo_client_def by (rule demo_pass [OF demo_listening_run demo_ok_pass]) code_simp+

lemma demo_server_run: "server_run True demo_clock 1000000000 demo_server"
  unfolding demo_server_def by (rule demo_pass [OF demo_client_run demo_ok_pass]) code_simp+

lemma demo_client_conn: "conn_of (sv_net demo_client) 5 = Some (the (conn_of (sv_net demo_client) 5))"
  by code_simp

lemma demo_client_ids: "venue_small True demo_client" "next_id demo_client = 1"
proof -
  have "vt_softCap (v_tables (sv_venue demo_client)) = 4" "vt_nextEngineId (v_tables (sv_venue demo_client)) = 1" by code_simp+
  then show "venue_small True demo_client" "next_id demo_client = 1"
    by (simp_all add: venue_small_def kDefaultMaxPriceLevels_def next_id_def)
qed

lemma demo_answers:
  "pi_poll (demo_input as d) fds t = (PollReady, \<lambda>fd. \<lparr>re_in = True, re_out = False, re_hup = False\<rparr>)"
  "pi_afterPoll (demo_input as d) = 10"
  by (simp_all add: demo_input_def)

text \<open>The pass in which the client's order arrives.\<close>

theorem server_pass_witness:
  "\<exists>s1 s'. let inp = demo_input [AcceptAgain] demo_frame; top' = currentTop (sv_venue s1) in
    run_pass True demo_clock inp 1000000000 demo_client = Inr (Continue 1000000000 s') \<and>
    server_run True demo_clock 1000000000 s' \<and>
    serve_all True demo_clock inp (\<lambda>fd. \<lparr>re_in = True, re_out = False, re_hup = False\<rparr>)
      (map fst (poll_fds demo_client)) demo_client = Inr s1 \<and>
    sv_venue s' = sv_venue s1 \<and> sv_lastTop s' = top' \<and>
    sends_all (if top' = sv_lastTop demo_client then [] else [mdPayload top' (stamp demo_clock (n_clock (sv_net s1)))])
      (sv_net s1) (sv_net s')"
proof -
  have ok: "demo_ok [AcceptAgain] demo_frame demo_client" "length demo_frame \<le> 1000" by code_simp+
  show ?thesis
    using server_pass [OF demo_client_run demo_ok_pass [OF ok]] unfolding demo_answers Let_def by simp
qed

theorem orders_have_owner_witness:
  "\<exists>!fd. conn_of (sv_net demo_server) fd \<noteq> None \<and>
     id_of (sv_net demo_server) fd = Some (o_participantId (hd (spec_orders (abs_book (v_book (sv_venue demo_server))))))"
proof (rule orders_have_owner [OF demo_server_run])
  have "spec_orders (abs_book (v_book (sv_venue demo_server))) \<noteq> []" by code_simp
  then show "hd (spec_orders (abs_book (v_book (sv_venue demo_server)))) \<in> set (spec_orders (abs_book (v_book (sv_venue demo_server))))"
    by (rule hd_in_set)
qed

theorem requests_in_order_witness:
  "let payload = new_order_text [] ''a'' ''SIM1'' OBuy 150 3; f = encodeFrame payload in
    \<exists>cid s'. handleReadable True demo_clock 5 [RecvData (take 9 f), RecvIntr, RecvData (drop 9 f @ f @ take 1 f), RecvAgain] demo_client = Inr s' \<and>
      id_of (sv_net demo_client) 5 = Some cid \<and>
      handles True demo_clock cid [payload, payload] (sv_venue demo_client) (sv_venue s') \<and>
      map_option cn_decoder (conn_of (sv_net s') 5) = Some \<lparr>fd_buf = take 1 f, fd_error = False\<rparr>"
proof -
  let ?p = "new_order_text [] ''a'' ''SIM1'' OBuy 150 3"
  let ?f = "encodeFrame ?p"
  let ?rs = "[RecvData (take 9 ?f), RecvIntr, RecvData (drop 9 ?f @ ?f @ take 1 ?f), RecvAgain]"
  have "length ?p \<le> 100" by code_simp
  then have "length ?p \<le> unat kMaxPayloadBytes" "next_id demo_client + read_cost ?rs < 2 ^ 64"
    by (simp_all add: kMaxPayloadBytes_unat demo_client_ids read_cost_def encodeFrame_header del: append_take_drop_id)
  moreover have "settled \<lparr>fd_buf = take 1 ?f, fd_error = False\<rparr>"
    by (simp add: settled_def decoder_next_eq min_def)
  moreover have "fd_buf (cn_decoder (the (conn_of (sv_net demo_client) 5))) = []" by code_simp
  ultimately show ?thesis
    unfolding Let_def
    by (intro requests_in_order [OF demo_client_run demo_client_conn _ _ _ _ demo_client_ids(1)])
      (simp_all add: append_assoc [symmetric] del: append_assoc)
qed

theorem eof_discards_requests_witness:
  "\<exists>cid s'. handleReadable True demo_clock 5 [RecvData demo_frame, RecvEof] demo_client = Inr s' \<and>
    id_of (sv_net demo_client) 5 = Some cid \<and>
    dropConnection True cid (sv_venue demo_client) = Inr (sv_venue s') \<and> conn_of (sv_net s') 5 = None"
proof -
  have "length demo_frame \<le> 100" by code_simp
  then have "next_id demo_client + read_cost [RecvData demo_frame, RecvEof] < 2 ^ 64"
    by (simp add: demo_client_ids read_cost_def)
  then show ?thesis
    by (intro eof_discards_requests [OF demo_client_run demo_client_conn _ demo_client_ids(1)]) simp
qed

theorem poll_timeout_bounds_witness:
  "let t = poll_timeout 1000 2500000 (1000000 :: int) in
    0 \<le> t \<and> t \<le> 1000 \<and> (2500000 \<le> (1000000 :: int) \<longrightarrow> t = 0) \<and>
    ((1000000 :: int) < 2500000 \<longrightarrow> 1000000 + t * 1000000 \<le> 2500000) \<and>
    (t = 1000 \<or> 2500000 < 1000000 + (t + 1) * 1000000)"
  by (rule poll_timeout_bounds) simp

end
