(* ===== verification/CommandLine.thy ===== *)
theory CommandLine
  imports ServerTheorems
begin

text \<open>
  The main program of the venue (\<open>venue/main.cpp\<close>): the environment variable and the command line become
  a configuration, or an exit code, and the configuration a server. The texts printed on errors are left
  out. Strings are those of C, without a character 0.
\<close>

section \<open>Numbers\<close>

definition is_space :: "char \<Rightarrow> bool" where
  "is_space c \<longleftrightarrow> c \<in> {CHR '' '', CHR 0x09, CHR 0x0A, CHR 0x0B, CHR 0x0C, CHR 0x0D}"

text \<open>
  \<open>std::strtoull\<close> for base 10, with the value and the rest of the string: it skips white space, takes a sign
  and digits, gives \<open>ULLONG_MAX\<close> for a number that is too big and negates the number as unsigned after a
  minus sign; without digits it gives 0 and stays at the beginning.
\<close>

definition strtoull :: "string \<Rightarrow> u64 \<times> string" where
  "strtoull s =
     (let t = dropWhile is_space s;
          (neg, u) = (case t of c # cs \<Rightarrow> (if c = CHR ''-'' then (True, cs) else if c = CHR ''+'' then (False, cs) else (False, t))
                      | [] \<Rightarrow> (False, []));
          ds = takeWhile is_digit u
      in if ds = [] then (0, s)
         else let n = dec_value 0 ds
           in (if 2 ^ 64 \<le> n then 0xFFFFFFFFFFFFFFFF else if neg then - of_nat n else of_nat n, dropWhile is_digit u))"

definition parseU64 :: "string option \<Rightarrow> u64 option" where
  "parseU64 s =
     (case s of
        None \<Rightarrow> None
      | Some [] \<Rightarrow> None
      | Some (c # cs) \<Rightarrow> (case strtoull (c # cs) of (v, end) \<Rightarrow> if end \<noteq> [] then None else Some v))"

section \<open>Configuration\<close>

record Config =
  cf_port :: "16 word"
  cf_capacity :: u64
  cf_heartbeatMs :: int

definition Config_default :: Config where
  "Config_default = \<lparr>cf_port = 9200, cf_capacity = push_bit 20 1, cf_heartbeatMs = 1000\<rparr>"

definition env_config :: "string option \<Rightarrow> Config \<Rightarrow> int + Config" where
  "env_config envPort cf =
     (case envPort of
        None \<Rightarrow> Inr cf
      | Some _ \<Rightarrow> (case parseU64 envPort of
          None \<Rightarrow> Inl 2
        | Some v \<Rightarrow> if v > 0 \<and> v \<le> 65535 then Inr (cf\<lparr>cf_port := ucast v\<rparr>) else Inl 2))"

text \<open>The lambda \<open>next\<close>, on the arguments from the current one on: it looks at the one behind and moves there.\<close>

definition next_arg :: "string list \<Rightarrow> u64 option" where
  "next_arg args = (case args of arg # a # rest \<Rightarrow> parseU64 (Some a) | _ \<Rightarrow> None)"

text \<open>The loop over the arguments; \<open>Inl\<close> is the code that \<open>main\<close> returns.\<close>

fun args_loop :: "string list \<Rightarrow> Config \<Rightarrow> int + Config" where
  "args_loop [] cf = Inr cf"
| "args_loop (arg # rest) cf =
     (if arg = ''--port'' then
        (case next_arg (arg # rest) of
           None \<Rightarrow> Inl 2
         | Some v \<Rightarrow> if v = 0 \<or> v > 65535 then Inl 2 else args_loop (drop 1 rest) (cf\<lparr>cf_port := ucast v\<rparr>))
      else if arg = ''--capacity'' then
        (case next_arg (arg # rest) of
           None \<Rightarrow> Inl 2
         | Some v \<Rightarrow> if v = 0 then Inl 2 else args_loop (drop 1 rest) (cf\<lparr>cf_capacity := v\<rparr>))
      else if arg = ''--heartbeat-ms'' then
        (case next_arg (arg # rest) of
           None \<Rightarrow> Inl 2
         | Some v \<Rightarrow> if v = 0 \<or> v > 3600000 then Inl 2 else args_loop (drop 1 rest) (cf\<lparr>cf_heartbeatMs := uint v\<rparr>))
      else if arg = ''--help'' \<or> arg = ''-h'' then Inl 0
      else Inl 2)"

definition main_config :: "string option \<Rightarrow> string list \<Rightarrow> int + Config" where
  "main_config envPort args =
     (case env_config envPort Config_default of Inl code \<Rightarrow> Inl code | Inr cf \<Rightarrow> args_loop args cf)"

definition main_server :: "Config \<Rightarrow> fault + Server" where
  "main_server cf =
     (let softCap = cf_capacity cf; bookCapacity = softCap + 64
      in Server_new (cf_port cf) bookCapacity softCap (cf_heartbeatMs cf))"

section \<open>What the command line may say\<close>

lemma digit_marks: "is_digit c \<Longrightarrow> \<not> is_space c \<and> c \<noteq> CHR ''-'' \<and> c \<noteq> CHR ''+''"
  by (auto simp: is_space_def is_digit_def)

definition signed_value :: "string \<Rightarrow> string \<Rightarrow> u64" where
  "signed_value sign ds =
     (if 2 ^ 64 \<le> dec_value 0 ds then 0xFFFFFFFFFFFFFFFF
      else if sign = ''-'' then - of_nat (dec_value 0 ds) else of_nat (dec_value 0 ds))"

text \<open>Whether \<open>s\<close> is a number in the form that \<open>strtoull\<close> takes as a whole.\<close>

definition number_form :: "string \<Rightarrow> string \<Rightarrow> string \<Rightarrow> string \<Rightarrow> bool" where
  "number_form ws sign ds s \<longleftrightarrow> s = ws @ sign @ ds \<and> list_all is_space ws \<and> sign \<in> {[], ''+'', ''-''} \<and>
     ds \<noteq> [] \<and> list_all is_digit ds"

lemma strtoull_number:
  assumes "number_form ws sign ds s"
  shows "strtoull s = (signed_value sign ds, [])"
proof -
  have ds: "ds \<noteq> []" "list_all is_digit ds" and ws: "list_all is_space ws" and s: "s = ws @ sign @ ds"
    and sign: "sign = [] \<or> sign = ''+'' \<or> sign = ''-''"
    using assms by (auto simp: number_form_def)
  obtain c cs where c: "ds = c # cs" "is_digit c" using ds by (cases ds) auto
  note m = digit_marks [OF c(2)]
  have "\<not> is_space (CHR ''-'')" "\<not> is_space (CHR ''+'')" by (simp_all add: is_space_def)
  then have "dropWhile is_space (sign @ ds) = sign @ ds" using sign m by (auto simp: c(1))
  then have drop: "dropWhile is_space s = sign @ ds"
    using ws by (simp add: s list_all_iff dropWhile_append2)
  have ds': "takeWhile is_digit ds = ds" "dropWhile is_digit ds = []"
    using ds(2) by (simp_all add: list_all_iff)
  from sign show ?thesis
  proof (elim disjE)
    assume "sign = []"
    with ds' m show ?thesis unfolding strtoull_def Let_def drop by (simp add: c(1) signed_value_def)
  qed (use ds' in \<open>simp_all add: strtoull_def Let_def drop signed_value_def c(1)\<close>)
qed

lemma strtoull_form:
  assumes "strtoull s = (v, [])" and "s \<noteq> []"
  shows "\<exists>ws sign ds. number_form ws sign ds s"
proof -
  let ?t = "dropWhile is_space s"
  have ws: "list_all is_space (takeWhile is_space s)" by (auto simp: list_all_iff dest: set_takeWhileD)
  obtain sign u where su: "?t = sign @ u" "sign \<in> {[], ''+'', ''-''}"
    and v: "strtoull s = (if takeWhile is_digit u = [] then (0, s) else (fst (strtoull s), dropWhile is_digit u))"
  proof (cases ?t)
    case Nil
    then have "strtoull s = (0, s)" unfolding strtoull_def Let_def by (simp only: list.case prod.case) simp
    with Nil show thesis by (intro that [of "[]" "[]"]) simp_all
  next
    case (Cons c cs)
    consider "c = CHR ''-''" | "c = CHR ''+''" | "c \<noteq> CHR ''-''" "c \<noteq> CHR ''+''" by blast
    then show thesis
    proof cases
      case 1
      with Cons show thesis by (intro that [of "''-''" cs]) (simp_all add: strtoull_def Let_def)
    next
      case 2
      with Cons show thesis by (intro that [of "''+''" cs]) (simp_all add: strtoull_def Let_def)
    next
      case 3
      with Cons show thesis by (intro that [of "[]" "c # cs"]) (simp_all add: strtoull_def Let_def)
    qed
  qed
  have ds: "takeWhile is_digit u \<noteq> []" using v assms by (auto split: if_splits)
  then have "strtoull s = (fst (strtoull s), dropWhile is_digit u)" using v by simp
  then have rest: "dropWhile is_digit u = []" using assms(1) by (metis snd_conv)
  have "list_all is_digit u" using rest by (simp add: list_all_iff dropWhile_eq_Nil_conv)
  moreover have "u \<noteq> []" using ds by auto
  moreover have "s = takeWhile is_space s @ sign @ u" by (subst su(1) [symmetric]) simp
  ultimately have "number_form (takeWhile is_space s) sign u s"
    using su(2) ws unfolding number_form_def by blast
  then show ?thesis by blast
qed

text \<open>C36: \<open>parseU64\<close> accepts exactly the strings of optional white space, an optional sign and at least one digit,
  and nothing behind them. The number is the value of the digits, \<open>2\<^sup>64 - 1\<close> if that has no place in 64 bits,
  and its negation modulo \<open>2\<^sup>64\<close> after a minus sign.\<close>

theorem parseU64_correct:
  "parseU64 (Some s) = Some v \<longleftrightarrow> (\<exists>ws sign ds. number_form ws sign ds s \<and> v = signed_value sign ds)"
proof
  assume a: "parseU64 (Some s) = Some v"
  then have "s \<noteq> []" "strtoull s = (v, [])"
    by (auto simp: parseU64_def split: list.splits prod.splits if_splits)
  with strtoull_form [of s v] strtoull_number show "\<exists>ws sign ds. number_form ws sign ds s \<and> v = signed_value sign ds"
    by fastforce
next
  assume "\<exists>ws sign ds. number_form ws sign ds s \<and> v = signed_value sign ds"
  then obtain ws sign ds where f: "number_form ws sign ds s" "v = signed_value sign ds" by blast
  then have "s \<noteq> []" by (auto simp: number_form_def)
  with strtoull_number [OF f(1)] f(2) show "parseU64 (Some s) = Some v"
    by (auto simp: parseU64_def split: list.split)
qed

section \<open>The configuration\<close>

definition config_ok :: "Config \<Rightarrow> bool" where
  "config_ok cf \<longleftrightarrow> cf_port cf \<noteq> 0 \<and> cf_capacity cf \<noteq> 0 \<and> 1 \<le> cf_heartbeatMs cf \<and> cf_heartbeatMs cf \<le> 3600000"

definition asks_help :: "string list \<Rightarrow> bool" where
  "asks_help args \<longleftrightarrow> ''--help'' \<in> set args \<or> ''-h'' \<in> set args"

lemma port_nonzero:
  assumes "(v :: u64) \<noteq> 0" and "v \<le> 65535"
  shows "(ucast v :: 16 word) \<noteq> 0"
proof
  assume "(ucast v :: 16 word) = 0"
  then have "unat (ucast v :: 16 word) = 0" by simp
  then have "take_bit 16 (unat v) = 0" by (simp add: unsigned_ucast_eq unsigned_take_bit_eq)
  moreover have "unat v < 2 ^ 16" using assms(2) by (simp add: word_le_nat_alt)
  ultimately show False using assms(1) by (simp add: take_bit_nat_eq_self unat_eq_0)
qed

lemma heartbeat_range:
  assumes "(v :: u64) \<noteq> 0" and "v \<le> 3600000"
  shows "1 \<le> uint v \<and> uint v \<le> 3600000"
proof -
  have "uint v \<noteq> 0" using assms(1) by (metis unsigned_eq_0_iff)
  moreover have "0 \<le> uint v" by simp
  ultimately have "1 \<le> uint v" by linarith
  then show ?thesis using assms(2) by (simp add: word_le_def)
qed

lemma args_loop_ok:
  "config_ok cf \<Longrightarrow> (case args_loop args cf of Inl code \<Rightarrow> code = 2 \<or> code = 0 \<and> asks_help args | Inr cf' \<Rightarrow> config_ok cf')"
proof (induction args cf rule: args_loop.induct)
  case (2 arg rest cf)
  have behind: "asks_help (drop 1 rest) \<Longrightarrow> asks_help (arg # rest)"
    by (auto simp: asks_help_def dest: in_set_dropD)
  consider (port) "arg = ''--port''" | (capacity) "arg = ''--capacity''" | (heartbeat) "arg = ''--heartbeat-ms''"
    | (other) "arg \<notin> {''--port'', ''--capacity'', ''--heartbeat-ms''}" by blast
  then show ?case
  proof cases
    case port
    with 2 behind show ?thesis
      by (auto simp: config_ok_def port_nonzero not_less split: option.splits sum.splits)
  next
    case capacity
    with 2 behind show ?thesis
      by (auto simp: config_ok_def split: option.splits sum.splits)
  next
    case heartbeat
    with 2 behind show ?thesis
      by (auto simp: config_ok_def heartbeat_range not_less split: option.splits sum.splits)
  next
    case other
    then show ?thesis by (auto simp: asks_help_def)
  qed
qed simp

text \<open>C37: What a run of \<open>main\<close> that gets to the server has checked: the port and the capacity are not 0 and the
  heartbeat takes 1 ms to an hour. Otherwise the exit code is 2, or 0 if help was asked for.\<close>

theorem config_bounds:
  "case main_config envPort args of
     Inl code \<Rightarrow> code = 2 \<or> code = 0 \<and> asks_help args
   | Inr cf \<Rightarrow> cf_port cf \<noteq> 0 \<and> cf_capacity cf \<noteq> 0 \<and> 1 \<le> cf_heartbeatMs cf \<and> cf_heartbeatMs cf \<le> 3600000"
proof -
  have default: "config_ok Config_default" by code_simp
  have "case env_config envPort Config_default of Inl code \<Rightarrow> code = 2 | Inr cf \<Rightarrow> config_ok cf"
    using default by (auto simp: env_config_def config_ok_def port_nonzero split: option.split)
  then have "case main_config envPort args of Inl code \<Rightarrow> code = 2 \<or> code = 0 \<and> asks_help args | Inr cf \<Rightarrow> config_ok cf"
    unfolding main_config_def
    by (cases "env_config envPort Config_default") (use args_loop_ok [of _ args] in auto)
  then show ?thesis by (simp add: config_ok_def split: sum.splits)
qed

text \<open>C26: The headroom of 64 slots holds as long as the capacity is below \<open>2\<^sup>64 - 64\<close>: the server starts, in its
  invariant, with 64 slots more than it admits orders. Above, the sum wraps around: for \<open>2\<^sup>64 - 64\<close> itself the
  constructor of the pool writes outside its array, and beyond it the book has fewer slots than the venue
  admits orders.\<close>

theorem main_headroom:
  "case main_server cf of
     Inl e \<Rightarrow> cf_capacity cf = - 64 \<and> e = OutOfBounds
   | Inr s \<Rightarrow> cf_capacity cf \<noteq> - 64 \<and>
       (let slots = unat (op_capacity (ob_pool (v_book (sv_venue s)))); orders = unat (vt_softCap (v_tables (sv_venue s))) in
        if unat (cf_capacity cf) < 2 ^ 64 - 64 then server_inv s \<and> slots = orders + 64 else slots < orders)"
proof -
  let ?n = "cf_capacity cf"
  have lt: "unat ?n < 2 ^ 64" using unsigned_less [of ?n] by simp
  have sum: "unat (?n + 64) = (if unat ?n < 2 ^ 64 - 64 then unat ?n + 64 else unat ?n + 64 - 2 ^ 64)"
    using lt by (simp add: unat_word_ariths mod_if)
  have wrap: "?n + 64 = 0 \<longleftrightarrow> ?n = - 64" by (simp add: eq_neg_iff_add_eq_0)
  show ?thesis
  proof (cases "?n + 64 = 0")
    case True
    then show ?thesis
      using OrderPool_new_zero wrap by (simp add: main_server_def Server_new_def Venue_new_def OrderBook_new_def)
  next
    case False
    then obtain b where b: "OrderBook_new (?n + 64) = Inr b" "op_capacity (ob_pool b) = ?n + 64"
      by (rule OrderBook_new_ok)
    then obtain s where s: "main_server cf = Inr s" "v_book (sv_venue s) = b" "vt_softCap (v_tables (sv_venue s)) = ?n"
      by (auto simp: main_server_def Server_new_def Venue_new_def Let_def)
    have "unat ?n < 2 ^ 64 - 64 \<Longrightarrow> server_inv s"
      using s(1) sum by (auto simp: main_server_def Let_def word_less_nat_alt intro: Server_new_inv(1))
    with s b False wrap sum show ?thesis using lt by (auto simp: Let_def)
  qed
qed

text \<open>Such a capacity can be asked for, since \<open>strtoull\<close> takes a minus sign.\<close>

lemma negative_capacity:
  "main_config None [''--capacity'', ''-64''] = Inr (Config_default\<lparr>cf_capacity := - 64\<rparr>)"
  "main_server (Config_default\<lparr>cf_capacity := - 64\<rparr>) = Inl OutOfBounds"
proof -
  have "strtoull ''-64'' = (signed_value ''-'' ''64'', [])"
    by (rule strtoull_number [of "[]"]) (simp add: number_form_def is_digit_def)
  then have "parseU64 (Some ''-64'') = Some (- 64)"
    by (simp add: parseU64_def signed_value_def digit_nat_def)
  then show "main_config None [''--capacity'', ''-64''] = Inr (Config_default\<lparr>cf_capacity := - 64\<rparr>)"
    by (simp add: main_config_def env_config_def next_arg_def)
  show "main_server (Config_default\<lparr>cf_capacity := - 64\<rparr>) = Inl OutOfBounds"
    by (simp add: main_server_def Server_new_def Venue_new_def OrderBook_new_def OrderPool_new_zero)
qed

end
