(* ===== verification/Spec2Isabelle.thy ===== *)
theory Spec2Isabelle
  imports BookTheorems PoolTheorems Framing Protocol VenueSessions ServerTheorems CommandLine
begin

text \<open>
  A verification of the matching engine and the trading venue under
  \<open>src/engine/order-matching-engine\<close>; paths below are relative to that directory.

  The program. One process runs a \<open>poll\<close> loop (\<open>Server\<close>) over the TCP connections of its clients. Bytes that
  arrive go through a frame decoder (\<open>FrameDecoder\<close>); each payload is a flat JSON object that \<open>parseInbound\<close>
  turns into a message; the \<open>Venue\<close> admits or rejects an order, or cancels one, keeps its tables of live
  orders and client records, and calls the matching core (\<open>OrderBook\<close>), which keeps its orders in a pool of
  slots (\<open>OrderPool\<close>), linked into queues (\<open>PriceLevel\<close>). The core calls back with each trade; the venue makes
  fill messages of it, which the server queues, framed, for the connections concerned. At the end of
  a pass the server publishes the top of the book to everybody, if it has changed.

  The memory. \<open>CoreTypes\<close> has the structs of \<open>include/types.h\<close>, \<open>include/order.h\<close> and \<open>include/price_level.h\<close>.
  A slot of the pool is an index into the list \<open>op_orders\<close>, a pointer \<open>ptr\<close> an index or null; a read or a
  write through null or outside an array is a fault (\<open>Prelude\<close>), and so is a failed assert in the
  build with asserts, which the flag \<open>dbg\<close> stands for. \<open>OrderPool\<close> and \<open>PriceLevels\<close> model \<open>src/order_pool.cpp\<close> and
  \<open>src/price_level.cpp\<close> over \<open>SlotLists\<close>, the predicates for linked lists; \<open>PoolTheorems\<close> states their contracts
  as the locales \<open>slot_allocator\<close> and \<open>fifo_queue\<close>. \<open>UnorderedMap\<close> models \<open>std::unordered_map\<close> as the list of
  its entries, with the locale \<open>hash_map\<close> for what its clients rely on.

  The matching core. \<open>OrderBook\<close> models \<open>include/order_book.h\<close> function by function; the trade callback is a
  parameter that acts on a state of any type. \<open>BookSpec\<close> is the abstract book: two lists of orders in
  priority order, with matching, addition and cancellation defined on them. \<open>BookRep\<close>, \<open>BookMatch\<close>,
  \<open>BookSides\<close> and \<open>BookRefine\<close> relate the two: \<open>book_inv\<close> is the invariant of the memory and \<open>abs_book\<close> reads the
  abstract book off it. The code writes matching and resting once for each side; the locales
  \<open>book_side\<close>, \<open>match_side\<close>, \<open>taking\<close> and \<open>rest_side\<close> prove both from one text, and are interpreted on either.
  \<open>BookPriority\<close> shows what the abstract book promises. \<open>BookTheorems\<close> holds the results: every operation
  returns, refines the specification and keeps the invariant, trades follow price-time priority,
  quantity is conserved, and the error cases. The cached total of a price level is a 32-bit word that the
  code adds to without a check, so it is stated as the sum of the quantities modulo \<open>2 ^ 32\<close>;
  \<open>total_wraps\<close> is a book in which the two differ.

  The wire. \<open>Framing\<close> models \<open>venue/framing.cpp\<close>; the locale \<open>stream_decoder\<close> shows that a decoder of its kind
  does not depend on how the stream is cut. \<open>Json\<close>, \<open>Numbers\<close> and \<open>Protocol\<close> model \<open>venue/protocol.cpp\<close>: the
  parser and the quoting, the numbers and prices with their overflow checks, the messages in both
  directions. \<open>JsonGrammar\<close> has the language of flat objects as a grammar, \<open>object_form\<close>, which \<open>parseFlatObject\<close>
  is proved to accept exactly; what a request means is stated over this grammar, and every outbound
  message is shown to be a text of it, or to be refused, depending on the characters of its strings.

  The venue. \<open>Venue\<close> models \<open>venue/venue.cpp\<close>, with its output function and its clock as parameters that act on
  a state of any type. \<open>VenueInv\<close> has the invariant \<open>venue_inv\<close>, that the tables and the core agree order by
  order; \<open>VenueFills\<close> runs the trades of one order over the tables, \<open>VenueSteps\<close> and \<open>VenueTheorems\<close> the single
  requests, and \<open>VenueSessions\<close> all sequences of requests and closed connections, as the inductive
  relations \<open>venue_step\<close> and \<open>venue_reachable\<close>.

  The server. \<open>Server\<close> models \<open>venue/server.cpp\<close>: the record \<open>Net\<close> has the three maps of connections, and the answers
  of the operating system (\<open>accept\<close>, \<open>recv\<close>, \<open>send\<close>, \<open>poll\<close>, the clocks) are inputs of a pass. \<open>ServerInv\<close> has the
  invariant \<open>server_inv\<close> and the opening and closing of connections, \<open>ServerSteps\<close> reading, and
  \<open>ServerTheorems\<close> writing, the two broadcasts (\<open>sends_all\<close>), the pass as a whole and the runs \<open>server_run\<close>. \<open>CommandLine\<close> models \<open>venue/main.cpp\<close>.

  Loops and fuel. The matching loop has one round of fuel for each slot of the pool and one more; every
  round but the last takes a resting order out of the book, or ends the incoming one, so this is enough,
  and the theorems on \<open>addLimitOrder\<close> show that it returns. The loop over frames has the length of the
  buffer as fuel, since a frame has at least 8 bytes. The loops over \<open>recv\<close>, \<open>send\<close> and \<open>accept\<close> end with their
  list of answers; running out of answers is the fault \<open>OutOfFuel\<close>, which \<open>pass_ok\<close> excludes: it asks that
  the answers of the operating system come to an end, as they do on a non-blocking socket whose peer
  stops sending. The code itself has no bound there: a client that sends faster than it is served keeps
  \<open>handleReadable\<close> in its first loop. Ids are 64 bits wide, and the theorems ask that they do not run out;
  with asserts compiled in, they ask for a soft cap of at most 4096 orders, since the assert on the
  capacity of the level vectors fails for the 4097th level (\<open>addLimitOrder_level_limit\<close>, on a book that 4096 bids
  make). The capacity after \<open>reserve(4096)\<close> is taken to be 4096, which the standard only gives as a lower bound. \<open>size_t\<close> is taken to have 64 bits.

  Not modelled. The benchmarks and tests under \<open>benchmarks\<close> and \<open>tests\<close>, which only use the library; the Python
  programs under \<open>src/ops-layer\<close>; texts on the standard error output, socket options and the signal
  setting; the exhaustion of memory; the order in which an \<open>unordered_map\<close> is traversed beyond the fact that
  it is some order (no theorem rests on which); the bytes of the texts beyond ASCII, which the code
  passes through. The clock is taken as broken down by \<open>gmtime_r\<close>.
\<close>

end
